(* ===== verification/Prelude.thy ===== *)
theory Prelude
  imports Main "HOL-Library.Word"
begin

text \<open>
  Shared vocabulary of the development: machine integers, C memory as lists of
  bytes, faults (undefined behaviour, failed assertions, blocking) as values,
  the little-endian encodings that \<open>memcpy\<close> of an integer produces on the
  target, and the generic lemmas the component theories share.
\<close>

unbundle bit_operations_syntax

section \<open>Machine integers and bytes\<close>

type_synonym u8 = "8 word"
type_synonym u32 = "32 word"
type_synonym u64 = "64 word"
type_synonym bytes = "u8 list"

named_theorems bounds_simps \<open>bounds on lengths, sizes and positions\<close>

section \<open>Faults\<close>

text \<open>
  What stops the C program from going on with a defined value: an access outside
  an object, a failed \<open>assert\<close>, a call that would wait for another thread,
  the use of an unset or freed pointer, a thread locking a mutex it holds,
  a \<open>printf\<close> directive without its argument.
\<close>

datatype fault = OutOfBounds | AssertFailed | WouldBlock | BadPointer | Deadlock | BadFormat

type_synonym 'a res = "fault + 'a"

definition bindR :: "'a res \<Rightarrow> ('a \<Rightarrow> 'b res) \<Rightarrow> 'b res" where
  "bindR m f = (case m of Inl e \<Rightarrow> Inl e | Inr x \<Rightarrow> f x)"

lemma bindR_simps [simp]: "bindR (Inr x) f = f x" "bindR (Inl e) f = Inl e"
  by (simp_all add: bindR_def)

lemma bindR_eq_Inr: "bindR m f = Inr y \<longleftrightarrow> (\<exists>x. m = Inr x \<and> f x = Inr y)"
  by (cases m) auto

lemma bindR_eq_Inl: "bindR m f = Inl e \<longleftrightarrow> m = Inl e \<or> (\<exists>x. m = Inr x \<and> f x = Inl e)"
  by (cases m) auto

lemma bindR_cong [fundef_cong]:
  "m = m' \<Longrightarrow> (\<And>x. m' = Inr x \<Longrightarrow> f x = f' x) \<Longrightarrow> bindR m f = bindR m' f'"
  by (cases m') auto

lemma bindR_Inr [simp]: "bindR m Inr = m"
  by (cases m) auto

lemma bindR_assoc: "bindR (bindR m f) g = bindR m (\<lambda>x. bindR (f x) g)"
  by (cases m) auto

definition isOk :: "'a res \<Rightarrow> bool" where
  "isOk r = (case r of Inl _ \<Rightarrow> False | Inr _ \<Rightarrow> True)"

lemma isOk_simps [simp]: "isOk (Inr x)" "\<not> isOk (Inl e)"
  by (simp_all add: isOk_def)

text \<open>A loop over a list.\<close>

fun foldR :: "('a \<Rightarrow> 'b \<Rightarrow> 'b res) \<Rightarrow> 'a list \<Rightarrow> 'b \<Rightarrow> 'b res" where
  "foldR f [] s = Inr s"
| "foldR f (x # xs) s = bindR (f x s) (foldR f xs)"

lemma foldR_append: "foldR f (xs @ ys) s = bindR (foldR f xs s) (foldR f ys)"
  by (induction xs arbitrary: s) (simp_all add: bindR_assoc cong: bindR_cong)

section \<open>C memory blocks\<close>

text \<open>
  \<open>poke off src mem\<close> is \<open>memcpy(mem+off, src, n)\<close>; \<open>peek off n mem\<close> reads
  \<open>n\<close> bytes. Both fault when they leave the block.
\<close>

definition poke :: "nat \<Rightarrow> 'a list \<Rightarrow> 'a list \<Rightarrow> 'a list res" where
  "poke off src mem =
     (if off + length src \<le> length mem
      then Inr (take off mem @ src @ drop (off + length src) mem)
      else Inl OutOfBounds)"

definition peek :: "nat \<Rightarrow> nat \<Rightarrow> 'a list \<Rightarrow> 'a list res" where
  "peek off n mem =
     (if off + n \<le> length mem then Inr (take n (drop off mem)) else Inl OutOfBounds)"

lemma poke_ok: "off + length src \<le> length mem \<Longrightarrow>
    poke off src mem = Inr (take off mem @ src @ drop (off + length src) mem)"
  by (simp add: poke_def)

lemma poke_fault: "length mem < off + length src \<Longrightarrow> poke off src mem = Inl OutOfBounds"
  by (simp add: poke_def)

lemma poke_length [bounds_simps]: "poke off src mem = Inr mem' \<Longrightarrow> length mem' = length mem"
  by (auto simp: poke_def split: if_splits)

lemma peek_ok: "off + n \<le> length mem \<Longrightarrow> peek off n mem = Inr (take n (drop off mem))"
  by (simp add: peek_def)

lemma peek_length [bounds_simps]: "peek off n mem = Inr xs \<Longrightarrow> length xs = n"
  by (auto simp: peek_def split: if_splits)

lemma peek_poke_same:
  assumes "poke off src mem = Inr mem'"
  shows "peek off (length src) mem' = Inr src"
  using assms by (auto simp: poke_def peek_def split: if_splits)

section \<open>Little-endian integers\<close>

fun le_encode :: "nat \<Rightarrow> 'a::len word \<Rightarrow> bytes" where
  "le_encode 0 w = []"
| "le_encode (Suc n) w = ucast w # le_encode n (drop_bit 8 w)"

fun le_decode :: "bytes \<Rightarrow> 'a::len word" where
  "le_decode [] = 0"
| "le_decode (b # bs) = ucast b OR push_bit 8 (le_decode bs)"

lemma length_le_encode [simp]: "length (le_encode n w) = n"
  by (induction n w rule: le_encode.induct) auto

lemma le_decode_encode:
  "LENGTH('a::len) \<le> 8 * n \<Longrightarrow> le_decode (le_encode n (w :: 'a word)) = w"
proof -
  have gen: "le_decode (le_encode n w) = take_bit (8 * n) w" for n and w :: "'a word"
  proof (induction n w rule: le_encode.induct)
    case (1 w)
    then show ?case by simp
  next
    case (2 n w)
    show ?case
      by (rule bit_word_eqI)
        (auto simp: "2" bit_or_iff bit_push_bit_iff bit_take_bit_iff bit_drop_bit_eq bit_ucast_iff
           intro: bit_imp_le_length)
  qed
  show "LENGTH('a) \<le> 8 * n \<Longrightarrow> le_decode (le_encode n w) = w"
    unfolding gen by (rule take_bit_word_eq_self) simp
qed

section \<open>Lists\<close>

lemma take_drop_append3:
  "length xs = a \<Longrightarrow> length ys = b \<Longrightarrow> take b (drop a (xs @ ys @ zs)) = ys"
  by auto

lemma nth_list_update_cases:
  "i < length xs \<Longrightarrow> xs[j := y] ! i = (if i = j then y else xs ! i)"
  by (auto simp: nth_list_update)

lemma map_upt_shift: "map f [Suc m..<Suc n] = map (\<lambda>i. f (Suc i)) [m..<n]"
  by (simp add: map_Suc_upt [symmetric] del: upt_Suc)

lemma upt_hd: "0 < n \<Longrightarrow> [0..<n] = 0 # map Suc [0..<n - 1]"
  by (cases n) (simp_all add: map_Suc_upt upt_conv_Cons del: upt_Suc)

end
