(* ===== verification/Circular.thy ===== *)
theory Circular
  imports Prelude
begin

text \<open>
  The thread-safe circular buffer \<open>tw_safeCircular\<close> (deps/twlib/include/TW/tw_circular.h)
  and the two-way semaphore it counts with (tw_sema2.h). Every queue of the logger
  (free log buffers, internal commands, V8 callbacks, the banks of a target, the rotated
  files) is one of these. Each operation runs under the semaphore's mutex, so it is one
  atomic step on the record below. A blocking \<open>add\<close> on a full queue is the fault
  \<open>WouldBlock\<close>. The abstraction \<open>items\<close> is the list of queued values, and the
  interface \<open>bounded_fifo\<close> is what the components that own queues rely on.
\<close>

section \<open>State\<close>

record 'a circular =
  sema_cnt :: int      \<comment> \<open>TW_SemaTwoWay::cnt, the free slots\<close>
  sema_size :: int     \<comment> \<open>TW_SemaTwoWay::size\<close>
  revd :: bool         \<comment> \<open>_reverse\<close>
  enabled :: bool
  nextIn :: int
  nextOut :: int
  csize :: int         \<comment> \<open>_size\<close>
  cells :: "'a list"   \<comment> \<open>data\<close>

text \<open>\<open>init\<close> is what a fresh cell holds: \<open>T()\<close> for objects, else what malloc returned.\<close>

definition new_circular :: "nat \<Rightarrow> 'a \<Rightarrow> 'a circular" where
  "new_circular n init =
     \<lparr>sema_cnt = int n, sema_size = int n, revd = False, enabled = True,
      nextIn = -1, nextOut = 0, csize = int n, cells = replicate n init\<rparr>"

section \<open>The semaphore\<close>

definition countNoBlock :: "'a circular \<Rightarrow> int" where
  "countNoBlock c = sema_cnt c"

definition acquireAndKeepLockNoBlock :: "'a circular \<Rightarrow> bool \<times> 'a circular" where
  "acquireAndKeepLockNoBlock c =
     (if sema_cnt c \<ge> 1 then (True, c\<lparr>sema_cnt := sema_cnt c - 1\<rparr>) else (False, c))"

text \<open>The waiting form: \<open>pthread_cond_wait\<close> returns only after another thread's release.\<close>

definition acquireAndKeepLock :: "'a circular \<Rightarrow> 'a circular res" where
  "acquireAndKeepLock c =
     (if sema_cnt c \<ge> 1 then Inr (c\<lparr>sema_cnt := sema_cnt c - 1\<rparr>) else Inl WouldBlock)"

definition releaseWithoutLock :: "'a circular \<Rightarrow> 'a circular" where
  "releaseWithoutLock c = c\<lparr>sema_cnt := sema_cnt c + 1\<rparr>"

definition resetNoLock :: "'a circular \<Rightarrow> 'a circular" where
  "resetNoLock c = c\<lparr>sema_cnt := sema_size c\<rparr>"

section \<open>Operations\<close>

definition tw_full :: "'a circular \<Rightarrow> bool" where
  "tw_full c \<longleftrightarrow> countNoBlock c = 0"

definition tw_remain :: "'a circular \<Rightarrow> int" where
  "tw_remain c = csize c - countNoBlock c"

definition tw_nextNextIn :: "'a circular \<Rightarrow> int" where
  "tw_nextNextIn c =
     (if revd c
      then (let n = nextIn c - 1 in if n < 0 then csize c - 1 else n)
      else (let n = nextIn c + 1 in if n \<ge> csize c then 0 else n))"

definition tw_nextNextOut :: "'a circular \<Rightarrow> int" where
  "tw_nextNextOut c =
     (if revd c
      then (let n = nextOut c - 1 in if n < 0 then csize c - 1 else n)
      else (let n = nextOut c + 1 in if n \<ge> csize c then 0 else n))"

definition tw_place :: "'a \<Rightarrow> 'a circular \<Rightarrow> 'a circular" where
  "tw_place d c = (let i = tw_nextNextIn c in c\<lparr>nextIn := i, cells := (cells c)[nat i := d]\<rparr>)"

definition tw_add :: "'a \<Rightarrow> 'a circular \<Rightarrow> 'a circular res" where
  "tw_add d c = bindR (acquireAndKeepLock c) (\<lambda>c. Inr (tw_place d c))"

definition tw_addIfRoom :: "'a \<Rightarrow> 'a circular \<Rightarrow> bool \<times> 'a circular" where
  "tw_addIfRoom d c =
     (case acquireAndKeepLockNoBlock c of
        (True, c) \<Rightarrow> (True, tw_place d c)
      | (False, c) \<Rightarrow> (False, c))"

text \<open>The move forms also change the argument: \<open>mv\<close> is what the move leaves behind.\<close>

definition tw_addMv :: "('a \<Rightarrow> 'a) \<Rightarrow> 'a \<Rightarrow> 'a circular \<Rightarrow> ('a \<times> 'a circular) res" where
  "tw_addMv mv d c = bindR (acquireAndKeepLock c) (\<lambda>c. Inr (mv d, tw_place d c))"

definition tw_addMvIfRoom :: "('a \<Rightarrow> 'a) \<Rightarrow> 'a \<Rightarrow> 'a circular \<Rightarrow> bool \<times> 'a \<times> 'a circular" where
  "tw_addMvIfRoom mv d c =
     (case acquireAndKeepLockNoBlock c of
        (True, c) \<Rightarrow> (True, mv d, tw_place d c)
      | (False, c) \<Rightarrow> (False, d, c))"

text \<open>The two forms of removal; an emptied queue starts again at the beginning.\<close>

definition tw_advance_out :: "int \<Rightarrow> 'a circular \<Rightarrow> 'a circular" where
  "tw_advance_out r c =
     (let c = c\<lparr>nextOut := tw_nextNextOut c\<rparr>
      in if r = 1 then c\<lparr>nextIn := -1, nextOut := 0, revd := False\<rparr> else c)"

definition tw_remove :: "'a circular \<Rightarrow> 'a option \<times> 'a circular" where
  "tw_remove c =
     (let r = tw_remain c
      in if r > 0
         then (Some (cells c ! nat (nextOut c)), tw_advance_out r (releaseWithoutLock c))
         else (None, c))"

definition tw_removeMv :: "('a \<Rightarrow> 'a) \<Rightarrow> 'a circular \<Rightarrow> 'a option \<times> 'a circular" where
  "tw_removeMv mv c =
     (let r = tw_remain c; out = nat (nextOut c)
      in if r > 0
         then (Some (cells c ! out),
               tw_advance_out r ((releaseWithoutLock c)\<lparr>cells := (cells c)[out := mv (cells c ! out)]\<rparr>))
         else (None, c))"

definition tw_remaining :: "'a circular \<Rightarrow> int" where
  "tw_remaining c = tw_remain c"

text \<open>\<open>clear\<close> rebuilds the cells of an object queue (\<open>isObjects\<close>).\<close>

definition tw_clear :: "'a option \<Rightarrow> 'a circular \<Rightarrow> 'a circular" where
  "tw_clear obj c =
     resetNoLock (c\<lparr>cells := (case obj of Some t \<Rightarrow> replicate (nat (csize c)) t | None \<Rightarrow> cells c),
                    nextIn := -1, nextOut := 0, revd := False, enabled := True\<rparr>)"

definition tw_reverse :: "'a circular \<Rightarrow> 'a circular" where
  "tw_reverse c =
     (if tw_remain c < 1 then c
      else c\<lparr>revd := \<not> revd c, nextOut := nextIn c, nextIn := nextOut c\<rparr>)"

definition tw_enable :: "'a circular \<Rightarrow> 'a circular" where
  "tw_enable c = c\<lparr>enabled := True\<rparr>"

definition tw_disable :: "'a circular \<Rightarrow> 'a circular" where
  "tw_disable c = c\<lparr>enabled := False\<rparr>"

definition tw_cloneFrom :: "'a circular \<Rightarrow> 'a circular \<Rightarrow> 'a circular" where
  "tw_cloneFrom other c =
     c\<lparr>sema_cnt := sema_cnt other, sema_size := sema_size other, nextIn := nextIn other,
       nextOut := nextOut other, csize := csize other, revd := revd other,
       enabled := enabled other, cells := cells other\<rparr>"

text \<open>
  \<open>this.transferFrom(other)\<close> returns the new \<open>this\<close> and the emptied \<open>other\<close>, whose
  cells are moved from; \<open>other._reverse\<close> is kept.
\<close>

definition tw_transferFrom ::
    "('a \<Rightarrow> 'a) \<Rightarrow> 'a circular \<Rightarrow> 'a circular \<Rightarrow> 'a circular \<times> 'a circular" where
  "tw_transferFrom mv other c =
     (tw_cloneFrom other c,
      (resetNoLock other)\<lparr>nextIn := -1, nextOut := 0, cells := map mv (cells other)\<rparr>)"

section \<open>Abstraction and invariant\<close>

text \<open>The index of the \<open>k\<close>-th queued value, counted from the next one out.\<close>

definition slot :: "'a circular \<Rightarrow> int \<Rightarrow> int" where
  "slot c k = (nextOut c + (if revd c then - k else k)) mod csize c"

definition items :: "'a circular \<Rightarrow> 'a list" where
  "items c = map (\<lambda>k. cells c ! nat (slot c (int k))) [0..<nat (tw_remain c)]"

definition capacity :: "'a circular \<Rightarrow> nat" where
  "capacity c = nat (csize c)"

definition circular_inv :: "'a circular \<Rightarrow> bool" where
  "circular_inv c \<longleftrightarrow>
     0 < csize c \<and> length (cells c) = nat (csize c) \<and> sema_size c = csize c \<and>
     0 \<le> sema_cnt c \<and> sema_cnt c \<le> csize c \<and>
     0 \<le> nextOut c \<and> nextOut c < csize c \<and>
     (if tw_remain c = 0 then nextIn c = -1 \<and> nextOut c = 0 \<and> \<not> revd c
      else nextIn c = slot c (tw_remain c - 1))"

lemma length_items [simp]: "length (items c) = nat (tw_remain c)"
  by (simp add: items_def)

lemma items_Nil_iff: "items c = [] \<longleftrightarrow> tw_remain c \<le> 0"
  by (simp add: items_def)

lemma remain_bounds [bounds_simps]:
  "circular_inv c \<Longrightarrow> 0 \<le> tw_remain c" "circular_inv c \<Longrightarrow> tw_remain c \<le> csize c"
  by (auto simp: circular_inv_def tw_remain_def countNoBlock_def)

lemma length_items_le: "circular_inv c \<Longrightarrow> length (items c) \<le> capacity c"
  using remain_bounds [of c] by (simp add: capacity_def)

lemma wrap_up: "0 \<le> x \<Longrightarrow> x < n \<Longrightarrow> (if x + 1 \<ge> n then 0 else x + 1) = (x + 1) mod (n::int)"
  by (cases "x + 1 = n") auto

lemma wrap_down: "0 \<le> x \<Longrightarrow> x < n \<Longrightarrow> (if x - 1 < 0 then n - 1 else x - 1) = (x - 1) mod (n::int)"
proof (cases "x = 0")
  case True
  assume "0 \<le> x" "x < n"
  with True have "(-1) mod n = n - 1" by (simp add: zmod_minus1)
  with True show ?thesis by simp
qed auto

lemma slot_bounds: "0 < csize c \<Longrightarrow> 0 \<le> slot c k \<and> slot c k < csize c"
  by (simp add: slot_def)

lemma slot_0: "0 \<le> nextOut c \<Longrightarrow> nextOut c < csize c \<Longrightarrow> slot c 0 = nextOut c"
  by (simp add: slot_def)

lemma nextNextIn_slot:
  assumes n: "0 < csize c" and i: "nextIn c = slot c (r - 1)"
  shows "tw_nextNextIn c = slot c r"
proof -
  have b: "0 \<le> nextIn c" "nextIn c < csize c" using slot_bounds [OF n] by (auto simp: i)
  have "tw_nextNextIn c = (nextIn c + (if revd c then - 1 else 1)) mod csize c"
    using wrap_down [OF b] wrap_up [OF b] by (simp add: tw_nextNextIn_def Let_def)
  also have "\<dots> = slot c r" by (simp add: i slot_def mod_diff_left_eq mod_add_left_eq)
  finally show ?thesis .
qed

lemma nextNextIn_eq: "circular_inv c \<Longrightarrow> tw_nextNextIn c = slot c (tw_remain c)"
  using nextNextIn_slot [of c "tw_remain c"]
  by (cases "tw_remain c = 0") (auto simp: circular_inv_def tw_nextNextIn_def slot_def)

lemma nextNextIn_frame [simp]:
  "tw_nextNextIn (c\<lparr>sema_cnt := x\<rparr>) = tw_nextNextIn c"
  by (simp add: tw_nextNextIn_def)

lemma room_iff: "circular_inv c \<Longrightarrow> 1 \<le> sema_cnt c \<longleftrightarrow> length (items c) < capacity c"
  by (auto simp: circular_inv_def capacity_def tw_remain_def countNoBlock_def)

lemma slot_inj:
  assumes "0 < csize c" "0 \<le> j" "j < k" "k < csize c"
  shows "slot c j \<noteq> slot c k"
proof
  assume "slot c j = slot c k"
  then have "csize c dvd (k - j)"
    by (auto simp: slot_def mod_eq_dvd_iff split: if_splits)
       (metis dvd_minus_iff minus_diff_eq)+
  with assms zdvd_imp_le [of "csize c" "k - j"] show False by auto
qed

section \<open>Adding\<close>

lemma tw_place_inv_items:
  fixes d :: 'a
  assumes inv: "circular_inv c" and room: "1 \<le> sema_cnt c"
  defines "c' \<equiv> tw_place d (c\<lparr>sema_cnt := sema_cnt c - 1\<rparr>)"
  shows "circular_inv c' \<and> items c' = items c @ [d] \<and> capacity c' = capacity c"
proof -
  define r where "r = tw_remain c"
  have n: "0 < csize c" and len: "length (cells c) = nat (csize c)"
    and r: "0 \<le> r" "r < csize c"
    using inv room by (auto simp: circular_inv_def r_def tw_remain_def countNoBlock_def)
  have i: "tw_nextNextIn (c\<lparr>sema_cnt := sema_cnt c - 1\<rparr>) = slot c r"
    using nextNextIn_eq [OF inv] by (simp add: r_def)
  have c': "c' = c\<lparr>sema_cnt := sema_cnt c - 1, nextIn := slot c r,
                   cells := (cells c)[nat (slot c r) := d]\<rparr>"
    using i by (simp add: c'_def tw_place_def Let_def)
  have slot': "slot c' k = slot c k" for k by (simp add: c' slot_def)
  have rem': "tw_remain c' = r + 1"
    by (simp add: c' tw_remain_def countNoBlock_def r_def)
  have inv': "circular_inv c'"
    using inv room r slot_bounds [OF n, of r] rem' slot'
    by (auto simp: circular_inv_def c')
  have old: "cells c' ! nat (slot c k) = cells c ! nat (slot c k)" if "0 \<le> k" "k < r" for k
    using slot_inj [OF n that r(2)] slot_bounds [OF n, of k] slot_bounds [OF n, of r]
    by (simp add: c' nat_eq_iff)
  have new: "cells c' ! nat (slot c r) = d"
    using slot_bounds [OF n, of r] len by (simp add: c')
  have "items c' = map (\<lambda>k. cells c' ! nat (slot c (int k))) [0..<Suc (nat r)]"
    using r rem' by (simp add: items_def slot' nat_add_distrib)
  also have "\<dots> = items c @ [d]"
    using r new old by (simp add: items_def r_def)
  finally show ?thesis using inv' by (simp add: capacity_def c')
qed

lemma tw_addIfRoom_spec:
  assumes inv: "circular_inv c" and run: "tw_addIfRoom d c = (b, c')"
  shows "circular_inv c' \<and> capacity c' = capacity c \<and>
    (b \<longleftrightarrow> length (items c) < capacity c) \<and>
    items c' = (if b then items c @ [d] else items c)"
proof (cases "1 \<le> sema_cnt c")
  case True
  with run have "b" "c' = tw_place d (c\<lparr>sema_cnt := sema_cnt c - 1\<rparr>)"
    by (auto simp: tw_addIfRoom_def acquireAndKeepLockNoBlock_def)
  with tw_place_inv_items [OF inv True, of d] room_iff [OF inv] True show ?thesis by simp
next
  case False
  with run have "\<not> b" "c' = c"
    by (auto simp: tw_addIfRoom_def acquireAndKeepLockNoBlock_def)
  with inv room_iff [OF inv] False show ?thesis by simp
qed

lemma tw_addMvIfRoom_eq:
  "tw_addMvIfRoom mv d c =
     (let (b, c') = tw_addIfRoom d c in (b, if b then mv d else d, c'))"
  by (simp add: tw_addMvIfRoom_def tw_addIfRoom_def acquireAndKeepLockNoBlock_def)

lemma tw_add_eq:
  "tw_add d c = (case tw_addIfRoom d c of (True, c') \<Rightarrow> Inr c' | (False, _) \<Rightarrow> Inl WouldBlock)"
  by (simp add: tw_add_def tw_addIfRoom_def acquireAndKeepLockNoBlock_def acquireAndKeepLock_def)

lemma tw_addMv_eq:
  "tw_addMv mv d c = bindR (tw_add d c) (\<lambda>c'. Inr (mv d, c'))"
  by (simp add: tw_addMv_def tw_add_def bindR_assoc)

section \<open>Removing\<close>

lemma slot_shift:
  assumes "0 \<le> nextOut c" "nextOut c < csize c"
  shows "slot (c\<lparr>nextOut := tw_nextNextOut c\<rparr>) k = slot c (k + 1)"
proof (cases "revd c")
  case True
  then have "tw_nextNextOut c = (nextOut c - 1) mod csize c"
    using wrap_down [OF assms] by (simp add: tw_nextNextOut_def Let_def)
  with True show ?thesis
    by (simp add: slot_def mod_diff_left_eq algebra_simps)
next
  case False
  then have "tw_nextNextOut c = (nextOut c + 1) mod csize c"
    using wrap_up [OF assms] by (simp add: tw_nextNextOut_def Let_def)
  with False show ?thesis
    by (simp add: slot_def mod_add_left_eq add.assoc add.commute [of 1])
qed

lemma nextNextOut_bounds:
  assumes "0 \<le> nextOut c" "nextOut c < csize c"
  shows "0 \<le> tw_nextNextOut c \<and> tw_nextNextOut c < csize c"
  using assms by (auto simp: tw_nextNextOut_def Let_def)

text \<open>
  Taking the head out of a queue whose cells may meanwhile have been changed at the
  head's own position (the moved-from value).
\<close>

lemma advance_out_spec:
  assumes inv: "circular_inv c" and r: "0 < tw_remain c"
    and same: "\<And>k. 0 < k \<Longrightarrow> k < tw_remain c \<Longrightarrow> cs ! nat (slot c k) = cells c ! nat (slot c k)"
    and len: "length cs = length (cells c)"
  defines "c' \<equiv> tw_advance_out (tw_remain c) ((releaseWithoutLock c)\<lparr>cells := cs\<rparr>)"
  shows "circular_inv c' \<and> items c' = tl (items c) \<and> capacity c' = capacity c"
proof (cases "tw_remain c = 1")
  case True
  then have "c' = c\<lparr>sema_cnt := csize c, cells := cs, nextOut := 0, nextIn := -1, revd := False\<rparr>"
    by (auto simp: c'_def tw_advance_out_def releaseWithoutLock_def tw_remain_def countNoBlock_def Let_def)
  with inv True len show ?thesis
    by (auto simp: circular_inv_def items_def tw_remain_def countNoBlock_def capacity_def)
next
  case False
  define r where "r = tw_remain c"
  have r2: "2 \<le> r" using r False by (simp add: r_def)
  have o: "0 \<le> nextOut c" "nextOut c < csize c" using inv by (auto simp: circular_inv_def)
  have c': "c' = c\<lparr>sema_cnt := sema_cnt c + 1, cells := cs, nextOut := tw_nextNextOut c\<rparr>"
    using False by (simp add: c'_def tw_advance_out_def releaseWithoutLock_def tw_nextNextOut_def Let_def)
  have sl: "slot c' k = slot c (k + 1)" for k
    using slot_shift [OF o, of k] by (simp add: c' slot_def)
  have rem': "tw_remain c' = r - 1"
    by (simp add: c' tw_remain_def countNoBlock_def r_def)
  have "circular_inv c'"
    using inv r2 rem' nextNextOut_bounds [OF o] len sl
    by (auto simp: circular_inv_def c' r_def tw_remain_def countNoBlock_def)
  moreover have "items c' = tl (items c)"
  proof -
    have cells': "cells c' = cs" by (simp add: c')
    have "items c' = map (\<lambda>k. cs ! nat (slot c (int k + 1))) [0..<nat r - 1]"
      using r2 by (simp add: items_def rem' sl cells' nat_diff_distrib')
    also have "\<dots> = map (\<lambda>k. cells c ! nat (slot c (int (Suc k)))) [0..<nat r - 1]"
      using r2 by (auto simp: add.commute intro!: same simp flip: r_def)
    also have "\<dots> = tl (items c)"
      using r2 upt_hd [of "nat r"] by (simp add: items_def r_def [symmetric] o_def)
    finally show ?thesis .
  qed
  ultimately show ?thesis by (simp add: capacity_def c')
qed

lemma items_hd:
  assumes "circular_inv c" "0 < tw_remain c"
  shows "items c = (cells c ! nat (nextOut c)) # tl (items c)"
proof -
  have "items c \<noteq> []" using assms by (simp add: items_Nil_iff)
  moreover have "hd (items c) = cells c ! nat (nextOut c)"
    using assms upt_hd [of "nat (tw_remain c)"] slot_0 [of c]
    by (auto simp: items_def circular_inv_def)
  ultimately show ?thesis by (metis list.collapse)
qed

lemma tw_removeMv_spec:
  assumes inv: "circular_inv c" and run: "tw_removeMv mv c = (x, c')"
  shows "circular_inv c' \<and> capacity c' = capacity c \<and>
    (case items c of [] \<Rightarrow> x = None \<and> c' = c | d # ds \<Rightarrow> x = Some d \<and> items c' = ds)"
proof (cases "0 < tw_remain c")
  case True
  define o' where "o' = nat (nextOut c)"
  have n: "0 < csize c" and sl0: "slot c 0 = nextOut c" and le: "tw_remain c \<le> csize c"
    using inv slot_0 [of c] remain_bounds [OF inv] by (auto simp: circular_inv_def)
  have neq: "nat (slot c k) \<noteq> o'" if "0 < k" "k < tw_remain c" for k
    using slot_inj [OF n, of 0 k] that le slot_bounds [OF n, of k] sl0
      slot_bounds [OF n, of 0]
    by (auto simp: o'_def nat_eq_iff)
  have "x = Some (cells c ! o')"
    and c': "c' = tw_advance_out (tw_remain c)
      ((releaseWithoutLock c)\<lparr>cells := (cells c)[o' := mv (cells c ! o')]\<rparr>)"
    using run True by (auto simp: tw_removeMv_def o'_def Let_def)
  moreover have "circular_inv c' \<and> items c' = tl (items c) \<and> capacity c' = capacity c"
    unfolding c' by (rule advance_out_spec [OF inv True]) (simp_all add: neq [symmetric])
  ultimately show ?thesis
    using items_hd [OF inv True] by (auto simp: o'_def split: list.splits)
next
  case False
  with run inv show ?thesis
    by (auto simp: tw_removeMv_def items_Nil_iff [THEN iffD2])
qed

lemma tw_remove_eq: "tw_remove c = tw_removeMv id c"
  by (simp add: tw_remove_def tw_removeMv_def Let_def releaseWithoutLock_def)

text \<open>Whatever the state, a successful removal leaves one value less: drain loops end.\<close>

lemma tw_removeMv_decreases:
  "tw_removeMv mv c = (Some x, c') \<Longrightarrow> tw_remain c' < tw_remain c \<and> 0 < tw_remain c"
  by (auto simp: tw_removeMv_def Let_def tw_advance_out_def releaseWithoutLock_def tw_remain_def
      countNoBlock_def tw_nextNextOut_def split: if_splits)

lemma tw_remove_decreases:
  "tw_remove c = (Some x, c') \<Longrightarrow> tw_remain c' < tw_remain c \<and> 0 < tw_remain c"
  by (simp add: tw_remove_eq tw_removeMv_decreases)

lemma tw_remove_spec:
  assumes "circular_inv c" "tw_remove c = (x, c')"
  shows "circular_inv c' \<and> capacity c' = capacity c \<and>
    (case items c of [] \<Rightarrow> x = None \<and> c' = c | d # ds \<Rightarrow> x = Some d \<and> items c' = ds)"
  using tw_removeMv_spec [of c id x c'] assms by (simp add: tw_remove_eq)

lemma tw_remove_Nil: "circular_inv c \<Longrightarrow> items c = [] \<Longrightarrow> tw_remove c = (None, c)"
  using tw_remove_spec [of c "fst (tw_remove c)" "snd (tw_remove c)"] by (simp add: prod_eq_iff)

lemma tw_remove_Cons:
  "circular_inv c \<Longrightarrow> items c = d # ds \<Longrightarrow>
    \<exists>c'. tw_remove c = (Some d, c') \<and> circular_inv c' \<and> capacity c' = capacity c \<and> items c' = ds"
  using tw_remove_spec [of c "fst (tw_remove c)" "snd (tw_remove c)"] by (cases "tw_remove c") simp

lemma tw_addIfRoom_room:
  "circular_inv c \<Longrightarrow> length (items c) < capacity c \<Longrightarrow>
    \<exists>c'. tw_addIfRoom d c = (True, c') \<and> circular_inv c' \<and> capacity c' = capacity c \<and> items c' = items c @ [d]"
  using tw_addIfRoom_spec [of c d "fst (tw_addIfRoom d c)" "snd (tw_addIfRoom d c)"]
  by (cases "tw_addIfRoom d c") (simp del: length_items)

section \<open>Creation, clearing, reversal, transfer\<close>

lemma new_circular_spec:
  "0 < n \<Longrightarrow> circular_inv (new_circular n t) \<and> items (new_circular n t) = [] \<and>
     capacity (new_circular n t) = n"
  by (simp add: new_circular_def circular_inv_def items_def tw_remain_def countNoBlock_def capacity_def)

lemma tw_clear_spec:
  "circular_inv c \<Longrightarrow> circular_inv (tw_clear obj c) \<and> items (tw_clear obj c) = [] \<and>
     capacity (tw_clear obj c) = capacity c"
  by (auto simp: tw_clear_def resetNoLock_def circular_inv_def items_def tw_remain_def
      countNoBlock_def capacity_def split: option.splits)

lemma tw_reverse_spec:
  assumes inv: "circular_inv c"
  shows "circular_inv (tw_reverse c) \<and> items (tw_reverse c) = rev (items c) \<and>
    capacity (tw_reverse c) = capacity c"
proof (cases "tw_remain c < 1")
  case True
  then have "items c = []" by (simp add: items_Nil_iff)
  with True inv show ?thesis by (simp add: tw_reverse_def)
next
  case False
  define r where "r = tw_remain c"
  define c' where "c' = tw_reverse c"
  have n: "0 < csize c" and r: "1 \<le> r" and i: "nextIn c = slot c (r - 1)"
    and o: "0 \<le> nextOut c" "nextOut c < csize c"
    using inv False by (auto simp: circular_inv_def r_def)
  have c': "c' = c\<lparr>revd := \<not> revd c, nextOut := slot c (r - 1), nextIn := nextOut c\<rparr>"
    using False i by (simp add: c'_def tw_reverse_def)
  have rem': "tw_remain c' = r" by (simp add: c' tw_remain_def countNoBlock_def r_def)
  have sl: "slot c' k = slot c (r - 1 - k)" for k
    by (simp add: c' slot_def mod_simps algebra_simps)
  have "circular_inv c'"
    using inv r sl [of "r - 1"] slot_0 [OF o] slot_bounds [OF n, of "r - 1"] rem'
    by (auto simp: circular_inv_def c')
  moreover have "items c' = rev (items c)"
  proof (rule nth_equalityI)
    fix k assume "k < length (items c')"
    then have k: "int k < r" using rem' by simp
    then have "rev (items c) ! k = items c ! (nat r - 1 - k)"
      by (simp add: rev_nth r_def)
    also have "\<dots> = cells c ! nat (slot c (int (nat r - 1 - k)))"
      using k by (simp add: items_def r_def)
    also have "int (nat r - 1 - k) = r - 1 - int k" using k by simp
    also have "cells c ! nat (slot c (r - 1 - int k)) = items c' ! k"
    proof -
      have "cells c' = cells c" by (simp add: c')
      moreover from k have "k < nat r" by simp
      ultimately show ?thesis using k rem' sl [of "int k"] by (simp add: items_def)
    qed
    finally show "items c' ! k = rev (items c) ! k" by simp
  qed (simp add: rem' r_def)
  ultimately show ?thesis by (simp add: c'_def [symmetric] capacity_def c')
qed

lemma tw_transferFrom_this:
  assumes "circular_inv other" and "tw_transferFrom mv other c = (c', other')"
  shows "circular_inv c' \<and> items c' = items other \<and> capacity c' = capacity other"
  using assms
  by (auto simp: tw_transferFrom_def tw_cloneFrom_def circular_inv_def items_def slot_def
      tw_remain_def countNoBlock_def capacity_def)

text \<open>
  The source of a transfer is a fresh empty queue, unless it was reversed: \<open>_reverse\<close> is
  the one field the operation does not reset.
\<close>

lemma tw_transferFrom_other:
  assumes "circular_inv other" and "\<not> revd other" and "tw_transferFrom mv other c = (c', other')"
  shows "circular_inv other' \<and> items other' = [] \<and> capacity other' = capacity other"
  using assms
  by (auto simp: tw_transferFrom_def resetNoLock_def circular_inv_def items_def slot_def
      tw_remain_def countNoBlock_def capacity_def)

section \<open>The interface: a bounded first-in first-out queue\<close>

locale bounded_fifo =
  fixes qinv :: "'q \<Rightarrow> bool"
    and qitems :: "'q \<Rightarrow> 'a list"
    and qcap :: "'q \<Rightarrow> nat"
    and qput :: "'a \<Rightarrow> 'q \<Rightarrow> bool \<times> 'q"
    and qtake :: "'q \<Rightarrow> 'a option \<times> 'q"
  assumes bound: "qinv q \<Longrightarrow> length (qitems q) \<le> qcap q"
    and put: "qinv q \<Longrightarrow> qput x q = (b, q') \<Longrightarrow>
      qinv q' \<and> qcap q' = qcap q \<and> (b \<longleftrightarrow> length (qitems q) < qcap q) \<and>
      qitems q' = (if b then qitems q @ [x] else qitems q)"
    and take: "qinv q \<Longrightarrow> qtake q = (r, q') \<Longrightarrow>
      qinv q' \<and> qcap q' = qcap q \<and>
      (case qitems q of [] \<Rightarrow> r = None \<and> q' = q | d # ds \<Rightarrow> r = Some d \<and> qitems q' = ds)"
begin

lemma put_inv: "qinv q \<Longrightarrow> qinv (snd (qput x q))"
  and put_cap: "qinv q \<Longrightarrow> qcap (snd (qput x q)) = qcap q"
  and put_fits: "qinv q \<Longrightarrow> fst (qput x q) \<longleftrightarrow> length (qitems q) < qcap q"
  using put [of q x "fst (qput x q)" "snd (qput x q)"] by simp_all

lemma put_items:
  "qinv q \<Longrightarrow> qitems (snd (qput x q)) =
     (if length (qitems q) < qcap q then qitems q @ [x] else qitems q)"
  using put [of q x "fst (qput x q)" "snd (qput x q)"] by auto

lemma take_inv: "qinv q \<Longrightarrow> qinv (snd (qtake q))"
  and take_cap: "qinv q \<Longrightarrow> qcap (snd (qtake q)) = qcap q"
  using take [of q "fst (qtake q)" "snd (qtake q)"] by simp_all

lemma take_items: "qinv q \<Longrightarrow> qitems (snd (qtake q)) = tl (qitems q)"
  using take [of q "fst (qtake q)" "snd (qtake q)"] by (auto split: list.splits)

lemma take_result:
  "qinv q \<Longrightarrow> fst (qtake q) = (case qitems q of [] \<Rightarrow> None | d # _ \<Rightarrow> Some d)"
  using take [of q "fst (qtake q)" "snd (qtake q)"] by (auto split: list.splits)

lemma take_None: "qinv q \<Longrightarrow> fst (qtake q) = None \<longleftrightarrow> qitems q = []"
  by (simp add: take_result split: list.splits)

lemma put_then_take_singleton:
  "qinv q \<Longrightarrow> qitems q = [] \<Longrightarrow> 0 < qcap q \<Longrightarrow>
     fst (qtake (snd (qput x q))) = Some x \<and> qitems (snd (qtake (snd (qput x q)))) = []"
  by (simp add: put_inv put_items take_items take_result)

lemma put_never_overtakes:
  "qinv q \<Longrightarrow> qitems q = d # ds \<Longrightarrow> fst (qtake (snd (qput x q))) = Some d"
  by (simp add: put_inv put_items take_result)

end

interpretation tw: bounded_fifo circular_inv items capacity tw_addIfRoom tw_remove
  by unfold_locales (auto simp del: length_items simp: length_items_le dest: tw_addIfRoom_spec tw_remove_spec)

interpretation twMv: bounded_fifo circular_inv items capacity tw_addIfRoom "tw_removeMv mv"
  by unfold_locales (auto simp del: length_items simp: length_items_le dest: tw_addIfRoom_spec tw_removeMv_spec)

lemma tw_add_spec:
  assumes inv: "circular_inv c"
  shows "tw_add d c =
    (if length (items c) < capacity c then Inr (snd (tw_addIfRoom d c)) else Inl WouldBlock)"
  using tw.put_fits [OF inv, of d] by (auto simp: tw_add_eq split: prod.splits bool.splits)

lemma tw_add_room:
  assumes "circular_inv c" "length (items c) < capacity c"
  shows "\<exists>c'. tw_add d c = Inr c' \<and> circular_inv c' \<and> capacity c' = capacity c \<and>
    items c' = items c @ [d]"
  using assms tw_add_spec [OF assms(1), of d] tw.put_inv [OF assms(1), of d]
    tw.put_cap [OF assms(1), of d] tw.put_items [OF assms(1), of d]
  by simp

end
