(* ===== verification/Meta.thy ===== *)
theory Meta
  imports Prelude
begin

text \<open>
  The client header grease_client.h: message constants, \<open>logMeta\<close> and
  \<open>extra_logMeta\<close> with their in-memory layout on x86-64 Linux (80 and 128 bytes),
  and the macros over them. A \<open>void *\<close> is its 64-bit address, 0 being NULL.
\<close>

section \<open>Constants\<close>

definition GREASE_MAX_MESSAGE_SIZE :: nat where "GREASE_MAX_MESSAGE_SIZE = 65535"
definition GREASE_MAX_PREFIX_HEADER :: nat where "GREASE_MAX_PREFIX_HEADER = 128"
definition SINK_LOG_PREAMBLE :: u32 where "SINK_LOG_PREAMBLE = 0xF00DFEED"
definition SINK_LOG_PING :: u32 where "SINK_LOG_PING = 0xF00DF00D"
definition SINK_LOG_PING_ACK :: u32 where "SINK_LOG_PING_ACK = 0xF00DF11D"
definition SIZEOF_SINK_LOG_PREAMBLE :: nat where "SIZEOF_SINK_LOG_PREAMBLE = 4"
definition GREASE_CLIENT_HEADER_SIZE :: nat where
  "GREASE_CLIENT_HEADER_SIZE = SIZEOF_SINK_LOG_PREAMBLE + 4"
definition GREASE_CLIENT_PING_SIZE :: nat where "GREASE_CLIENT_PING_SIZE = 4"
definition SINK_MAX_ERRORS :: int where "SINK_MAX_ERRORS = 10"
definition MAX_IGNORE_LIST :: nat where "MAX_IGNORE_LIST = 10"
definition GREASE_META_HASHLIST_CACHE_SIZE :: nat where "GREASE_META_HASHLIST_CACHE_SIZE = 4"
definition GREASE_TAG_NATIVE :: u32 where "GREASE_TAG_NATIVE = 0xFFF03"
definition GREASE_DEFAULT_TARGET_ID :: u32 where "GREASE_DEFAULT_TARGET_ID = 0"

lemmas size_consts =
  SIZEOF_SINK_LOG_PREAMBLE_def GREASE_CLIENT_HEADER_SIZE_def GREASE_CLIENT_PING_SIZE_def
  GREASE_MAX_MESSAGE_SIZE_def GREASE_MAX_PREFIX_HEADER_def MAX_IGNORE_LIST_def
  GREASE_META_HASHLIST_CACHE_SIZE_def

text \<open>The result codes and the level bits.\<close>

datatype grease_result =
    GREASE_OK | GREASE_FAILED | GREASE_NO_BUFFER | GREASE_INVALID_PARAMS
  | GREASE_OVERFLOW | GREASE_SINK_FAILURE

definition result_code :: "grease_result \<Rightarrow> int" where
  "result_code r = (case r of GREASE_OK \<Rightarrow> 0 | GREASE_FAILED \<Rightarrow> 1 | GREASE_NO_BUFFER \<Rightarrow> 2
     | GREASE_INVALID_PARAMS \<Rightarrow> 3 | GREASE_OVERFLOW \<Rightarrow> 4 | GREASE_SINK_FAILURE \<Rightarrow> 5)"

definition GREASE_LEVEL_LOG :: u32 where "GREASE_LEVEL_LOG = 0x01"
definition GREASE_LEVEL_ERROR :: u32 where "GREASE_LEVEL_ERROR = 0x02"
definition GREASE_LEVEL_WARN :: u32 where "GREASE_LEVEL_WARN = 0x04"
definition GREASE_LEVEL_DEBUG :: u32 where "GREASE_LEVEL_DEBUG = 0x08"
definition GREASE_LEVEL_DEBUG2 :: u32 where "GREASE_LEVEL_DEBUG2 = 0x10"
definition GREASE_LEVEL_DEBUG3 :: u32 where "GREASE_LEVEL_DEBUG3 = 0x20"
definition GREASE_LEVEL_USER1 :: u32 where "GREASE_LEVEL_USER1 = 0x40"
definition GREASE_LEVEL_USER2 :: u32 where "GREASE_LEVEL_USER2 = 0x80"
definition GREASE_LEVEL_SUCCESS :: u32 where "GREASE_LEVEL_SUCCESS = 0x100"
definition GREASE_LEVEL_INFO :: u32 where "GREASE_LEVEL_INFO = 0x0100"
definition GREASE_LEVEL_TRACE :: u32 where "GREASE_LEVEL_TRACE = 0x200"

lemmas level_defs =
  GREASE_LEVEL_LOG_def GREASE_LEVEL_ERROR_def GREASE_LEVEL_WARN_def GREASE_LEVEL_DEBUG_def
  GREASE_LEVEL_DEBUG2_def GREASE_LEVEL_DEBUG3_def GREASE_LEVEL_USER1_def GREASE_LEVEL_USER2_def
  GREASE_LEVEL_SUCCESS_def GREASE_LEVEL_INFO_def GREASE_LEVEL_TRACE_def

section \<open>Meta data of a log entry\<close>

text \<open>\<open>meta_pad\<close> is the four bytes of padding the compiler puts before \<open>_cached_hash\<close>.\<close>

record logMeta =
  tag :: u32
  level :: u32
  origin :: u32
  target :: u32
  extras :: u32
  meta_pad :: u32
  cached_hash :: "u64 list"
  cached_lists :: "u64 list"

definition wf_meta :: "logMeta \<Rightarrow> bool" where
  "wf_meta m \<longleftrightarrow> length (cached_hash m) = 3 \<and> length (cached_lists m) = 4"

record extra_logMeta =
  emeta :: logMeta
  ignore_list :: "u32 list"   \<comment> \<open>MAX_IGNORE_LIST + 1 entries, 0-terminated\<close>

definition META_HAS_IGNORES :: "logMeta \<Rightarrow> bool" where
  "META_HAS_IGNORES m \<longleftrightarrow> extras m \<noteq> 0"

definition META_HAS_CACHE :: "logMeta \<Rightarrow> bool" where
  "META_HAS_CACHE m \<longleftrightarrow> cached_hash m ! 0 \<noteq> 0xFFFFFFFFFFFFFFFF"

definition META_GET_LIST :: "logMeta \<Rightarrow> nat \<Rightarrow> u64" where
  "META_GET_LIST m n = cached_lists m ! n"

definition META_SET_LIST :: "logMeta \<Rightarrow> nat \<Rightarrow> u64 \<Rightarrow> logMeta" where
  "META_SET_LIST m n p = m\<lparr>cached_lists := (cached_lists m)[n := p]\<rparr>"

definition default_meta :: "u32 \<Rightarrow> u32 \<Rightarrow> logMeta" where
  "default_meta t lev =
     \<lparr>tag = t, level = lev, origin = 0, target = 0, extras = 0, meta_pad = 0,
      cached_hash = [0xFFFFFFFFFFFFFFFF, 0, 0], cached_lists = [0, 0, 0, 0]\<rparr>"

text \<open>The static metas of grease_client.c (built without an own \<open>GLOG_DEFAULT_TAG\<close>).\<close>

definition noMetaData :: logMeta where "noMetaData = default_meta GREASE_TAG_NATIVE 0"
definition meta_logdefault :: logMeta where
  "meta_logdefault = default_meta GREASE_TAG_NATIVE GREASE_LEVEL_LOG"
definition meta_info :: logMeta where "meta_info = default_meta GREASE_TAG_NATIVE GREASE_LEVEL_INFO"
definition meta_error :: logMeta where "meta_error = default_meta GREASE_TAG_NATIVE GREASE_LEVEL_ERROR"
definition meta_warn :: logMeta where "meta_warn = default_meta GREASE_TAG_NATIVE GREASE_LEVEL_WARN"
definition meta_debug :: logMeta where "meta_debug = default_meta GREASE_TAG_NATIVE GREASE_LEVEL_DEBUG"
definition meta_debug2 :: logMeta where "meta_debug2 = default_meta GREASE_TAG_NATIVE GREASE_LEVEL_DEBUG2"
definition meta_debug3 :: logMeta where "meta_debug3 = default_meta GREASE_TAG_NATIVE GREASE_LEVEL_DEBUG3"
definition meta_user1 :: logMeta where "meta_user1 = default_meta GREASE_TAG_NATIVE GREASE_LEVEL_USER1"
definition meta_user2 :: logMeta where "meta_user2 = default_meta GREASE_TAG_NATIVE GREASE_LEVEL_USER2"
definition meta_success :: logMeta where
  "meta_success = default_meta GREASE_TAG_NATIVE GREASE_LEVEL_SUCCESS"
definition meta_trace :: logMeta where "meta_trace = default_meta GREASE_TAG_NATIVE GREASE_LEVEL_TRACE"

definition ZERO_LOGMETA :: "logMeta \<Rightarrow> logMeta" where
  "ZERO_LOGMETA m = noMetaData"

lemma wf_default_meta [simp]: "wf_meta (default_meta t l)"
  by (simp add: wf_meta_def default_meta_def)

lemma no_cache_default_meta [simp]: "\<not> META_HAS_CACHE (default_meta t l)"
  by (simp add: META_HAS_CACHE_def default_meta_def)

section \<open>Memory layout\<close>

definition SIZEOF_LOGMETA :: nat where "SIZEOF_LOGMETA = 80"
definition SIZEOF_EXTRA_LOGMETA :: nat where "SIZEOF_EXTRA_LOGMETA = 128"

definition meta_encode :: "logMeta \<Rightarrow> bytes" where
  "meta_encode m =
     le_encode 4 (tag m) @ le_encode 4 (level m) @ le_encode 4 (origin m) @
     le_encode 4 (target m) @ le_encode 4 (extras m) @ le_encode 4 (meta_pad m) @
     concat (map (le_encode 8) (cached_hash m)) @ concat (map (le_encode 8) (cached_lists m))"

definition field32 :: "bytes \<Rightarrow> nat \<Rightarrow> u32" where
  "field32 bs off = le_decode (take 4 (drop off bs))"

definition field64 :: "bytes \<Rightarrow> nat \<Rightarrow> u64" where
  "field64 bs off = le_decode (take 8 (drop off bs))"

definition meta_decode :: "bytes \<Rightarrow> logMeta" where
  "meta_decode bs =
     \<lparr>tag = field32 bs 0, level = field32 bs 4, origin = field32 bs 8,
      target = field32 bs 12, extras = field32 bs 16, meta_pad = field32 bs 20,
      cached_hash = [field64 bs 24, field64 bs 32, field64 bs 40],
      cached_lists = [field64 bs 48, field64 bs 56, field64 bs 64, field64 bs 72]\<rparr>"

text \<open>The eleven words of \<open>ignore_list\<close> follow the meta in an \<open>extra_logMeta\<close>.\<close>

definition ignores_decode :: "bytes \<Rightarrow> u32 list" where
  "ignores_decode bs = map (\<lambda>i. field32 bs (SIZEOF_LOGMETA + 4 * i)) [0..<MAX_IGNORE_LIST + 1]"

lemma wf_meta_lists:
  assumes "wf_meta m"
  obtains h0 h1 h2 l0 l1 l2 l3 where "cached_hash m = [h0, h1, h2]"
    "cached_lists m = [l0, l1, l2, l3]"
  using assms by (auto simp: wf_meta_def numeral_3_eq_3 numeral_eq_Suc length_Suc_conv)

lemma meta_encode_length [simp, bounds_simps]: "wf_meta m \<Longrightarrow> length (meta_encode m) = SIZEOF_LOGMETA"
  by (erule wf_meta_lists) (simp add: meta_encode_def SIZEOF_LOGMETA_def)

lemma field32_at:
  "off = length xs \<Longrightarrow> field32 (xs @ le_encode 4 w @ ys) off = w"
  by (simp add: field32_def le_decode_encode)

lemma field64_at:
  "off = length xs \<Longrightarrow> field64 (xs @ le_encode 8 w @ ys) off = w"
  by (simp add: field64_def le_decode_encode)

lemma wf_meta_decode [simp]: "wf_meta (meta_decode bs)"
  by (simp add: wf_meta_def meta_decode_def)

lemma meta_decode_encode:
  assumes "wf_meta m"
  shows "meta_decode (meta_encode m @ rest) = m"
  using assms
  by (elim wf_meta_lists)
    (cases m, simp add: meta_encode_def meta_decode_def field32_def field64_def le_decode_encode)

end
