(* ===== verification/Buffers.thy ===== *)
theory Buffers
  imports Meta
begin

text \<open>
  The buffer classes of logger.h: \<open>heapBuf\<close> (a malloc'ed block with a length and a
  fill count), \<open>logLabel\<close>, \<open>delim_data\<close>, the reference-counted \<open>singleLog\<close>,
  \<open>overflowWriteOut\<close> and the bank buffer \<open>logBuf\<close>. Every \<open>memcpy\<close> is checked
  against the block it reads and the block it writes.
\<close>

section \<open>heapBuf\<close>

text \<open>
  \<open>junk\<close> stands for the contents of freshly allocated memory. \<open>rcb\<close> says whether a
  \<open>return_cb\<close> is set (only the unfinished PipeSink sets one).
\<close>

record heapBuf =
  hbase :: "bytes option"   \<comment> \<open>handle.base, None = NULL\<close>
  hlen :: nat               \<comment> \<open>handle.len\<close>
  used :: nat
  rcb :: bool

definition malloc_block :: "(nat \<Rightarrow> u8) \<Rightarrow> nat \<Rightarrow> bytes" where
  "malloc_block junk n = map junk [0..<n]"

lemma length_malloc_block [simp]: "length (malloc_block junk n) = n"
  by (simp add: malloc_block_def)

definition heapBuf_empty :: heapBuf where
  "heapBuf_empty = \<lparr>hbase = None, hlen = 0, used = 0, rcb = False\<rparr>"

definition heapBuf_new :: "(nat \<Rightarrow> u8) \<Rightarrow> nat \<Rightarrow> heapBuf" where
  "heapBuf_new junk n =
     \<lparr>hbase = (if n > 0 then Some (malloc_block junk n) else None), hlen = n, used = 0, rcb = False\<rparr>"

text \<open>\<open>heapBuf(const char *d, int n)\<close>: a copy; \<open>used\<close> stays 0.\<close>

definition heapBuf_copy :: "bytes \<Rightarrow> nat \<Rightarrow> heapBuf res" where
  "heapBuf_copy d n =
     bindR (peek 0 n d) (\<lambda>xs. Inr \<lparr>hbase = Some xs, hlen = n, used = 0, rcb = False\<rparr>)"

definition heapBuf_malloc :: "(nat \<Rightarrow> u8) \<Rightarrow> nat \<Rightarrow> heapBuf \<Rightarrow> heapBuf" where
  "heapBuf_malloc junk n b = b\<lparr>hbase := Some (malloc_block junk n), hlen := n, used := 0\<rparr>"

text \<open>
  \<open>memcpy(s, l, append_str)\<close>. With \<open>append_str\<close> and too little room the tail of the
  block gets the suffix; the subtraction is in \<open>int\<close>, so a block shorter than the
  suffix makes the first write start before it.
\<close>

definition heapBuf_memcpy :: "bytes \<Rightarrow> nat \<Rightarrow> bytes option \<Rightarrow> heapBuf \<Rightarrow> (nat \<times> heapBuf) res" where
  "heapBuf_memcpy s l append_str b =
     (case hbase b of
        None \<Rightarrow> Inr (0, b)
      | Some mem \<Rightarrow>
         (case append_str of
            Some a \<Rightarrow>
              (if l > hlen b
               then (if hlen b < length a then Inl OutOfBounds
                     else let app_len = length a; l = hlen b - app_len in
                       bindR (poke l a mem) (\<lambda>mem.
                       bindR (peek 0 l s) (\<lambda>d.
                       bindR (poke 0 d mem) (\<lambda>mem.
                         Inr (l, b\<lparr>hbase := Some mem, used := l + app_len\<rparr>)))))
               else bindR (peek 0 l s) (\<lambda>d.
                    bindR (poke 0 d mem) (\<lambda>mem.
                      Inr (l, b\<lparr>hbase := Some mem, used := l\<rparr>))))
          | None \<Rightarrow>
              (let l = (if l > hlen b then hlen b else l) in
                 bindR (peek 0 l s) (\<lambda>d.
                 bindR (poke 0 d mem) (\<lambda>mem.
                   Inr (l, b\<lparr>hbase := Some mem, used := l\<rparr>))))))"

text \<open>
  \<open>sprintf\<close>: \<open>text\<close> is the full rendering; \<open>vsnprintf\<close> leaves at most 511 characters
  and a NUL in the 512-byte stack buffer but returns the full length, which is then both
  allocated and copied.
\<close>

definition heapBuf_sprintf :: "(nat \<Rightarrow> u8) \<Rightarrow> bytes \<Rightarrow> heapBuf \<Rightarrow> heapBuf res" where
  "heapBuf_sprintf junk text b =
     (let len = length text;
          shown = take 511 text @ [0];
          buffer = shown @ map junk [length shown..<512]
      in bindR (peek 0 len buffer) (\<lambda>d.
           Inr (b\<lparr>hbase := Some d, hlen := len, used := len\<rparr>)))"

definition heapBuf_duplicate :: "heapBuf \<Rightarrow> heapBuf" where
  "heapBuf_duplicate b =
     (case hbase b of
        None \<Rightarrow> heapBuf_empty\<lparr>rcb := rcb b\<rparr>
      | Some mem \<Rightarrow> \<lparr>hbase = Some (take (hlen b) mem), hlen = hlen b, used = used b, rcb = rcb b\<rparr>)"

definition heapBuf_isEmpty :: "heapBuf \<Rightarrow> bool" where
  "heapBuf_isEmpty b \<longleftrightarrow> hbase b = None"

text \<open>\<open>this.assign(o)\<close>: a null source leaves the old length behind.\<close>

definition heapBuf_assign :: "heapBuf \<Rightarrow> heapBuf \<Rightarrow> heapBuf" where
  "heapBuf_assign src b =
     (case hbase src of
        Some mem \<Rightarrow> (if hlen src > 0
                     then b\<lparr>hbase := Some (take (hlen src) mem), hlen := hlen src\<rparr>
                     else b\<lparr>hbase := None\<rparr>)
      | None \<Rightarrow> b\<lparr>hbase := None\<rparr>)"

text \<open>Move assignment: the new \<open>this\<close> and the emptied source.\<close>

definition heapBuf_move :: "heapBuf \<Rightarrow> heapBuf \<times> heapBuf" where
  "heapBuf_move src =
     (src, \<lparr>hbase = None, hlen = 0, used = 0, rcb = False\<rparr>)"

definition heapBuf_wf :: "heapBuf \<Rightarrow> bool" where
  "heapBuf_wf b \<longleftrightarrow> (case hbase b of None \<Rightarrow> True | Some mem \<Rightarrow> length mem = hlen b)"

text \<open>What a buffer's readers see: its first \<open>used\<close> bytes.\<close>

definition heapBuf_text :: "heapBuf \<Rightarrow> bytes" where
  "heapBuf_text b = (case hbase b of None \<Rightarrow> [] | Some mem \<Rightarrow> take (used b) mem)"

lemma heapBuf_wf_new [simp]: "heapBuf_wf (heapBuf_new junk n)"
  by (simp add: heapBuf_new_def heapBuf_wf_def)

lemma heapBuf_new_simps [simp]:
  "hlen (heapBuf_new junk n) = n" "used (heapBuf_new junk n) = 0"
  by (simp_all add: heapBuf_new_def)

lemma heapBuf_memcpy_plain:
  assumes "heapBuf_wf b" "hbase b = Some mem" "min l (hlen b) \<le> length s"
  shows "\<exists>b'. heapBuf_memcpy s l None b = Inr (min l (hlen b), b') \<and> heapBuf_wf b' \<and>
    hlen b' = hlen b \<and> used b' = min l (hlen b) \<and> heapBuf_text b' = take (min l (hlen b)) s"
  using assms
  by (auto simp: heapBuf_memcpy_def heapBuf_wf_def heapBuf_text_def peek_def poke_def Let_def min_def)

lemma heapBuf_memcpy_fits:
  assumes "heapBuf_wf b" "hbase b = Some mem" "l \<le> hlen b" "l \<le> length s"
  shows "\<exists>b'. heapBuf_memcpy s l (Some a) b = Inr (l, b') \<and> heapBuf_wf b' \<and>
    hlen b' = hlen b \<and> heapBuf_text b' = take l s"
  using assms
  by (auto simp: heapBuf_memcpy_def heapBuf_wf_def heapBuf_text_def peek_def poke_def Let_def)

lemma heapBuf_memcpy_truncates:
  assumes "heapBuf_wf b" "hbase b = Some mem" "hlen b < l" "l \<le> length s" "length a \<le> hlen b"
  shows "\<exists>b'. heapBuf_memcpy s l (Some a) b = Inr (hlen b - length a, b') \<and> heapBuf_wf b' \<and>
    hlen b' = hlen b \<and> heapBuf_text b' = take (hlen b - length a) s @ a"
  using assms
  by (auto simp: heapBuf_memcpy_def heapBuf_wf_def heapBuf_text_def peek_def poke_def Let_def)

section \<open>logLabel and delim_data\<close>

type_synonym logLabel = heapBuf

definition logLabel_empty :: logLabel where "logLabel_empty = heapBuf_empty"

definition logLabel_new :: "(nat \<Rightarrow> u8) \<Rightarrow> bytes \<Rightarrow> logLabel res" where
  "logLabel_new junk text = heapBuf_sprintf junk text logLabel_empty"

definition logLabel_isEmpty :: "logLabel \<Rightarrow> bool" where
  "logLabel_isEmpty l = heapBuf_isEmpty l"

definition logLabel_length :: "logLabel \<Rightarrow> nat" where
  "logLabel_length l = hlen l"

text \<open>\<open>setUTF8\<close> and \<open>fromUTF8\<close>: a zeroed block one longer than the string.\<close>

definition logLabel_setUTF8 :: "bytes \<Rightarrow> nat \<Rightarrow> logLabel \<Rightarrow> logLabel res" where
  "logLabel_setUTF8 s len l =
     (let b = l\<lparr>hbase := Some (replicate (len + 1) 0), hlen := len + 1, used := 0\<rparr>
      in bindR (heapBuf_memcpy s len None b) (\<lambda>(_, b). Inr b))"

definition logLabel_fromUTF8 :: "bytes \<Rightarrow> nat \<Rightarrow> logLabel res" where
  "logLabel_fromUTF8 s len = logLabel_setUTF8 s len logLabel_empty"

text \<open>The C string a label holds: its bytes up to the first NUL.\<close>

definition cstr :: "bytes \<Rightarrow> bytes" where
  "cstr bs = takeWhile (\<lambda>c. c \<noteq> 0) bs"

definition label_cstr :: "logLabel \<Rightarrow> bytes" where
  "label_cstr l = (case hbase l of None \<Rightarrow> [] | Some mem \<Rightarrow> cstr mem)"

lemma logLabel_fromUTF8_cstr:
  assumes "0 \<notin> set s"
  shows "\<exists>l. logLabel_fromUTF8 s (length s) = Inr l \<and> label_cstr l = s \<and>
    logLabel_length l = length s + 1 \<and> \<not> logLabel_isEmpty l"
proof -
  have "takeWhile (\<lambda>c. c \<noteq> 0) (s @ [0]) = s"
    using assms by (metis (mono_tags, lifting) takeWhile_append2 append_Nil2 takeWhile.simps)
  moreover have "drop (length s) (0 # replicate (length s) (0::u8)) = [0]"
    by (simp add: drop_Cons' drop_replicate split: nat.splits) (cases "length s"; simp)
  ultimately show ?thesis
    by (simp add: logLabel_fromUTF8_def logLabel_setUTF8_def heapBuf_memcpy_def peek_def poke_def
        label_cstr_def cstr_def logLabel_length_def logLabel_isEmpty_def heapBuf_isEmpty_def Let_def)
qed

record delim_data =
  delim :: heapBuf
  delim_output :: heapBuf

definition delim_empty :: delim_data where
  "delim_empty = \<lparr>delim = heapBuf_empty, delim_output = heapBuf_empty\<rparr>"

definition setDelim :: "(nat \<Rightarrow> u8) \<Rightarrow> bytes \<Rightarrow> nat \<Rightarrow> delim_data \<Rightarrow> delim_data res" where
  "setDelim junk s l d =
     bindR (heapBuf_memcpy s l None (heapBuf_malloc junk l (delim d)))
       (\<lambda>(_, b). Inr (d\<lparr>delim := b\<rparr>))"

definition setOutputDelim :: "(nat \<Rightarrow> u8) \<Rightarrow> bytes \<Rightarrow> nat \<Rightarrow> delim_data \<Rightarrow> delim_data res" where
  "setOutputDelim junk s l d =
     bindR (heapBuf_memcpy s l None (heapBuf_malloc junk l (delim_output d)))
       (\<lambda>(_, b). Inr (d\<lparr>delim_output := b\<rparr>))"

definition delim_duplicate :: "delim_data \<Rightarrow> delim_data" where
  "delim_duplicate d =
     \<lparr>delim = heapBuf_duplicate (delim d), delim_output = heapBuf_duplicate (delim_output d)\<rparr>"

text \<open>The bytes the delimiter contributes to a line.\<close>

definition delim_bytes :: "delim_data \<Rightarrow> bytes" where
  "delim_bytes d = (case hbase (delim d) of None \<Rightarrow> [] | Some mem \<Rightarrow> take (hlen (delim d)) mem)"

section \<open>singleLog\<close>

record singleLog =
  ref_cnt :: int
  smeta :: extra_logMeta
  buf :: heapBuf

definition NOT_REFED :: int where "NOT_REFED = -2"
definition INIT_REF :: int where "INIT_REF = 1"

definition no_ignores :: "u32 list" where "no_ignores = replicate (MAX_IGNORE_LIST + 1) 0"

text \<open>The two constructors; \<open>meta()\<close> value-initialises the extras.\<close>

definition singleLog_new :: "(nat \<Rightarrow> u8) \<Rightarrow> nat \<Rightarrow> singleLog" where
  "singleLog_new junk len =
     \<lparr>ref_cnt = NOT_REFED, smeta = \<lparr>emeta = noMetaData, ignore_list = no_ignores\<rparr>,
      buf = heapBuf_new junk len\<rparr>"

definition singleLog_copy :: "bytes \<Rightarrow> nat \<Rightarrow> logMeta \<Rightarrow> singleLog res" where
  "singleLog_copy d l m =
     bindR (heapBuf_copy d l) (\<lambda>b.
       Inr \<lparr>ref_cnt = NOT_REFED, smeta = \<lparr>emeta = m, ignore_list = no_ignores\<rparr>, buf = b\<rparr>)"

definition heapSingleLog :: "(nat \<Rightarrow> u8) \<Rightarrow> nat \<Rightarrow> singleLog" where
  "heapSingleLog junk len = (singleLog_new junk len)\<lparr>ref_cnt := INIT_REF\<rparr>"

definition singleLog_clear :: "singleLog \<Rightarrow> singleLog" where
  "singleLog_clear l =
     l\<lparr>buf := (buf l)\<lparr>used := 0\<rparr>, ref_cnt := 1, smeta := (smeta l)\<lparr>emeta := noMetaData\<rparr>\<rparr>"

definition incRef :: "singleLog \<Rightarrow> singleLog" where
  "incRef l = (if ref_cnt l \<noteq> NOT_REFED then l\<lparr>ref_cnt := ref_cnt l + 1\<rparr> else l)"

text \<open>\<open>decRef\<close> gives \<open>None\<close> when it deletes the object.\<close>

definition decRef :: "singleLog \<Rightarrow> singleLog option" where
  "decRef l =
     (if ref_cnt l \<noteq> NOT_REFED
      then let l = l\<lparr>ref_cnt := ref_cnt l - 1\<rparr> in (if ref_cnt l < 1 then None else Some l)
      else Some l)"

definition getRef :: "singleLog \<Rightarrow> int" where
  "getRef l = ref_cnt l"

lemma incRef_decRef: "0 < ref_cnt l \<Longrightarrow> decRef (incRef l) = Some l"
  by (simp add: incRef_def decRef_def NOT_REFED_def Let_def)

text \<open>A log that is not reference counted survives every \<open>decRef\<close>: nothing frees it.\<close>

lemma decRef_not_refed: "ref_cnt l = NOT_REFED \<Longrightarrow> decRef l = Some l \<and> incRef l = l"
  by (simp add: incRef_def decRef_def)

section \<open>overflowWriteOut\<close>

text \<open>
  \<open>singleLog *\<close> values are addresses into a heap of logs, since buffers are shared
  between queues, commands and write-outs and are freed by reference count.
\<close>

type_synonym log_heap = "nat \<rightharpoonup> singleLog"

definition MAX_OVERFLOW_BUFFERS :: nat where "MAX_OVERFLOW_BUFFERS = 4"

record overflowWriteOut =
  ovN :: nat
  ovbufs :: "nat option list"

definition overflow_new :: overflowWriteOut where
  "overflow_new = \<lparr>ovN = 0, ovbufs = replicate MAX_OVERFLOW_BUFFERS None\<rparr>"

definition addBuffer :: "nat \<Rightarrow> overflowWriteOut \<Rightarrow> overflowWriteOut res" where
  "addBuffer l w =
     (if ovN w < MAX_OVERFLOW_BUFFERS
      then Inr (w\<lparr>ovbufs := (ovbufs w)[ovN w := Some l], ovN := ovN w + 1\<rparr>)
      else Inl AssertFailed)"

definition deref :: "('a \<rightharpoonup> 'b) \<Rightarrow> 'a \<Rightarrow> 'b res" where
  "deref mem a = (case mem a of Some x \<Rightarrow> Inr x | None \<Rightarrow> Inl BadPointer)"

definition log_read :: "singleLog \<Rightarrow> bytes res" where
  "log_read l =
     (case hbase (buf l) of
        None \<Rightarrow> (if hlen (buf l) = 0 then Inr [] else Inl BadPointer)
      | Some mem \<Rightarrow> peek 0 (hlen (buf l)) mem)"

fun sum_sizes :: "log_heap \<Rightarrow> nat option list \<Rightarrow> nat res" where
  "sum_sizes mem [] = Inr 0"
| "sum_sizes mem (None # ls) = sum_sizes mem ls"
| "sum_sizes mem (Some a # ls) =
     bindR (deref mem a) (\<lambda>l. bindR (sum_sizes mem ls) (\<lambda>n. Inr (hlen (buf l) + n)))"

definition totalSize :: "log_heap \<Rightarrow> overflowWriteOut \<Rightarrow> nat res" where
  "totalSize mem w = sum_sizes mem (ovbufs w)"

text \<open>\<open>copyAllTo(d)\<close> advances \<open>walk\<close> but copies every buffer to \<open>d\<close>.\<close>

fun copy_loop :: "log_heap \<Rightarrow> nat option list \<Rightarrow> bytes \<Rightarrow> nat \<Rightarrow> bytes res" where
  "copy_loop mem [] d walk = Inr d"
| "copy_loop mem (None # ls) d walk = copy_loop mem ls d walk"
| "copy_loop mem (Some a # ls) d walk =
     bindR (deref mem a) (\<lambda>l. bindR (log_read l) (\<lambda>bs.
     bindR (poke 0 bs d) (\<lambda>d. copy_loop mem ls d (walk + hlen (buf l)))))"

definition copyAllTo :: "log_heap \<Rightarrow> overflowWriteOut \<Rightarrow> bytes \<Rightarrow> bytes res" where
  "copyAllTo mem w d = copy_loop mem (ovbufs w) d 0"

text \<open>The bytes of the first \<open>N\<close> buffers in order: what a gathering write puts out.\<close>

fun gather :: "log_heap \<Rightarrow> nat option list \<Rightarrow> bytes res" where
  "gather mem [] = Inr []"
| "gather mem (None # ls) = gather mem ls"
| "gather mem (Some a # ls) =
     bindR (deref mem a) (\<lambda>l. bindR (log_read l) (\<lambda>bs.
     bindR (gather mem ls) (\<lambda>cs. Inr (bs @ cs))))"

text \<open>The destructor: \<open>decRef\<close> on every buffer.\<close>

fun decRef_all :: "nat option list \<Rightarrow> log_heap \<Rightarrow> log_heap res" where
  "decRef_all [] mem = Inr mem"
| "decRef_all (None # ls) mem = decRef_all ls mem"
| "decRef_all (Some a # ls) mem =
     bindR (deref mem a) (\<lambda>l. decRef_all ls (mem(a := decRef l)))"

definition overflow_delete :: "overflowWriteOut \<Rightarrow> log_heap \<Rightarrow> log_heap res" where
  "overflow_delete w mem = decRef_all (ovbufs w) mem"

lemma deref_simps [simp]: "mem a = Some x \<Longrightarrow> deref mem a = Inr x"
  by (simp add: deref_def)

lemma log_read_length: "log_read l = Inr bs \<Longrightarrow> hlen (buf l) = length bs"
  by (auto simp: log_read_def bounds_simps split: option.splits if_splits)

lemma gather_length: "gather mem ls = Inr bs \<Longrightarrow> sum_sizes mem ls = Inr (length bs)"
proof (induction ls arbitrary: bs)
  case (Cons x ls)
  then show ?case by (cases x) (auto simp: bindR_eq_Inr dest!: log_read_length)
qed simp

lemma copyAllTo_single:
  assumes "mem a = Some l" "log_read l = Inr bs" "length d = length bs"
  shows "copyAllTo mem \<lparr>ovN = 1, ovbufs = [Some a, None, None, None]\<rparr> d = Inr bs"
  using assms by (simp add: copyAllTo_def poke_def)

text \<open>With two buffers the second lands on the first and the end of \<open>d\<close> is never written.\<close>

lemma copyAllTo_two:
  assumes "mem a = Some l" "log_read l = Inr bs" "mem c = Some l'" "log_read l' = Inr cs"
    and "length d = length bs + length cs"
  shows "copyAllTo mem \<lparr>ovN = 2, ovbufs = [Some a, Some c, None, None]\<rparr> d =
    Inr (cs @ drop (length cs) (bs @ drop (length bs) d))"
  using assms by (simp add: copyAllTo_def poke_def)

section \<open>logBuf\<close>

record logBuf =
  lbase :: bytes        \<comment> \<open>the block of \<open>space\<close> bytes behind handle.base\<close>
  llen :: nat           \<comment> \<open>handle.len\<close>
  lid :: nat
  lspace :: nat
  ldelim :: delim_data

definition logBuf_new :: "(nat \<Rightarrow> u8) \<Rightarrow> nat \<Rightarrow> nat \<Rightarrow> delim_data \<Rightarrow> logBuf" where
  "logBuf_new junk s i d =
     \<lparr>lbase = malloc_block junk s, llen = 0, lid = i, lspace = s, ldelim = d\<rparr>"

definition copyIn :: "bytes \<Rightarrow> nat \<Rightarrow> bool \<Rightarrow> logBuf \<Rightarrow> logBuf res" where
  "copyIn s n use_delim b =
     (if n > 0
      then if \<not> (n \<le> lspace b \<and> llen b \<le> lspace b) then Inl AssertFailed
           else bindR (peek 0 n s) (\<lambda>d.
                bindR (poke (llen b) d (lbase b)) (\<lambda>mem.
                  let b = b\<lparr>lbase := mem, llen := llen b + n\<rparr>
                  in if \<not> heapBuf_isEmpty (delim (ldelim b)) \<and> use_delim
                     then bindR (poke (llen b) (delim_bytes (ldelim b)) (lbase b)) (\<lambda>mem.
                            Inr (b\<lparr>lbase := mem, llen := llen b + hlen (delim (ldelim b))\<rparr>))
                     else Inr b))
      else Inr b)"

definition logBuf_clear :: "logBuf \<Rightarrow> logBuf" where
  "logBuf_clear b = b\<lparr>llen := 0\<rparr>"

definition logBuf_isEmpty :: "logBuf \<Rightarrow> bool" where
  "logBuf_isEmpty b \<longleftrightarrow> llen b = 0"

definition logBuf_remain :: "logBuf \<Rightarrow> int" where
  "logBuf_remain b =
     (let ret = int (lspace b) - int (llen b);
          ret = (if \<not> heapBuf_isEmpty (delim (ldelim b)) then ret - int (hlen (delim (ldelim b))) else ret)
      in if ret < 0 then 0 else ret)"

definition logBuf_wf :: "logBuf \<Rightarrow> bool" where
  "logBuf_wf b \<longleftrightarrow> length (lbase b) = lspace b \<and> llen b \<le> lspace b \<and>
     heapBuf_wf (delim (ldelim b))"

definition logBuf_text :: "logBuf \<Rightarrow> bytes" where
  "logBuf_text b = take (llen b) (lbase b)"

definition delim_len :: "logBuf \<Rightarrow> nat" where
  "delim_len b = length (delim_bytes (ldelim b))"

lemma logBuf_new_simps [simp]:
  "llen (logBuf_new junk s i d) = 0" "lspace (logBuf_new junk s i d) = s"
  "ldelim (logBuf_new junk s i d) = d" "lid (logBuf_new junk s i d) = i"
  "logBuf_wf (logBuf_new junk s i d) \<longleftrightarrow> heapBuf_wf (delim d)"
  by (simp_all add: logBuf_new_def logBuf_wf_def)

lemma logBuf_clear_simps [simp]:
  "llen (logBuf_clear b) = 0" "lspace (logBuf_clear b) = lspace b"
  "ldelim (logBuf_clear b) = ldelim b" "lid (logBuf_clear b) = lid b"
  "logBuf_text (logBuf_clear b) = []" "delim_len (logBuf_clear b) = delim_len b"
  "logBuf_wf b \<Longrightarrow> logBuf_wf (logBuf_clear b)" "logBuf_isEmpty (logBuf_clear b)"
  by (simp_all add: logBuf_clear_def logBuf_text_def logBuf_wf_def logBuf_isEmpty_def delim_len_def)

lemma length_logBuf_text: "logBuf_wf b \<Longrightarrow> length (logBuf_text b) = llen b"
  by (simp add: logBuf_wf_def logBuf_text_def)

lemma delim_len_eq:
  "heapBuf_wf (delim (ldelim b)) \<Longrightarrow>
     delim_len b = (if heapBuf_isEmpty (delim (ldelim b)) then 0 else hlen (delim (ldelim b)))"
  by (auto simp: delim_len_def delim_bytes_def heapBuf_isEmpty_def heapBuf_wf_def split: option.splits)

lemma logBuf_remain_eq:
  "logBuf_wf b \<Longrightarrow> logBuf_remain b = max 0 (int (lspace b) - int (llen b) - int (delim_len b))"
  by (auto simp: logBuf_remain_def logBuf_wf_def delim_len_eq Let_def)

text \<open>
  One \<open>copyIn\<close> that fits appends exactly the message and, when asked to, the delimiter,
  and it stays inside the block; nothing is written for an empty message.
\<close>

lemma copyIn_ok:
  assumes wf: "logBuf_wf b" and n: "n \<le> length s"
    and fits: "llen b + n + (if use_delim then delim_len b else 0) \<le> lspace b"
  shows "\<exists>b'. copyIn s n use_delim b = Inr b' \<and> logBuf_wf b' \<and> lspace b' = lspace b \<and>
    ldelim b' = ldelim b \<and> lid b' = lid b \<and>
    logBuf_text b' = logBuf_text b @
      (if n = 0 then [] else take n s @ (if use_delim then delim_bytes (ldelim b) else []))"
proof (cases "n = 0")
  case True
  with wf show ?thesis by (simp add: copyIn_def)
next
  case False
  have len: "length (lbase b) = lspace b" "llen b \<le> lspace b" and hw: "heapBuf_wf (delim (ldelim b))"
    using wf by (auto simp: logBuf_wf_def)
  define mem where "mem = take (llen b) (lbase b) @ take n s @ drop (llen b + n) (lbase b)"
  have p1: "poke (llen b) (take n s) (lbase b) = Inr mem"
    using fits n len by (simp add: poke_def mem_def)
  show ?thesis
  proof (cases "\<not> heapBuf_isEmpty (delim (ldelim b)) \<and> use_delim")
    case True
    have dl: "hlen (delim (ldelim b)) = length (delim_bytes (ldelim b))"
      using True delim_len_eq [OF hw] by (simp add: delim_len_def)
    have p2: "poke (llen b + n) (delim_bytes (ldelim b)) mem =
        Inr (take (llen b) (lbase b) @ take n s @ delim_bytes (ldelim b) @
             drop (llen b + n + delim_len b) (lbase b))"
      using fits n len True by (simp add: poke_def mem_def delim_len_def, simp add: ac_simps)
    have cp: "copyIn s n use_delim b =
        Inr (b\<lparr>lbase := take (llen b) (lbase b) @ take n s @ delim_bytes (ldelim b) @
               drop (llen b + n + delim_len b) (lbase b), llen := llen b + n + delim_len b\<rparr>)"
      using False n len fits True p1 p2 by (auto simp: copyIn_def peek_def Let_def dl delim_len_def)
    have dlen: "length (delim_bytes (ldelim b)) = delim_len b" by (simp add: delim_len_def)
    show ?thesis
      unfolding cp using False n len fits True hw dlen
      by (simp add: logBuf_wf_def logBuf_text_def)
  next
    case no: False
    then have "use_delim \<Longrightarrow> delim_bytes (ldelim b) = []"
      using delim_len_eq [OF hw] by (auto simp: delim_len_def)
    moreover have "copyIn s n use_delim b = Inr (b\<lparr>lbase := mem, llen := llen b + n\<rparr>)"
      using False n len fits no p1 by (auto simp: copyIn_def peek_def Let_def)
    ultimately show ?thesis
      using False n len fits no hw
      by (auto simp: logBuf_wf_def logBuf_text_def mem_def)
  qed
qed

end
