(* ===== verification/Filters.thy ===== *)
theory Filters
  imports Buffers
begin

text \<open>
  Filters (logger.h \<open>Filter\<close>, \<open>FilterList\<close>, \<open>filterhash\<close>, \<open>getHashes\<close>,
  \<open>_addFilter\<close>, \<open>_lookupFilter\<close>; logger.cc \<open>sift\<close>, \<open>AddFilter\<close>, \<open>ModifyFilter\<close>,
  \<open>SetGlobalOpts\<close>). A filter list belongs to one (tag, origin) pair; a log entry looks
  up the list of its own pair, then of its origin, its tag and of neither, and caches
  the first that exists. \<open>FilterList *\<close> values are 64-bit addresses into the store
  \<open>flists\<close>, because log entries carry them in \<open>_cached_lists\<close>.
\<close>

section \<open>Filter and FilterList\<close>

definition MAX_IDENTICAL_FILTERS :: nat where "MAX_IDENTICAL_FILTERS = 16"
definition ALL_LEVELS :: u32 where "ALL_LEVELS = 0xFFFFFFFF"
definition DEFAULT_TARGET :: u32 where "DEFAULT_TARGET = GREASE_DEFAULT_TARGET_ID"

record Filter =
  fdisabled :: bool
  fid :: u32
  levelMask :: u32
  targetId :: u32
  preFormat :: logLabel
  postFormatPreMsg :: logLabel
  postFormat :: logLabel

definition Filter_empty :: Filter where
  "Filter_empty =
     \<lparr>fdisabled = False, fid = 0, levelMask = 0, targetId = 0, preFormat = logLabel_empty,
      postFormatPreMsg = logLabel_empty, postFormat = logLabel_empty\<rparr>"

definition Filter_new :: "u32 \<Rightarrow> u32 \<Rightarrow> u32 \<Rightarrow> Filter" where
  "Filter_new i lm t = Filter_empty\<lparr>fid := i, levelMask := lm, targetId := t\<rparr>"

text \<open>\<open>operator=\<close> copies everything but \<open>_disabled\<close>.\<close>

definition Filter_assign :: "Filter \<Rightarrow> Filter \<Rightarrow> Filter" where
  "Filter_assign src f =
     f\<lparr>fid := fid src, levelMask := levelMask src, targetId := targetId src,
       preFormat := heapBuf_assign (preFormat src) (preFormat f),
       postFormatPreMsg := heapBuf_assign (postFormatPreMsg src) (postFormatPreMsg f),
       postFormat := heapBuf_assign (postFormat src) (postFormat f)\<rparr>"

record FilterList =
  flist :: "Filter list"
  bloom :: u32
  filterOut :: bool

definition FilterList_new :: FilterList where
  "FilterList_new =
     \<lparr>flist = replicate MAX_IDENTICAL_FILTERS Filter_empty, bloom = 0, filterOut = False\<rparr>"

definition FilterList_valid :: "FilterList \<Rightarrow> u32 \<Rightarrow> bool" where
  "FilterList_valid l m \<longleftrightarrow> bloom l AND m \<noteq> 0"

text \<open>The loop of \<open>add\<close>: the first slot whose id is 0 takes the filter.\<close>

fun add_slot :: "Filter \<Rightarrow> Filter list \<Rightarrow> Filter list option" where
  "add_slot f [] = None"
| "add_slot f (x # xs) =
     (if fid x = 0 then Some (Filter_assign f x # xs) else map_option ((#) x) (add_slot f xs))"

definition FilterList_add :: "Filter \<Rightarrow> FilterList \<Rightarrow> bool \<times> FilterList" where
  "FilterList_add f l =
     (case add_slot f (flist l) of
        Some xs \<Rightarrow> (True, l\<lparr>flist := xs, bloom := bloom l OR levelMask f\<rparr>)
      | None \<Rightarrow> (False, l))"

fun find_slot :: "u32 \<Rightarrow> Filter list \<Rightarrow> nat option" where
  "find_slot i [] = None"
| "find_slot i (x # xs) = (if fid x = i then Some 0 else map_option Suc (find_slot i xs))"

definition FilterList_find :: "u32 \<Rightarrow> FilterList \<Rightarrow> nat option" where
  "FilterList_find i l = find_slot i (flist l)"

text \<open>
  The entries a \<open>while(list[n].id != 0)\<close> scan visits. Nothing bounds \<open>n\<close>: a list with
  all sixteen slots taken is read past its end.
\<close>

fun scan_slots :: "Filter list \<Rightarrow> Filter list res" where
  "scan_slots [] = Inl OutOfBounds"
| "scan_slots (x # xs) =
     (if fid x = 0 then Inr [] else bindR (scan_slots xs) (\<lambda>r. Inr (x # r)))"

definition active :: "Filter list \<Rightarrow> Filter list" where
  "active xs = takeWhile (\<lambda>f. fid f \<noteq> 0) xs"

text \<open>Slots fill from the front; the bloom is the union of the masks.\<close>

definition or_masks :: "Filter list \<Rightarrow> u32" where
  "or_masks xs = foldr (\<lambda>f b. levelMask f OR b) xs 0"

lemma or_masks_append: "or_masks (xs @ ys) = or_masks xs OR or_masks ys"
  by (induction xs) (simp_all add: or_masks_def or.assoc)

lemma or_masks_valid: "or_masks xs AND m \<noteq> 0 \<longleftrightarrow> (\<exists>f \<in> set xs. levelMask f AND m \<noteq> 0)"
proof (induction xs)
  case Nil
  then show ?case by (simp add: or_masks_def)
next
  case (Cons x xs)
  have "or_masks (x # xs) AND m = (levelMask x AND m) OR (or_masks xs AND m)"
    by (simp add: or_masks_def bit.conj_disj_distrib2)
  then show ?case using Cons.IH by (auto simp: or_eq_0_iff)
qed

lemma scan_slots_ok: "\<exists>f \<in> set xs. fid f = 0 \<Longrightarrow> scan_slots xs = Inr (active xs)"
proof (induction xs)
  case Nil
  then show ?case by simp
next
  case (Cons x xs)
  then show ?case by (cases "fid x = 0") (auto simp: active_def)
qed

lemma scan_slots_fault: "\<forall>f \<in> set xs. fid f \<noteq> 0 \<Longrightarrow> scan_slots xs = Inl OutOfBounds"
  by (induction xs) auto

text \<open>A packed slot array is its active entries followed by empty ones.\<close>

definition packed :: "Filter list \<Rightarrow> bool" where
  "packed xs \<longleftrightarrow> (\<forall>f \<in> set (dropWhile (\<lambda>f. fid f \<noteq> 0) xs). fid f = 0)"

lemma active_nonzero: "f \<in> set (active xs) \<Longrightarrow> fid f \<noteq> 0"
  by (auto simp: active_def dest: set_takeWhileD)

lemma active_append:
  "\<forall>f \<in> set as. fid f \<noteq> 0 \<Longrightarrow> \<forall>f \<in> set zs. fid f = 0 \<Longrightarrow> active (as @ zs) = as"
  unfolding active_def by (cases zs) (simp_all add: takeWhile_append2)

lemma packed_append:
  "\<forall>f \<in> set as. fid f \<noteq> 0 \<Longrightarrow> \<forall>f \<in> set zs. fid f = 0 \<Longrightarrow> packed (as @ zs)"
  unfolding packed_def by (induction as) (auto dest: set_dropWhileD)

lemma packed_split:
  assumes "packed xs"
  obtains zs where "xs = active xs @ zs" "\<forall>f \<in> set zs. fid f = 0"
  using assms by (metis active_def packed_def takeWhile_dropWhile_id)

lemma add_slot_append:
  "\<forall>f \<in> set as. fid f \<noteq> 0 \<Longrightarrow> fid z = 0 \<Longrightarrow>
     add_slot f (as @ z # zs) = Some (as @ Filter_assign f z # zs)"
  by (induction as) auto

lemma add_slot_full: "\<forall>f \<in> set as. fid f \<noteq> 0 \<Longrightarrow> add_slot f as = None"
  by (induction as) auto

lemma find_slot_append:
  "\<forall>f \<in> set as. fid f \<noteq> i \<Longrightarrow> fid z = i \<Longrightarrow> find_slot i (as @ z # zs) = Some (length as)"
  by (induction as) auto

lemma find_slot_None: "find_slot i xs = None \<longleftrightarrow> (\<forall>f \<in> set xs. fid f \<noteq> i)"
  by (induction xs) auto

lemma find_slot_Some:
  "find_slot i xs = Some n \<Longrightarrow> n < length xs \<and> fid (xs ! n) = i"
  by (induction xs arbitrary: n) (auto split: if_splits)

lemma Filter_assign_simps [simp]:
  "fid (Filter_assign f z) = fid f" "levelMask (Filter_assign f z) = levelMask f"
  "targetId (Filter_assign f z) = targetId f" "fdisabled (Filter_assign f z) = fdisabled z"
  by (simp_all add: Filter_assign_def)

definition FilterList_inv :: "FilterList \<Rightarrow> bool" where
  "FilterList_inv l \<longleftrightarrow>
     length (flist l) = MAX_IDENTICAL_FILTERS \<and> packed (flist l) \<and>
     bloom l = or_masks (active (flist l)) \<and>
     (\<forall>f \<in> set (flist l). fid f = 0 \<longrightarrow> \<not> fdisabled f)"

definition FilterList_filters :: "FilterList \<Rightarrow> Filter list" where
  "FilterList_filters l = active (flist l)"

lemma FilterList_inv_new [simp]: "FilterList_inv FilterList_new"
  "FilterList_filters FilterList_new = []"
  using active_append [of "[]" "replicate MAX_IDENTICAL_FILTERS Filter_empty"]
    packed_append [of "[]" "replicate MAX_IDENTICAL_FILTERS Filter_empty"]
  by (simp_all add: FilterList_inv_def FilterList_filters_def FilterList_new_def or_masks_def
      Filter_empty_def)

text \<open>The bloom test is exact: it fails only where no filter of the list has the level.\<close>

lemma FilterList_valid_iff:
  "FilterList_inv l \<Longrightarrow>
     FilterList_valid l m \<longleftrightarrow> (\<exists>f \<in> set (FilterList_filters l). levelMask f AND m \<noteq> 0)"
  by (simp add: FilterList_inv_def FilterList_valid_def FilterList_filters_def or_masks_valid)

lemma FilterList_add_spec:
  assumes inv: "FilterList_inv l" and id: "fid f \<noteq> 0" and run: "FilterList_add f l = (b, l')"
  shows "FilterList_inv l' \<and> (b \<longleftrightarrow> length (FilterList_filters l) < MAX_IDENTICAL_FILTERS) \<and>
    (if b then \<exists>z. fid z = 0 \<and> \<not> fdisabled z \<and>
                 FilterList_filters l' = FilterList_filters l @ [Filter_assign f z]
     else l' = l)"
proof -
  define as where "as = active (flist l)"
  obtain zs where fl: "flist l = as @ zs" and zs: "\<forall>f \<in> set zs. fid f = 0"
    using inv packed_split [of "flist l"] by (auto simp: FilterList_inv_def as_def)
  have as: "\<forall>f \<in> set as. fid f \<noteq> 0" by (simp add: as_def active_nonzero)
  have len: "length as + length zs = MAX_IDENTICAL_FILTERS" and bl: "bloom l = or_masks as"
    using inv by (simp_all add: FilterList_inv_def fl active_append [OF as zs])
  show ?thesis
  proof (cases zs)
    case Nil
    with run have "\<not> b" "l' = l"
      by (auto simp: FilterList_add_def fl add_slot_full [OF as])
    with inv len Nil show ?thesis
      using active_append [OF as, of "[]"] by (simp add: FilterList_filters_def fl)
  next
    case (Cons z zs')
    define ys where "ys = as @ [Filter_assign f z]"
    have zs': "\<forall>f \<in> set zs'. fid f = 0" and z: "fid z = 0" using zs Cons by auto
    have ys: "\<forall>f \<in> set ys. fid f \<noteq> 0" using as id by (auto simp: ys_def)
    from run have b: "b" and l': "l' = l\<lparr>flist := ys @ zs', bloom := bloom l OR levelMask f\<rparr>"
      by (auto simp: FilterList_add_def fl Cons add_slot_append [OF as z] ys_def)
    have dis: "\<forall>f \<in> set (z # zs'). \<not> fdisabled f"
      using inv zs Cons by (auto simp: FilterList_inv_def fl)
    have "\<forall>f \<in> set (ys @ zs'). fid f = 0 \<longrightarrow> \<not> fdisabled f" using ys dis by auto
    then have "FilterList_inv l'"
      using len Cons packed_append [OF ys zs'] active_append [OF ys zs']
      by (simp add: FilterList_inv_def l' bl) (simp add: ys_def or_masks_append, simp add: or_masks_def)
    moreover have "FilterList_filters l = as" "FilterList_filters l' = ys"
      using active_append [OF as zs] active_append [OF ys zs']
      by (simp_all add: FilterList_filters_def fl l')
    ultimately show ?thesis using b len Cons z dis by (auto simp: ys_def)
  qed
qed

section \<open>Hashes\<close>

definition filterhash :: "u32 \<Rightarrow> u32 \<Rightarrow> u64" where
  "filterhash tg og = (0xFFFFFFFF00000000 AND push_bit 32 (ucast og)) OR ucast tg"

definition getHashes :: "u32 \<Rightarrow> u32 \<Rightarrow> u64 list" where
  "getHashes tg og =
     (let h = filterhash tg og in [h, h AND 0xFFFFFFFF00000000, h AND 0x00000000FFFFFFFF])"

lemma bit_high_mask: "bit (0xFFFFFFFF00000000 :: u64) n \<longleftrightarrow> 32 \<le> n \<and> n < 64"
proof -
  have "(0xFFFFFFFF00000000 :: u64) = push_bit 32 (mask 32)" by (simp add: mask_eq_exp_minus_1)
  then show ?thesis by (simp only: bit_push_bit_iff bit_mask_iff) auto
qed

lemma bit_low_mask: "bit (0x00000000FFFFFFFF :: u64) n \<longleftrightarrow> n < 32"
proof -
  have "(0x00000000FFFFFFFF :: u64) = mask 32" by (simp add: mask_eq_exp_minus_1)
  then show ?thesis by (simp only: bit_mask_iff) auto
qed

lemma bit_filterhash:
  "bit (filterhash tg og) n \<longleftrightarrow> (if n < 32 then bit tg n else n < 64 \<and> bit og (n - 32))"
  by (auto simp: filterhash_def bit_or_iff bit_and_iff bit_high_mask bit_push_bit_iff
      bit_ucast_iff simp del: bit_numeral_word_iff dest: bit_imp_le_length)

lemma filterhash_inj:
  "filterhash t1 o1 = filterhash t2 o2 \<longleftrightarrow> t1 = t2 \<and> o1 = o2"
proof
  assume eq: "filterhash t1 o1 = filterhash t2 o2"
  have "bit t1 n = bit t2 n" if "n < 32" for n
    using arg_cong [OF eq, of "\<lambda>w. bit w n"] that by (simp add: bit_filterhash)
  moreover have "bit o1 n = bit o2 n" if "n < 32" for n
    using arg_cong [OF eq, of "\<lambda>w. bit w (n + 32)"] that by (simp add: bit_filterhash)
  ultimately show "t1 = t2 \<and> o1 = o2" by (auto intro: bit_word_eqI)
qed simp

lemma filterhash_0 [simp]: "filterhash 0 0 = 0"
  by (simp add: filterhash_def)

lemma filterhash_0_iff: "filterhash t og = 0 \<longleftrightarrow> t = 0 \<and> og = 0"
  using filterhash_inj [of t og 0 0] by simp

text \<open>The second hash is the one of the origin alone, the third the one of the tag alone.\<close>

lemma getHashes_eq: "getHashes tg og = [filterhash tg og, filterhash 0 og, filterhash tg 0]"
  by (auto simp: getHashes_def Let_def bit_and_iff bit_high_mask bit_low_mask bit_filterhash
      simp del: bit_numeral_word_iff intro!: bit_word_eqI split: if_splits)

section \<open>The filter tables and sift\<close>

record filters =
  levelFilterOutMask :: u32
  defaultFilterOut :: bool
  show_errors :: bool
  callback_errors :: bool
  filterHashTable :: "u64 \<rightharpoonup> u64"   \<comment> \<open>hash to FilterList *\<close>
  flists :: "u64 \<rightharpoonup> FilterList"      \<comment> \<open>the objects those addresses hold\<close>
  nextFilterId :: u32

text \<open>The lookup of one hash: only made while nothing has been found.\<close>

definition sift_try :: "(u64 \<rightharpoonup> u64) \<Rightarrow> u64 \<Rightarrow> nat \<Rightarrow> bool \<times> logMeta \<Rightarrow> bool \<times> logMeta" where
  "sift_try tab h i = (\<lambda>(ret, f).
     if ret then (ret, f)
     else (case tab h of Some l \<Rightarrow> (True, META_SET_LIST f i l) | None \<Rightarrow> (ret, f)))"

definition sift :: "'z filters_scheme \<Rightarrow> logMeta \<Rightarrow> bool \<times> logMeta" where
  "sift st f =
     (if levelFilterOutMask st AND level f \<noteq> 0 then (False, f)
      else if \<not> META_HAS_CACHE f
      then let f = f\<lparr>cached_hash := getHashes (tag f) (origin f)\<rparr>;
               tab = filterHashTable st;
               p = sift_try tab (cached_hash f ! 0) 0 (False, f);
               p = sift_try tab (cached_hash f ! 1) 1 p;
               p = sift_try tab (cached_hash f ! 2) 2 p;
               (ret, f) = sift_try tab 0 3 p
           in (if \<not> ret \<and> defaultFilterOut st then (False, f) else (True, f))
      else (True, f))"

text \<open>\<open>siftP\<close>, the copy the callers in the logging threads use on their own meta.\<close>

definition siftP :: "'z filters_scheme \<Rightarrow> logMeta \<Rightarrow> bool \<times> logMeta" where
  "siftP st f =
     (if levelFilterOutMask st AND level f \<noteq> 0 then (False, f)
      else if META_HAS_CACHE f then (True, f)
      else let f = f\<lparr>cached_hash := getHashes (tag f) (origin f)\<rparr>;
               hs = cached_hash f
           in case filterHashTable st (hs ! 0) of
                Some l \<Rightarrow> (True, META_SET_LIST f 0 l)
              | None \<Rightarrow>
             (case filterHashTable st (hs ! 1) of
                Some l \<Rightarrow> (True, META_SET_LIST f 1 l)
              | None \<Rightarrow>
             (case filterHashTable st (hs ! 2) of
                Some l \<Rightarrow> (True, META_SET_LIST f 2 l)
              | None \<Rightarrow>
             (case filterHashTable st 0 of
                Some l \<Rightarrow> (True, META_SET_LIST f 3 l)
              | None \<Rightarrow> (\<not> defaultFilterOut st, f)))))"

lemma siftP_sift: "siftP st f = sift st f"
  by (simp add: siftP_def sift_def sift_try_def Let_def split: option.split)

text \<open>The list a fresh entry is filed under, by precedence.\<close>

definition chosen :: "(u64 \<rightharpoonup> u64) \<Rightarrow> u32 \<Rightarrow> u32 \<Rightarrow> (nat \<times> u64) option" where
  "chosen tab tg og =
     (case tab (filterhash tg og) of Some l \<Rightarrow> Some (0, l)
      | None \<Rightarrow> (case tab (filterhash 0 og) of Some l \<Rightarrow> Some (1, l)
      | None \<Rightarrow> (case tab (filterhash tg 0) of Some l \<Rightarrow> Some (2, l)
      | None \<Rightarrow> (case tab 0 of Some l \<Rightarrow> Some (3, l) | None \<Rightarrow> None))))"

lemma sift_fresh:
  assumes "\<not> META_HAS_CACHE f" and "levelFilterOutMask st AND level f = 0"
  shows "sift st f =
    (let f' = f\<lparr>cached_hash := getHashes (tag f) (origin f)\<rparr>
     in case chosen (filterHashTable st) (tag f) (origin f) of
          Some (i, l) \<Rightarrow> (True, META_SET_LIST f' i l)
        | None \<Rightarrow> (\<not> defaultFilterOut st, f'))"
  using assms
  by (simp add: sift_def sift_try_def chosen_def getHashes_eq Let_def split: option.splits)

lemma sift_cached:
  "META_HAS_CACHE f \<Longrightarrow> sift st f = (levelFilterOutMask st AND level f = 0, f)"
  by (simp add: sift_def)

lemma sift_level_out: "levelFilterOutMask st AND level f \<noteq> 0 \<Longrightarrow> sift st f = (False, f)"
  by (simp add: sift_def)

lemma sift_keeps:
  "sift st f = (b, f') \<Longrightarrow> tag f' = tag f \<and> level f' = level f \<and> origin f' = origin f \<and>
     extras f' = extras f \<and> target f' = target f \<and> (wf_meta f \<longrightarrow> wf_meta f')"
  by (auto simp: sift_def sift_try_def Let_def META_SET_LIST_def wf_meta_def getHashes_def
      split: if_splits option.splits prod.splits)

section \<open>Adding and looking up filters\<close>

text \<open>
  \<open>p\<close> is the address \<open>new FilterList()\<close> returns where one is needed. The three
  optional labels are copied only when they hold something.
\<close>

definition label_arg :: "logLabel option \<Rightarrow> logLabel \<Rightarrow> logLabel" where
  "label_arg arg l =
     (case arg of Some a \<Rightarrow> (if \<not> logLabel_isEmpty a then heapBuf_assign a l else l) | None \<Rightarrow> l)"

definition addFilter ::
  "u64 \<Rightarrow> u32 \<Rightarrow> u32 \<Rightarrow> u32 \<Rightarrow> u32 \<Rightarrow> logLabel option \<Rightarrow> logLabel option \<Rightarrow> logLabel option \<Rightarrow>
     'z filters_scheme \<Rightarrow> (bool \<times> u32 \<times> 'z filters_scheme) res" where
  "addFilter p t og tg lev pre postpre post st =
     (let hash = filterhash tg og;
          id' = nextFilterId st;
          st = st\<lparr>nextFilterId := nextFilterId st + 1\<rparr>;
          (lp, st) = (case filterHashTable st hash of
              Some l \<Rightarrow> (l, st)
            | None \<Rightarrow> (p, st\<lparr>flists := (flists st)(p \<mapsto> FilterList_new),
                            filterHashTable := (filterHashTable st)(hash \<mapsto> p)\<rparr>));
          f = Filter_new id' lev t;
          f = f\<lparr>preFormat := label_arg pre (preFormat f),
                postFormatPreMsg := label_arg postpre (postFormatPreMsg f),
                postFormat := label_arg post (postFormat f)\<rparr>
      in case flists st lp of
           None \<Rightarrow> Inl BadPointer
         | Some l \<Rightarrow>
             (case FilterList_add f l of
                (ret, l) \<Rightarrow> Inr (ret, id', st\<lparr>flists := (flists st)(lp \<mapsto> l)\<rparr>)))"

text \<open>\<open>_lookupFilter\<close> gives the address of the list and the slot of the filter found.\<close>

definition lookupFilter :: "u32 \<Rightarrow> u32 \<Rightarrow> u32 \<Rightarrow> 'z filters_scheme \<Rightarrow> (u64 \<times> nat) option res" where
  "lookupFilter og tg i st =
     (case filterHashTable st (filterhash tg og) of
        None \<Rightarrow> Inr None
      | Some lp \<Rightarrow>
          (case flists st lp of
             None \<Rightarrow> Inl BadPointer
           | Some l \<Rightarrow> Inr (map_option (\<lambda>n. (lp, n)) (FilterList_find i l))))"

definition get_filter :: "u64 \<times> nat \<Rightarrow> 'z filters_scheme \<Rightarrow> Filter option" where
  "get_filter h st = map_option (\<lambda>l. flist l ! snd h) (flists st (fst h))"

definition upd_filter :: "u64 \<times> nat \<Rightarrow> (Filter \<Rightarrow> Filter) \<Rightarrow> 'z filters_scheme \<Rightarrow> 'z filters_scheme" where
  "upd_filter h u st =
     (case flists st (fst h) of
        None \<Rightarrow> st
      | Some l \<Rightarrow> st\<lparr>flists := (flists st)(fst h \<mapsto>
                   l\<lparr>flist := (flist l)[snd h := u (flist l ! snd h)]\<rparr>)\<rparr>)"

section \<open>Invariant of the tables and the contract of \<open>_addFilter\<close>\<close>

definition list_at :: "'z filters_scheme \<Rightarrow> u64 \<Rightarrow> FilterList \<Rightarrow> bool" where
  "list_at st p l \<longleftrightarrow> p \<noteq> 0 \<and> flists st p = Some l \<and> FilterList_inv l \<and>
     distinct (map fid (FilterList_filters l)) \<and>
     (\<forall>f \<in> set (FilterList_filters l). unat (fid f) < unat (nextFilterId st))"

definition filters_inv :: "'z filters_scheme \<Rightarrow> bool" where
  "filters_inv st \<longleftrightarrow>
     (\<forall>h p. filterHashTable st h = Some p \<longrightarrow> (\<exists>l. list_at st p l)) \<and>
     (\<forall>h h' p. filterHashTable st h = Some p \<and> filterHashTable st h' = Some p \<longrightarrow> h = h') \<and>
     0 < nextFilterId st"

text \<open>The abstract view: the filters registered for a (tag, origin) pair, oldest first.\<close>

definition filters_at :: "'z filters_scheme \<Rightarrow> u32 \<Rightarrow> u32 \<Rightarrow> Filter list" where
  "filters_at st tg og =
     (case filterHashTable st (filterhash tg og) of
        None \<Rightarrow> []
      | Some p \<Rightarrow> (case flists st p of None \<Rightarrow> [] | Some l \<Rightarrow> FilterList_filters l))"

definition no_filters :: "u32 \<Rightarrow> bool \<Rightarrow> filters" where
  "no_filters lm dfo =
     \<lparr>levelFilterOutMask = lm, defaultFilterOut = dfo, show_errors = False, callback_errors = False,
      filterHashTable = Map.empty, flists = Map.empty, nextFilterId = 1\<rparr>"

lemma no_filters_simps [simp]:
  "nextFilterId (no_filters lm dfo) = 1" "flists (no_filters lm dfo) = Map.empty"
  "filterHashTable (no_filters lm dfo) = Map.empty" "levelFilterOutMask (no_filters lm dfo) = lm"
  "defaultFilterOut (no_filters lm dfo) = dfo"
  by (simp_all add: no_filters_def)

lemma filters_inv_init [simp]: "filters_inv (no_filters lm dfo)"
  "filters_at (no_filters lm dfo) tg og = []"
  by (simp_all add: filters_inv_def no_filters_def filters_at_def)

lemma list_at_mono:
  "list_at st p l \<Longrightarrow> flists st' p = Some l \<Longrightarrow> unat (nextFilterId st) \<le> unat (nextFilterId st') \<Longrightarrow>
     list_at st' p l"
  by (fastforce simp: list_at_def)

lemma filters_invD:
  assumes "filters_inv st" "filterHashTable st h = Some p"
  obtains l where "list_at st p l"
  using assms unfolding filters_inv_def by blast

lemma list_at_FilterList_new:
  "p \<noteq> 0 \<Longrightarrow> flists st p = Some FilterList_new \<Longrightarrow> list_at st p FilterList_new"
  by (simp add: list_at_def)

text \<open>The first half of \<open>_addFilter\<close>: a list for the pair exists afterwards.\<close>

definition ensure_list :: "u64 \<Rightarrow> u64 \<Rightarrow> 'z filters_scheme \<Rightarrow> u64 \<times> 'z filters_scheme" where
  "ensure_list p hash st =
     (case filterHashTable st hash of
        Some l \<Rightarrow> (l, st)
      | None \<Rightarrow> (p, st\<lparr>flists := (flists st)(p \<mapsto> FilterList_new),
                       filterHashTable := (filterHashTable st)(hash \<mapsto> p)\<rparr>))"

lemma ensure_list_spec:
  assumes inv: "filters_inv st" and p: "p \<noteq> 0" "flists st p = None"
    and run: "ensure_list p hash st = (lp, st')"
  shows "filters_inv st' \<and> nextFilterId st' = nextFilterId st \<and>
    filterHashTable st' hash = Some lp \<and>
    (\<forall>h. h \<noteq> hash \<longrightarrow> filterHashTable st' h = filterHashTable st h) \<and>
    (\<forall>tg og. filters_at st' tg og = filters_at st tg og)"
proof (cases "filterHashTable st hash")
  case (Some l)
  with run inv show ?thesis by (auto simp: ensure_list_def)
next
  case None
  with run have lp: "lp = p" and st': "st' = st\<lparr>flists := (flists st)(p \<mapsto> FilterList_new),
        filterHashTable := (filterHashTable st)(hash \<mapsto> p)\<rparr>"
    by (auto simp: ensure_list_def)
  have fresh: "filterHashTable st h \<noteq> Some p" for h
    using filters_invD [OF inv, of h p] p(2) by (force simp: list_at_def)
  have old: "\<exists>l. list_at st' q l" if q: "filterHashTable st h = Some q" for h q
  proof -
    obtain l where "list_at st q l" using inv q by (rule filters_invD)
    moreover from this have "q \<noteq> p" using p(2) by (auto simp: list_at_def)
    ultimately show ?thesis by (auto simp: st' list_at_def intro!: exI [of _ l])
  qed
  have "filters_inv st'"
    using inv fresh old list_at_FilterList_new [OF p(1), of st']
    by (auto simp: filters_inv_def st' split: if_splits)
  moreover have "filters_at st' tg og = filters_at st tg og" for tg og
    using None fresh by (auto simp: filters_at_def st' split: option.splits)
  ultimately show ?thesis by (auto simp: lp st')
qed

lemma addFilter_eq:
  "addFilter p t og tg lev pre postpre post st =
    (let (lp, st1) = ensure_list p (filterhash tg og) (st\<lparr>nextFilterId := nextFilterId st + 1\<rparr>);
         f = (Filter_new (nextFilterId st) lev t)
               \<lparr>preFormat := label_arg pre logLabel_empty,
                postFormatPreMsg := label_arg postpre logLabel_empty,
                postFormat := label_arg post logLabel_empty\<rparr>
     in case flists st1 lp of None \<Rightarrow> Inl BadPointer
        | Some l \<Rightarrow> (case FilterList_add f l of
            (ret, l) \<Rightarrow> Inr (ret, nextFilterId st, st1\<lparr>flists := (flists st1)(lp \<mapsto> l)\<rparr>)))"
  by (simp add: addFilter_def ensure_list_def Filter_new_def Filter_empty_def Let_def
      split: option.splits)

lemma filters_inv_next:
  assumes "filters_inv st" "nextFilterId st + 1 \<noteq> 0"
  shows "filters_inv (st\<lparr>nextFilterId := nextFilterId st + 1\<rparr>) \<and>
    unat (nextFilterId st + 1) = unat (nextFilterId st) + 1"
proof -
  have un: "unat (nextFilterId st + 1) = unat (nextFilterId st) + 1"
    using assms(2) by (simp add: unatSuc add.commute)
  have step: "list_at (st\<lparr>nextFilterId := nextFilterId st + 1\<rparr>) p l" if "list_at st p l" for p l
    using that un by (fastforce simp: list_at_def)
  have "0 < nextFilterId st + 1"
    using assms(2) by (simp add: word_gt_0)
  with assms(1) un step show ?thesis
    unfolding filters_inv_def by (simp del: word_gt_0) blast
qed

lemma filters_at_list:
  "filterHashTable st (filterhash tg og) = Some p \<Longrightarrow> list_at st p l \<Longrightarrow>
     filters_at st tg og = FilterList_filters l"
  by (simp add: filters_at_def list_at_def)

text \<open>Replacing the list behind one hash.\<close>

lemma filters_inv_update:
  assumes inv: "filters_inv st" and h: "filterHashTable st hash = Some lp"
    and l': "list_at (st\<lparr>flists := (flists st)(lp \<mapsto> l')\<rparr>) lp l'"
  defines "st' \<equiv> st\<lparr>flists := (flists st)(lp \<mapsto> l')\<rparr>"
  shows "filters_inv st' \<and>
    (\<forall>tg og. filters_at st' tg og =
      (if filterhash tg og = hash then FilterList_filters l' else filters_at st tg og))"
proof -
  have uniq: "h' = hash" if "filterHashTable st h' = Some lp" for h'
    using inv h that unfolding filters_inv_def by blast
  have "\<exists>l. list_at st' q l" if q: "filterHashTable st h' = Some q" for h' q
  proof (cases "q = lp")
    case True
    with l' show ?thesis by (auto simp: st'_def)
  next
    case False
    obtain l where "list_at st q l" using inv q by (rule filters_invD)
    with False show ?thesis
      by (intro exI [of _ l]) (auto simp: st'_def list_at_def)
  qed
  with inv have "filters_inv st'"
    unfolding filters_inv_def st'_def by simp
  moreover have "filters_at st' tg og =
      (if filterhash tg og = hash then FilterList_filters l' else filters_at st tg og)" for tg og
  proof (cases "filterHashTable st (filterhash tg og)")
    case None
    with h have "filterhash tg og \<noteq> hash" by auto
    with None show ?thesis by (simp add: filters_at_def st'_def)
  next
    case (Some q)
    then show ?thesis
      using h uniq [of "filterhash tg og"]
      by (cases "q = lp"; cases "flists st q") (auto simp: filters_at_def st'_def)
  qed
  ultimately show ?thesis by simp
qed

lemma ensure_list_next:
  "ensure_list p hash (st\<lparr>nextFilterId := n\<rparr>) =
     (let (lp, st1) = ensure_list p hash st in (lp, st1\<lparr>nextFilterId := n\<rparr>))"
  by (simp add: ensure_list_def split: option.split)

lemma addFilter_contract:
  assumes inv: "filters_inv st" and p: "p \<noteq> 0" "flists st p = None"
    and nowrap: "nextFilterId st + 1 \<noteq> 0"
  obtains b st' f where
    "addFilter p t og tg lev pre postpre post st = Inr (b, nextFilterId st, st')"
    "filters_inv st'"
    "b \<longleftrightarrow> length (filters_at st tg og) < MAX_IDENTICAL_FILTERS"
    "\<And>tg' og'. filters_at st' tg' og' =
       (if b \<and> tg' = tg \<and> og' = og then filters_at st tg og @ [f] else filters_at st tg' og')"
    "fid f = nextFilterId st" "levelMask f = lev" "targetId f = t" "\<not> fdisabled f"
    "unat (nextFilterId st') = unat (nextFilterId st) + 1"
proof -
  define hash where "hash = filterhash tg og"
  obtain lp st1 where e: "ensure_list p hash st = (lp, st1)" by (cases "ensure_list p hash st")
  from ensure_list_spec [OF inv p e]
  have inv1: "filters_inv st1" and n1: "nextFilterId st1 = nextFilterId st"
    and h1: "filterHashTable st1 hash = Some lp"
    and at1: "\<And>a b. filters_at st1 a b = filters_at st a b" by auto
  obtain l where l: "list_at st1 lp l" using inv1 h1 by (rule filters_invD)
  define st2 where "st2 = st1\<lparr>nextFilterId := nextFilterId st1 + 1\<rparr>"
  have inv2: "filters_inv st2" and un: "unat (nextFilterId st2) = unat (nextFilterId st) + 1"
    using filters_inv_next [OF inv1] nowrap by (simp_all add: st2_def n1)
  have at2: "filters_at st2 a b = filters_at st a b" for a b
    unfolding at1 [symmetric] by (simp add: filters_at_def st2_def split: option.split)
  have h2: "filterHashTable st2 hash = Some lp" using h1 by (simp add: st2_def)
  define f where "f = (Filter_new (nextFilterId st) lev t)
               \<lparr>preFormat := label_arg pre logLabel_empty,
                postFormatPreMsg := label_arg postpre logLabel_empty,
                postFormat := label_arg post logLabel_empty\<rparr>"
  obtain b l' where fa: "FilterList_add f l = (b, l')" by (cases "FilterList_add f l")
  define st' where "st' = st2\<lparr>flists := (flists st2)(lp \<mapsto> l')\<rparr>"
  have run: "addFilter p t og tg lev pre postpre post st = Inr (b, nextFilterId st, st')"
    using e l fa
    by (simp add: addFilter_eq ensure_list_next hash_def f_def list_at_def st'_def st2_def n1)
  have ff: "fid f = nextFilterId st" "levelMask f = lev" "targetId f = t"
    by (simp_all add: f_def Filter_new_def)
  have fz: "fid f \<noteq> 0" using inv ff(1) by (auto simp: filters_inv_def)
  have invl: "FilterList_inv l" using l by (simp add: list_at_def)
  note fs = FilterList_add_spec [OF invl fz fa]
  then have inv': "FilterList_inv l'"
    and bb: "b \<longleftrightarrow> length (FilterList_filters l) < MAX_IDENTICAL_FILTERS" by auto
  have atl: "filters_at st tg og = FilterList_filters l"
    using filters_at_list [of st1 tg og lp l] h1 l at1 by (simp add: hash_def)
  have ids: "\<forall>x \<in> set (FilterList_filters l). unat (fid x) < unat (nextFilterId st)"
    using l n1 by (simp add: list_at_def)
  define g where "g = (if b then last (FilterList_filters l') else f\<lparr>fdisabled := False\<rparr>)"
  have g: "fid g = nextFilterId st" "levelMask g = lev" "targetId g = t" "\<not> fdisabled g"
    and new: "FilterList_filters l' = FilterList_filters l @ (if b then [g] else [])"
    using fs ff by (auto simp: g_def)
  have "distinct (map fid (FilterList_filters l'))"
    using l ids by (auto simp: new list_at_def g)
  moreover have "\<forall>x \<in> set (FilterList_filters l'). unat (fid x) < unat (nextFilterId st2)"
    using ids un by (auto simp: new g intro: less_SucI)
  ultimately have lat': "list_at st' lp l'"
    using l inv' by (simp add: list_at_def st'_def st2_def)
  from filters_inv_update [OF inv2 h2, of l'] lat'
  have inv3: "filters_inv st'" and at3: "\<And>a c. filters_at st' a c =
      (if filterhash a c = hash then FilterList_filters l' else filters_at st a c)"
    by (auto simp: st'_def at2)
  have at': "filters_at st' a c =
      (if b \<and> a = tg \<and> c = og then filters_at st tg og @ [g] else filters_at st a c)" for a c
    using atl by (auto simp: at3 hash_def filterhash_inj new)
  have un': "unat (nextFilterId st') = unat (nextFilterId st) + 1"
    using un by (simp add: st'_def)
  show ?thesis
    by (rule that [OF run inv3 _ at' g un']) (simp add: bb atl)
qed

section \<open>The contract of \<open>_lookupFilter\<close> and of changing a filter in place\<close>

lemma find_slot_active:
  assumes "FilterList_inv l" "i \<noteq> 0"
  shows "find_slot i (flist l) = find_slot i (FilterList_filters l)"
proof -
  obtain zs where fl: "flist l = active (flist l) @ zs" and zs: "\<forall>f \<in> set zs. fid f = 0"
    using assms(1) packed_split [of "flist l"] by (auto simp: FilterList_inv_def)
  have "find_slot i (as @ zs) = find_slot i as" for as
    using zs assms(2) find_slot_None [of i zs] by (induction as) auto
  then show ?thesis by (metis fl FilterList_filters_def)
qed

definition upd_id :: "u32 \<Rightarrow> (Filter \<Rightarrow> Filter) \<Rightarrow> Filter list \<Rightarrow> Filter list" where
  "upd_id i u fs = map (\<lambda>f. if fid f = i then u f else f) fs"

lemma upd_id_nth:
  assumes "distinct (map fid fs)" "n < length fs" "fid (fs ! n) = i"
  shows "fs[n := u (fs ! n)] = upd_id i u fs"
proof (rule nth_equalityI)
  fix k assume k: "k < length (fs[n := u (fs ! n)])"
  then have "fid (fs ! k) = i \<longleftrightarrow> k = n"
    using assms by (auto simp: distinct_conv_nth)
  with k assms(2) show "fs[n := u (fs ! n)] ! k = upd_id i u fs ! k"
    by (simp add: upd_id_def nth_list_update)
qed (simp add: upd_id_def)

lemma FilterList_update:
  assumes inv: "FilterList_inv l" and dist: "distinct (map fid (FilterList_filters l))"
    and i: "i \<noteq> 0" and n: "find_slot i (flist l) = Some n"
    and u: "\<And>f. fid (u f) = fid f" "\<And>f. levelMask (u f) = levelMask f"
  defines "l' \<equiv> l\<lparr>flist := (flist l)[n := u (flist l ! n)]\<rparr>"
  shows "FilterList_inv l'" "FilterList_filters l' = upd_id i u (FilterList_filters l)"
proof -
  define as where "as = active (flist l)"
  obtain zs where fl: "flist l = as @ zs" and zs: "\<forall>f \<in> set zs. fid f = 0"
    using inv packed_split [of "flist l"] by (auto simp: FilterList_inv_def as_def)
  have as: "\<forall>f \<in> set as. fid f \<noteq> 0" by (simp add: as_def active_nonzero)
  have "find_slot i as = Some n"
    using n find_slot_active [OF inv i] by (simp add: FilterList_filters_def as_def)
  then have na: "n < length as" "fid (as ! n) = i" by (auto dest: find_slot_Some)
  define as' where "as' = upd_id i u as"
  have eq: "as[n := u (as ! n)] = as'"
    unfolding as'_def using dist na by (intro upd_id_nth) (simp_all add: FilterList_filters_def as_def)
  have fl': "flist l' = as' @ zs"
    using na by (simp add: l'_def fl list_update_append nth_append eq)
  have as': "\<forall>f \<in> set as'. fid f \<noteq> 0" using as u(1) by (auto simp: as'_def upd_id_def)
  have om: "or_masks (upd_id i u xs) = or_masks xs" for xs
    by (induction xs) (simp_all add: or_masks_def upd_id_def u(2))
  have act: "active (as' @ zs) = as'" "active (as @ zs) = as"
    using active_append [OF as' zs] active_append [OF as zs] by simp_all
  have "\<forall>f \<in> set (as' @ zs). fid f = 0 \<longrightarrow> \<not> fdisabled f"
    using inv as' by (auto simp: FilterList_inv_def fl)
  moreover have "or_masks as' = or_masks as" "length as' = length as" "bloom l' = bloom l"
    by (simp_all add: as'_def om l'_def) (simp add: upd_id_def)
  ultimately show "FilterList_inv l'"
    using inv packed_append [OF as' zs] by (simp add: FilterList_inv_def fl' fl act)
  show "FilterList_filters l' = upd_id i u (FilterList_filters l)"
    by (simp add: FilterList_filters_def fl' fl act, simp add: as'_def)
qed

lemma find_slot_cong: "map fid xs = map fid ys \<Longrightarrow> find_slot i xs = find_slot i ys"
proof (induction xs arbitrary: ys)
  case (Cons x xs)
  then show ?case by (cases ys) auto
qed simp

text \<open>Changing a filter in place keeps the state well formed and the filter where it was.\<close>

lemma upd_filter_spec:
  assumes inv: "filters_inv st" and i: "i \<noteq> 0" and at: "filterHashTable st (filterhash tg og) = Some lp" "list_at st lp l"
    and n: "find_slot i (flist l) = Some n"
    and u: "\<forall>f. fid (u f) = fid f \<and> levelMask (u f) = levelMask f"
  shows "filters_inv (upd_filter (lp, n) u st)"
    and "lookupFilter og tg i (upd_filter (lp, n) u st) = Inr (Some (lp, n))"
    and "filters_at (upd_filter (lp, n) u st) a c =
      (if a = tg \<and> c = og then upd_id i u (filters_at st tg og) else filters_at st a c)"
proof -
  have ll: "flists st lp = Some l" "FilterList_inv l" "distinct (map fid (FilterList_filters l))"
    using at(2) by (auto simp: list_at_def)
  define l' where "l' = l\<lparr>flist := (flist l)[n := u (flist l ! n)]\<rparr>"
  have st': "upd_filter (lp, n) u st = st\<lparr>flists := (flists st)(lp \<mapsto> l')\<rparr>"
    using ll by (simp add: upd_filter_def l'_def)
  have l': "FilterList_inv l'" "FilterList_filters l' = upd_id i u (FilterList_filters l)"
    using FilterList_update [OF ll(2,3) i n] u by (auto simp: l'_def)
  have fu: "map fid (FilterList_filters l') = map fid (FilterList_filters l)" using u by (simp add: l' upd_id_def)
  then have "fid ` set (FilterList_filters l') = fid ` set (FilterList_filters l)" by (metis set_map)
  then have "\<forall>f \<in> set (FilterList_filters l'). unat (fid f) < unat (nextFilterId st)"
    using at(2) by (metis (no_types, lifting) image_iff list_at_def)
  then have "list_at (st\<lparr>flists := (flists st)(lp \<mapsto> l')\<rparr>) lp l'"
    using at(2) l'(1) fu by (simp add: list_at_def)
  from filters_inv_update [OF inv at(1) this]
  show "filters_inv (upd_filter (lp, n) u st)"
    and "filters_at (upd_filter (lp, n) u st) a c =
      (if a = tg \<and> c = og then upd_id i u (filters_at st tg og) else filters_at st a c)"
    by (simp_all add: st' filterhash_inj l' filters_at_list [OF at])
  have "map fid (flist l') = map fid (flist l)"
    using u by (simp add: l'_def map_update) (metis list_update_id map_update)
  then have "find_slot i (flist l') = Some n" using n find_slot_cong by metis
  then show "lookupFilter og tg i (upd_filter (lp, n) u st) = Inr (Some (lp, n))"
    using at(1) by (simp add: st' lookupFilter_def FilterList_find_def)
qed

lemma lookupFilter_spec:
  assumes inv: "filters_inv st" and i: "i \<noteq> 0"
  shows "\<exists>r. lookupFilter og tg i st = Inr r \<and>
    (r \<noteq> None \<longleftrightarrow> i \<in> fid ` set (filters_at st tg og)) \<and>
    (\<forall>h u. r = Some h \<longrightarrow> (\<forall>f. fid (u f) = fid f \<and> levelMask (u f) = levelMask f) \<longrightarrow>
       filters_inv (upd_filter h u st) \<and>
       lookupFilter og tg i (upd_filter h u st) = Inr (Some h) \<and>
       (\<forall>a c. filters_at (upd_filter h u st) a c =
          (if a = tg \<and> c = og then upd_id i u (filters_at st tg og) else filters_at st a c)))"
proof (cases "filterHashTable st (filterhash tg og)")
  case None
  then show ?thesis by (simp add: lookupFilter_def filters_at_def)
next
  case (Some lp)
  obtain l where l: "list_at st lp l" using inv Some by (rule filters_invD)
  then have ll: "flists st lp = Some l" "FilterList_inv l" by (auto simp: list_at_def)
  have run: "lookupFilter og tg i st = Inr (map_option (Pair lp) (find_slot i (flist l)))"
    using Some ll by (simp add: lookupFilter_def FilterList_find_def)
  moreover have "find_slot i (flist l) \<noteq> None \<longleftrightarrow> i \<in> fid ` set (filters_at st tg og)"
    using find_slot_None [of i "FilterList_filters l"] find_slot_active [OF ll(2) i]
    by (auto simp: filters_at_list [OF Some l])
  ultimately show ?thesis using upd_filter_spec [OF inv i Some l] by auto
qed

end
