(* ===== verification/FilterApi.thy ===== *)
theory FilterApi
  imports Filters
begin

text \<open>
  The JavaScript surface of the filters (logger.cc \<open>SetGlobalOpts\<close>, \<open>AddFilter\<close>,
  \<open>ModifyFilter\<close>). A JavaScript value is the datatype \<open>jsval\<close> with V8's predicates and
  conversions over it; numbers are the integral ones, and a string's \<open>ToUint32\<close> is the
  parameter \<open>num\<close>. A method call gives the value it returns or the TypeError it throws,
  with the new state.
\<close>

section \<open>JavaScript values\<close>

datatype jsval =
    JUndefined | JNull | JBool bool | JNum int | JString bytes | JFunction nat
  | JObject "(string \<times> jsval) list" | JArray "jsval list"

datatype 'a js = Throw string | Return 'a

definition jsGet :: "jsval \<Rightarrow> string \<Rightarrow> jsval" where
  "jsGet v k = (case v of JObject fs \<Rightarrow> (case map_of fs k of Some x \<Rightarrow> x | None \<Rightarrow> JUndefined)
                        | _ \<Rightarrow> JUndefined)"

definition jsArg :: "jsval list \<Rightarrow> nat \<Rightarrow> jsval" where
  "jsArg info i = (if i < length info then info ! i else JUndefined)"

definition IsObject :: "jsval \<Rightarrow> bool" where
  "IsObject v = (case v of JObject _ \<Rightarrow> True | JFunction _ \<Rightarrow> True | JArray _ \<Rightarrow> True | _ \<Rightarrow> False)"

definition toUint32 :: "jsval \<Rightarrow> u32 option" where
  "toUint32 v = (case v of JNum n \<Rightarrow> (if 0 \<le> n \<and> n < 2 ^ 32 then Some (word_of_int n) else None)
                         | _ \<Rightarrow> None)"

definition IsUndefined :: "jsval \<Rightarrow> bool" where
  "IsUndefined v = (v = JUndefined)"

definition toBool :: "jsval \<Rightarrow> bool option" where
  "toBool v = (case v of JBool b \<Rightarrow> Some b | _ \<Rightarrow> None)"

definition toStr :: "jsval \<Rightarrow> bytes option" where
  "toStr v = (case v of JString s \<Rightarrow> Some s | _ \<Rightarrow> None)"

text \<open>\<open>Uint32Value\<close> converts anything, modulo \<open>2 ^ 32\<close>.\<close>

definition Uint32Value :: "(jsval \<Rightarrow> int) \<Rightarrow> jsval \<Rightarrow> u32" where
  "Uint32Value num v =
     (case v of JNum n \<Rightarrow> word_of_int n
              | JBool b \<Rightarrow> (if b then 1 else 0)
              | JUndefined \<Rightarrow> 0 | JNull \<Rightarrow> 0
              | _ \<Rightarrow> word_of_int (num v))"

lemma toUint32_JNum [simp]: "toUint32 (JNum (uint (w :: u32))) = Some w"
  using uint_lt2p [of w] by (simp add: toUint32_def)

section \<open>setGlobalOpts\<close>

definition SetGlobalOpts ::
    "(jsval \<Rightarrow> int) \<Rightarrow> jsval list \<Rightarrow> 'z filters_scheme \<Rightarrow> jsval js \<times> 'z filters_scheme" where
  "SetGlobalOpts num info st =
     (if length info < 1 \<or> \<not> IsObject (jsArg info 0)
      then (Throw ''setGlobalOpts: bad parameters'', st)
      else let jsObj = jsArg info 0;
               m = Uint32Value num (jsGet jsObj ''levelFilterOutMask'');
               st = (if m \<noteq> 0 then st\<lparr>levelFilterOutMask := m\<rparr> else st);
               st = (case toBool (jsGet jsObj ''defaultFilterOut'') of
                       Some v \<Rightarrow> st\<lparr>defaultFilterOut := v\<rparr> | None \<Rightarrow> st);
               st = (case toBool (jsGet jsObj ''show_errors'') of
                       Some v \<Rightarrow> st\<lparr>show_errors := v\<rparr> | None \<Rightarrow> st);
               st = (case toBool (jsGet jsObj ''callback_errors'') of
                       Some v \<Rightarrow> st\<lparr>callback_errors := v\<rparr> | None \<Rightarrow> st)
           in (Return JUndefined, st))"

section \<open>addFilter and modifyFilter\<close>

definition label_opt :: "jsval \<Rightarrow> logLabel option res" where
  "label_opt v =
     (case toStr v of
        Some s \<Rightarrow> bindR (logLabel_fromUTF8 s (length s)) (\<lambda>l. Inr (Some l))
      | None \<Rightarrow> Inr None)"

definition or0 :: "u32 option \<Rightarrow> u32" where
  "or0 x = (case x of Some n \<Rightarrow> n | None \<Rightarrow> 0)"

definition AddFilter ::
    "u64 \<Rightarrow> jsval list \<Rightarrow> 'z filters_scheme \<Rightarrow> (jsval js \<times> 'z filters_scheme) res" where
  "AddFilter p info st =
     (if 0 < length info \<and> IsObject (jsArg info 0)
      then let jsObj = jsArg info 0;
               jsTag = toUint32 (jsGet jsObj ''tag'');
               jsOrigin = toUint32 (jsGet jsObj ''origin'');
               jsMask = toUint32 (jsGet jsObj ''mask'');
               targetId = or0 (toUint32 (jsGet jsObj ''target''));
               set_disable = (toBool (jsGet jsObj ''disable'') = Some True);
               mask = (case jsMask of Some m \<Rightarrow> m | None \<Rightarrow> ALL_LEVELS);
               ok = (jsTag \<noteq> None \<or> jsOrigin \<noteq> None \<or> jsMask \<noteq> None)
           in if jsMask = None \<and> \<not> IsUndefined (jsGet jsObj ''mask'')
              then Inr (Throw ''addFilter: bad parameters (mask)'', st)
              else if \<not> ok then Inr (Throw ''addFilter: bad parameters'', st)
              else bindR (label_opt (jsGet jsObj ''pre'')) (\<lambda>preFormat.
                   bindR (label_opt (jsGet jsObj ''post'')) (\<lambda>postFormat.
                   bindR (label_opt (jsGet jsObj ''post_fmt_pre_msg'')) (\<lambda>postFormatPreMsg.
                   bindR (addFilter p targetId (or0 jsOrigin) (or0 jsTag) mask
                            preFormat postFormatPreMsg postFormat st) (\<lambda>(added, i, st).
                     let ret = (if added then JNum (uint i) else JBool False)
                     in if set_disable
                        then bindR (lookupFilter (or0 jsOrigin) (or0 jsTag) i st) (\<lambda>found.
                               Inr (Return ret,
                                    case found of Some h \<Rightarrow> upd_filter h (\<lambda>f. f\<lparr>fdisabled := True\<rparr>) st
                                                | None \<Rightarrow> st))
                        else Inr (Return ret, st)))))
      else Inr (Throw ''addFilter: bad parameters'', st))"

definition ModifyFilter ::
    "jsval list \<Rightarrow> 'z filters_scheme \<Rightarrow> (jsval js \<times> 'z filters_scheme) res" where
  "ModifyFilter info st =
     (if 0 < length info \<and> IsObject (jsArg info 0)
      then let jsObj = jsArg info 0;
               tagId = or0 (toUint32 (jsGet jsObj ''tag''));
               originId = or0 (toUint32 (jsGet jsObj ''origin''));
               i = or0 (toUint32 (jsGet jsObj ''id''))
           in if toUint32 (jsGet jsObj ''mask'') \<noteq> None
              then Inr (Throw ''modifyFilter: bad parameters... can't modify mask'', st)
              else if \<not> i > 0 then Inr (Throw ''modifyFilter: bad parameters'', st)
              else bindR (lookupFilter originId tagId i st) (\<lambda>found.
                (case found of
                   None \<Rightarrow> Inr (Return (JBool False), st)
                 | Some h \<Rightarrow>
                     let st = (case toBool (jsGet jsObj ''disable'') of
                                 Some b \<Rightarrow> upd_filter h (\<lambda>f. f\<lparr>fdisabled := b\<rparr>) st
                               | None \<Rightarrow> st);
                         st = (case toUint32 (jsGet jsObj ''target'') of
                                 Some t \<Rightarrow> upd_filter h (\<lambda>f. f\<lparr>targetId := t\<rparr>) st
                               | None \<Rightarrow> st)
                     in Inr (Return (JBool True), st)))
      else Inr (Throw ''modifyFilter: bad parameters'', st))"

text \<open>The methods that exist and do nothing.\<close>

definition FilterOut :: "jsval list \<Rightarrow> 'z filters_scheme \<Rightarrow> jsval js \<times> 'z filters_scheme" where
  "FilterOut info st = (Return JUndefined, st)"

definition FilterIn :: "jsval list \<Rightarrow> 'z filters_scheme \<Rightarrow> jsval js \<times> 'z filters_scheme" where
  "FilterIn info st = (Return JUndefined, st)"

definition RemoveFilter :: "jsval list \<Rightarrow> 'z filters_scheme \<Rightarrow> jsval js \<times> 'z filters_scheme" where
  "RemoveFilter info st = (Return JUndefined, st)"

section \<open>What the methods guarantee\<close>

lemma label_opt_ok: "\<exists>r. label_opt v = Inr r"
  by (auto simp: label_opt_def logLabel_fromUTF8_def logLabel_setUTF8_def heapBuf_memcpy_def
      peek_def poke_def Let_def split: option.splits)

lemma lookup_total:
  "filters_inv st \<Longrightarrow> i \<noteq> 0 \<Longrightarrow>
    \<exists>q. lookupFilter og tg i st = Inr q \<and> (q \<noteq> None \<longleftrightarrow> i \<in> fid ` set (filters_at st tg og))"
  by (drule (1) lookupFilter_spec [where og = og and tg = tg], elim exE conjE, intro exI conjI, assumption, assumption)

lemma lookup_update:
  assumes "filters_inv st" "i \<noteq> 0" "lookupFilter og tg i st = Inr (Some h)"
    and "\<And>f. fid (u f) = fid f \<and> levelMask (u f) = levelMask f"
  shows "filters_inv (upd_filter h u st)" and "lookupFilter og tg i (upd_filter h u st) = Inr (Some h)"
    and "filters_at (upd_filter h u st) a c =
      (if a = tg \<and> c = og then upd_id i u (filters_at st tg og) else filters_at st a c)"
  using lookupFilter_spec [OF assms(1,2), of og tg] assms(3,4) by (cases h; simp)+

lemma fresh_id: "filters_inv st \<Longrightarrow> nextFilterId st \<notin> fid ` set (filters_at st tg og)"
proof (cases "filterHashTable st (filterhash tg og)")
  case (Some lp)
  assume "filters_inv st"
  then obtain l where l: "list_at st lp l" using Some by (rule filters_invD)
  with filters_at_list [OF Some l] show ?thesis by (auto simp: list_at_def)
qed (simp add: filters_at_def)

lemma addFilter_lookup:
  assumes inv: "filters_inv st" and p: "p \<noteq> 0" "flists st p = None"
    and nowrap: "nextFilterId st + 1 \<noteq> 0"
    and room: "length (filters_at st tg og) < MAX_IDENTICAL_FILTERS"
    and run: "addFilter p t og tg lev pre postpre post st = Inr (b, i, st')"
  shows "b \<and> i = nextFilterId st \<and> filters_inv st' \<and> (\<exists>f h.
    fid f = i \<and> levelMask f = lev \<and> targetId f = t \<and> \<not> fdisabled f \<and>
    (\<forall>a c. filters_at st' a c = (if a = tg \<and> c = og then filters_at st tg og @ [f] else filters_at st a c)) \<and>
    lookupFilter og tg i st' = Inr (Some h) \<and>
    (\<forall>a c. filters_at (upd_filter h (\<lambda>f. f\<lparr>fdisabled := True\<rparr>) st') a c =
      (if a = tg \<and> c = og then filters_at st tg og @ [f\<lparr>fdisabled := True\<rparr>] else filters_at st a c)) \<and>
    filters_inv (upd_filter h (\<lambda>f. f\<lparr>fdisabled := True\<rparr>) st'))"
proof -
  obtain b' st'' f where r: "addFilter p t og tg lev pre postpre post st = Inr (b', nextFilterId st, st'')"
    and inv': "filters_inv st''"
    and b: "b' \<longleftrightarrow> length (filters_at st tg og) < MAX_IDENTICAL_FILTERS"
    and at: "\<And>a c. filters_at st'' a c =
       (if b' \<and> a = tg \<and> c = og then filters_at st tg og @ [f] else filters_at st a c)"
    and f: "fid f = nextFilterId st" "levelMask f = lev" "targetId f = t" "\<not> fdisabled f"
    and n: "unat (nextFilterId st'') = unat (nextFilterId st) + 1"
    by (rule addFilter_contract [OF inv p nowrap, of t og tg lev pre postpre post]) blast
  have eqs: "b = b'" "i = nextFilterId st" "st' = st''" and b': b' using r run b room by auto
  have i0: "i \<noteq> 0" using inv eqs by (auto simp: filters_inv_def)
  define u where "u = (\<lambda>f :: Filter. f\<lparr>fdisabled := True\<rparr>)"
  have "i \<in> fid ` set (filters_at st'' tg og)" using f(1) b' eqs(2) by (simp add: at)
  then obtain h where lk: "lookupFilter og tg i st'' = Inr (Some h)"
    using lookup_total [OF inv' i0, of og tg] by auto
  note U = lookup_update [OF inv' i0 lk, of u, unfolded u_def, simplified, folded u_def]
  have "\<forall>x \<in> set (filters_at st tg og). fid x \<noteq> i" using fresh_id [OF inv, of tg og] eqs(2) by (metis imageI)
  then have "upd_id i u (filters_at st tg og @ [f]) = filters_at st tg og @ [u f]"
    using f(1) eqs(2) by (simp add: upd_id_def map_idI)
  then have "\<forall>a c. filters_at (upd_filter h u st'') a c =
      (if a = tg \<and> c = og then filters_at st tg og @ [u f] else filters_at st a c)"
    using U(3) b' by (simp add: at)
  then show ?thesis
    unfolding eqs u_def [symmetric]
    using b' inv' f lk at U(1)
    by (intro conjI exI [of _ f] exI [of _ h]) (simp_all add: eqs)
qed

text \<open>C19 A successful \<open>addFilter({tag, origin, target, mask, disable})\<close> returns the next filter id and
  puts one filter with exactly that id, mask, target and disabled state behind the filters the
  (tag, origin) pair already had; every other pair keeps its filters, and the tables stay
  consistent. It succeeds whenever the pair has fewer than sixteen filters.\<close>

theorem AddFilter_registers:
  assumes inv: "filters_inv st" and p: "p \<noteq> 0" "flists st p = None"
    and nowrap: "nextFilterId st + 1 \<noteq> 0"
    and arg: "IsObject obj" "jsGet obj ''tag'' = JNum (uint tg)"
      "jsGet obj ''origin'' = JNum (uint og)" "jsGet obj ''target'' = JNum (uint t)"
      "jsGet obj ''mask'' = JNum (uint m)" "jsGet obj ''disable'' = JBool d"
    and room: "length (filters_at st tg og) < MAX_IDENTICAL_FILTERS"
  shows "\<exists>st' f. AddFilter p [obj] st = Inr (Return (JNum (uint (nextFilterId st))), st') \<and>
    filters_inv st' \<and> fid f = nextFilterId st \<and> levelMask f = m \<and> targetId f = t \<and> fdisabled f = d \<and>
    (\<forall>a c. filters_at st' a c =
       (if a = tg \<and> c = og then filters_at st tg og @ [f] else filters_at st a c))"
proof -
  obtain pre post postpre where labels: "label_opt (jsGet obj ''pre'') = Inr pre"
    "label_opt (jsGet obj ''post'') = Inr post" "label_opt (jsGet obj ''post_fmt_pre_msg'') = Inr postpre"
    using label_opt_ok by metis
  obtain b st' where run: "addFilter p t og tg m pre postpre post st = Inr (b, nextFilterId st, st')"
    by (rule addFilter_contract [OF inv p nowrap, of t og tg m pre postpre post]) blast
  from addFilter_lookup [OF inv p nowrap room run] obtain f h where
    b: b and inv': "filters_inv st'"
    and f: "fid f = nextFilterId st" "levelMask f = m" "targetId f = t" "\<not> fdisabled f"
    and at: "\<forall>a c. filters_at st' a c = (if a = tg \<and> c = og then filters_at st tg og @ [f] else filters_at st a c)"
    and lk: "lookupFilter og tg (nextFilterId st) st' = Inr (Some h)"
    and at2: "\<forall>a c. filters_at (upd_filter h (\<lambda>f. f\<lparr>fdisabled := True\<rparr>) st') a c =
      (if a = tg \<and> c = og then filters_at st tg og @ [f\<lparr>fdisabled := True\<rparr>] else filters_at st a c)"
    and inv2: "filters_inv (upd_filter h (\<lambda>f. f\<lparr>fdisabled := True\<rparr>) st')"
    by blast
  have *: "AddFilter p [obj] st = Inr (Return (JNum (uint (nextFilterId st))),
      if d then upd_filter h (\<lambda>f. f\<lparr>fdisabled := True\<rparr>) st' else st')"
    using arg labels run b lk
    by (simp add: AddFilter_def jsArg_def or0_def toBool_def IsUndefined_def Let_def)
  show ?thesis
  proof (cases d)
    case True
    with * inv2 at2 f show ?thesis
      by (intro exI [of _ "upd_filter h (\<lambda>f. f\<lparr>fdisabled := True\<rparr>) st'"]
          exI [of _ "f\<lparr>fdisabled := True\<rparr>"]) simp
  next
    case False
    with * inv' at f show ?thesis by (intro exI [of _ st'] exI [of _ f]) simp
  qed
qed

theorem AddFilter_registers_witness:
  "\<exists>st' f. AddFilter 16 [JObject [(''tag'', JNum 3), (''origin'', JNum 5), (''target'', JNum 7),
      (''mask'', JNum 12), (''disable'', JBool True)]] (no_filters 0 False) =
      Inr (Return (JNum 1), st') \<and> filters_at st' 3 5 = [f] \<and> targetId f = 7 \<and> fdisabled f"
  using AddFilter_registers [of "no_filters 0 False" 16
      "JObject [(''tag'', JNum 3), (''origin'', JNum 5), (''target'', JNum 7),
         (''mask'', JNum 12), (''disable'', JBool True)]" 3 5 7 12 True]
  by (auto simp: IsObject_def jsGet_def MAX_IDENTICAL_FILTERS_def)

text \<open>C27 \<open>modifyFilter({tag, origin, id, disable, target})\<close> changes exactly the filter with that id in
  the list of that pair, and returns true; where the pair has no such filter it returns false and
  changes nothing. The other filters, of this pair and of all others, are untouched.\<close>

theorem ModifyFilter_updates:
  assumes inv: "filters_inv st" and i: "i \<noteq> 0"
    and arg: "IsObject obj" "jsGet obj ''tag'' = JNum (uint tg)"
      "jsGet obj ''origin'' = JNum (uint og)" "jsGet obj ''id'' = JNum (uint i)"
      "jsGet obj ''target'' = JNum (uint t)" "jsGet obj ''disable'' = JBool d"
      "jsGet obj ''mask'' = JUndefined"
  shows "\<exists>st'. ModifyFilter [obj] st =
      Inr (Return (JBool (i \<in> fid ` set (filters_at st tg og))), st') \<and> filters_inv st' \<and>
    (\<forall>a c. filters_at st' a c =
       (if a = tg \<and> c = og
        then map (\<lambda>f. if fid f = i then f\<lparr>fdisabled := d, targetId := t\<rparr> else f) (filters_at st tg og)
        else filters_at st a c))"
proof -
  define u1 where "u1 = (\<lambda>f :: Filter. f\<lparr>fdisabled := d\<rparr>)"
  define u2 where "u2 = (\<lambda>f :: Filter. f\<lparr>targetId := t\<rparr>)"
  obtain q where lk: "lookupFilter og tg i st = Inr q" and q: "q \<noteq> None \<longleftrightarrow> i \<in> fid ` set (filters_at st tg og)"
    using lookup_total [OF inv i] by blast
  have sel: "toUint32 (jsGet obj ''id'') = Some i" "toUint32 (jsGet obj ''mask'') = None"
    "toUint32 (jsGet obj ''tag'') = Some tg" "toUint32 (jsGet obj ''origin'') = Some og"
    "toUint32 (jsGet obj ''target'') = Some t" "toBool (jsGet obj ''disable'') = Some d"
    using arg by (simp_all add: toBool_def) (simp add: toUint32_def)
  show ?thesis
  proof (cases q)
    case None
    have "ModifyFilter [obj] st = Inr (Return (JBool False), st)"
      using arg(1) sel lk None i by (simp add: ModifyFilter_def jsArg_def or0_def word_gt_0)
    moreover have "i \<notin> fid ` set (filters_at st tg og)" using q None by auto
    moreover from this have "\<forall>x \<in> set (filters_at st tg og). fid x \<noteq> i" by auto
    ultimately show ?thesis
      using inv by (intro exI [of _ st]) (simp add: map_idI)
  next
    case (Some h)
    note U1 = lookup_update [OF inv i lk [unfolded Some], of u1, unfolded u1_def, simplified, folded u1_def]
    note U2 = lookup_update [OF U1(1) i U1(2), of u2, unfolded u2_def, simplified, folded u2_def]
    have "ModifyFilter [obj] st = Inr (Return (JBool True), upd_filter h u2 (upd_filter h u1 st))"
      using arg(1) sel lk Some i by (simp add: ModifyFilter_def jsArg_def or0_def word_gt_0 u1_def u2_def)
    moreover have "upd_id i u2 (upd_id i u1 fs) =
        map (\<lambda>f. if fid f = i then f\<lparr>fdisabled := d, targetId := t\<rparr> else f) fs" for fs
      by (simp add: upd_id_def u1_def u2_def comp_def)
    moreover have "i \<in> fid ` set (filters_at st tg og)" using q Some by auto
    ultimately show ?thesis
      by (intro exI [of _ "upd_filter h u2 (upd_filter h u1 st)"]) (simp add: U1(3) U2(1,3))
  qed
qed

lemma ModifyFilter_updates_witness:
  "\<exists>(st :: filters) st' f. filters_inv st \<and> map fid (filters_at st 1 2) = [1] \<and>
     ModifyFilter [JObject [(''id'', JNum 1), (''tag'', JNum 1), (''origin'', JNum 2),
       (''target'', JNum 4), (''disable'', JBool True)]] st = Inr (Return (JBool True), st') \<and>
     filters_at st' 1 2 = [f] \<and> fdisabled f \<and> targetId f = 4"
proof -
  have init: "filters_inv (no_filters 0 True)" "(16::u64) \<noteq> 0"
    "flists (no_filters 0 True) 16 = None" "nextFilterId (no_filters 0 True) + 1 \<noteq> 0" by simp_all
  obtain b and st :: filters and f where inv: "filters_inv st"
    and b: "b \<longleftrightarrow> length (filters_at (no_filters 0 True) 1 2) < MAX_IDENTICAL_FILTERS"
    and at: "\<And>a c. filters_at st a c =
       (if b \<and> a = 1 \<and> c = 2 then filters_at (no_filters 0 True) 1 2 @ [f]
        else filters_at (no_filters 0 True) a c)"
    and f: "fid f = nextFilterId (no_filters 0 True)"
    by (rule addFilter_contract [OF init, of 7 2 1 ALL_LEVELS None None None]) (rule that; assumption)
  from b at f have one: "filters_at st 1 2 = [f]" "fid f = 1" by (simp_all add: MAX_IDENTICAL_FILTERS_def)
  have "\<exists>st'. ModifyFilter [JObject [(''id'', JNum 1), (''tag'', JNum 1), (''origin'', JNum 2),
       (''target'', JNum 4), (''disable'', JBool True)]] st = Inr (Return (JBool True), st') \<and>
     filters_at st' 1 2 = [f\<lparr>fdisabled := True, targetId := 4\<rparr>]"
    using one ModifyFilter_updates [OF inv, of 1 "JObject [(''id'', JNum 1), (''tag'', JNum 1),
      (''origin'', JNum 2), (''target'', JNum 4), (''disable'', JBool True)]" 1 2 4 True]
    by (auto simp: IsObject_def jsGet_def)
  then obtain st' where st': "ModifyFilter [JObject [(''id'', JNum 1), (''tag'', JNum 1), (''origin'', JNum 2),
       (''target'', JNum 4), (''disable'', JBool True)]] st = Inr (Return (JBool True), st')"
    "filters_at st' 1 2 = [f\<lparr>fdisabled := True, targetId := 4\<rparr>]" by blast
  show ?thesis
    by (rule exI [of _ st], rule exI [of _ st'], rule exI [of _ "f\<lparr>fdisabled := True, targetId := 4\<rparr>"])
      (use inv one st' in simp)
qed

end
