(* ===== verification/FileRotation.thy ===== *)
theory FileRotation
  imports Circular
begin

text \<open>
  The file side of \<open>fileTarget\<close> (logger.h): the rotated file names, \<open>rotate_files\<close>,
  \<open>check_files\<close> and \<open>check_and_maybe_rotate\<close>. The files are a map from paths to
  contents in a directory the process may write; the libuv calls are the POSIX calls on
  that map, and one that gets a NULL path fails.
\<close>

section \<open>The file system\<close>

type_synonym filesys = "bytes \<rightharpoonup> bytes"

definition fs_stat :: "bytes option \<Rightarrow> filesys \<Rightarrow> nat option" where
  "fs_stat path fs = (case path of None \<Rightarrow> None | Some p \<Rightarrow> map_option length (fs p))"

definition fs_unlink :: "bytes option \<Rightarrow> filesys \<Rightarrow> bool \<times> filesys" where
  "fs_unlink path fs =
     (case path of None \<Rightarrow> (False, fs)
      | Some p \<Rightarrow> (case fs p of None \<Rightarrow> (False, fs) | Some _ \<Rightarrow> (True, fs(p := None))))"

definition fs_rename :: "bytes option \<Rightarrow> bytes option \<Rightarrow> filesys \<Rightarrow> bool \<times> filesys" where
  "fs_rename from to fs =
     (case (from, to) of
        (Some p, Some q) \<Rightarrow>
          (case fs p of None \<Rightarrow> (False, fs) | Some c \<Rightarrow> (True, (fs(p := None))(q := Some c)))
      | _ \<Rightarrow> (False, fs))"

definition O_CREAT :: u32 where "O_CREAT = 0x40"
definition O_TRUNC :: u32 where "O_TRUNC = 0x200"
definition DEFAULT_FLAGS_FILE_TARGET :: u32 where "DEFAULT_FLAGS_FILE_TARGET = 0x441"

definition fs_open :: "u32 \<Rightarrow> bytes \<Rightarrow> filesys \<Rightarrow> bool \<times> filesys" where
  "fs_open flags path fs =
     (case fs path of
        Some _ \<Rightarrow> (True, if flags AND O_TRUNC \<noteq> 0 then fs(path \<mapsto> []) else fs)
      | None \<Rightarrow> (if flags AND O_CREAT \<noteq> 0 then (True, fs(path \<mapsto> [])) else (False, fs)))"

text \<open>A write to the open log file appends to it (\<open>O_APPEND\<close>).\<close>

definition fs_append :: "bytes \<Rightarrow> bytes \<Rightarrow> filesys \<Rightarrow> filesys" where
  "fs_append path xs fs = (case fs path of Some c \<Rightarrow> fs(path \<mapsto> c @ xs) | None \<Rightarrow> fs)"

section \<open>Rotated files\<close>

definition MAX_ROTATED_FILES :: nat where "MAX_ROTATED_FILES = 10"

record rotationOpts =
  ropt_enabled :: bool
  rotate_on_start :: bool
  rotate_past :: u32
  max_files :: u32
  max_total_size :: u64
  max_file_size :: u32

definition rotationOpts_new :: rotationOpts where
  "rotationOpts_new =
     \<lparr>ropt_enabled = False, rotate_on_start = False, rotate_past = 0, max_files = 0,
      max_total_size = 0, max_file_size = 0\<rparr>"

definition rotationOpts_copy :: "rotationOpts \<Rightarrow> rotationOpts" where
  "rotationOpts_copy r =
     \<lparr>ropt_enabled = True, rotate_on_start = rotate_on_start r, rotate_past = rotate_past r,
      max_files = max_files r, max_total_size = max_total_size r, max_file_size = max_file_size r\<rparr>"

record rotatedFile =
  rpath :: "bytes option"
  rsize :: u32
  rnum :: nat
  ownMem :: bool

text \<open>\<open>"%s.%d"\<close> with one digit: the name is only made for \<open>0 < n < 10\<close>.\<close>

definition strRotateName :: "bytes option \<Rightarrow> nat \<Rightarrow> bytes option" where
  "strRotateName s n =
     (case s of
        Some p \<Rightarrow> (if n < MAX_ROTATED_FILES \<and> n > 0 then Some (p @ [46, 48 + word_of_nat n]) else None)
      | None \<Rightarrow> None)"

definition rotatedFile_empty :: rotatedFile where
  "rotatedFile_empty = \<lparr>rpath = None, rsize = 0, rnum = 0, ownMem = False\<rparr>"

definition rotatedFile_new :: "bytes \<Rightarrow> nat \<Rightarrow> rotatedFile" where
  "rotatedFile_new base n =
     \<lparr>rpath = strRotateName (Some base) n, rsize = 0, rnum = n, ownMem = True\<rparr>"

text \<open>What a move leaves behind.\<close>

definition rotatedFile_moved :: "rotatedFile \<Rightarrow> rotatedFile" where
  "rotatedFile_moved f = f\<lparr>rpath := None, ownMem := False\<rparr>"

record fileState =
  submittedWrites :: int
  filerotation :: rotationOpts
  current_size :: u32
  all_files_size :: u64
  fileHandle :: bool              \<comment> \<open>an open descriptor on \<open>myPath\<close>\<close>
  myPath :: bytes
  myFlags :: u32
  rotatedFiles :: "rotatedFile circular"
  files :: filesys

definition fileState_new :: "rotationOpts option \<Rightarrow> bytes \<Rightarrow> u32 \<Rightarrow> filesys \<Rightarrow> fileState" where
  "fileState_new rotateopts path flags fs =
     \<lparr>submittedWrites = 0,
      filerotation = (case rotateopts of Some r \<Rightarrow> rotationOpts_copy r | None \<Rightarrow> rotationOpts_new),
      current_size = 0, all_files_size = 0, fileHandle = False, myPath = path, myFlags = flags,
      rotatedFiles = new_circular MAX_ROTATED_FILES rotatedFile_empty, files = fs\<rparr>"

section \<open>Rotation\<close>

function rotate_loop ::
    "rotationOpts \<Rightarrow> bytes \<Rightarrow> nat \<Rightarrow> rotatedFile circular \<Rightarrow> rotatedFile circular \<Rightarrow> filesys \<Rightarrow>
       (rotatedFile circular \<times> rotatedFile circular \<times> filesys) res" where
  "rotate_loop r p n q tmp fs =
     (case tw_removeMv rotatedFile_moved q of
        (None, q') \<Rightarrow> Inr (q', tmp, fs)
      | (Some f, q') \<Rightarrow>
          if max_files r \<noteq> 0 \<and> n + 1 > unat (max_files r)
          then rotate_loop r p (n - 1) q' tmp (snd (fs_unlink (rpath f) fs))
          else let new_f = rotatedFile_new p (rnum f + 1)
               in bindR (tw_addMv rotatedFile_moved new_f tmp) (\<lambda>(_, tmp').
                    rotate_loop r p (n - 1) q' tmp' (snd (fs_rename (rpath f) (rpath new_f) fs))))"
  by pat_completeness auto
termination
  by (relation "measure (\<lambda>(r, p, n, q, tmp, fs). nat (tw_remain q))")
    (auto dest: tw_removeMv_decreases [OF sym] tw_removeMv_decreases)

definition rotate_files :: "fileState \<Rightarrow> fileState res" where
  "rotate_files ft =
     (let tempFiles = new_circular MAX_ROTATED_FILES rotatedFile_empty;
          n = nat (tw_remaining (rotatedFiles ft))
      in bindR (rotate_loop (filerotation ft) (myPath ft) n (rotatedFiles ft) tempFiles (files ft))
           (\<lambda>(q, tempFiles, fs).
             let new_f = rotatedFile_new (myPath ft) 1;
                 (r, fs) = fs_rename (Some (myPath ft)) (rpath new_f) fs
             in bindR (if r then tw_addMv rotatedFile_moved new_f tempFiles else Inr (new_f, tempFiles))
                  (\<lambda>(_, tempFiles).
                    Inr (ft\<lparr>files := fs,
                            rotatedFiles := fst (tw_transferFrom rotatedFile_moved tempFiles q),
                            current_size := 0\<rparr>))))"

function check_loop ::
    "bytes \<Rightarrow> nat \<Rightarrow> rotatedFile circular \<Rightarrow> u64 \<Rightarrow> filesys \<Rightarrow> (rotatedFile circular \<times> u64) res" where
  "check_loop p n q tot fs =
     (let f = rotatedFile_new p n
      in case fs_stat (rpath f) fs of
           None \<Rightarrow> Inr (q, tot)
         | Some l \<Rightarrow>
             bindR (tw_addMv rotatedFile_moved (f\<lparr>rsize := word_of_nat l\<rparr>) q) (\<lambda>(_, q).
               check_loop p (n + 1) q (tot + word_of_nat l) fs))"
  by pat_completeness auto
termination
  by (relation "measure (\<lambda>(p, n, q, tot, fs). MAX_ROTATED_FILES - n)")
    (auto simp: rotatedFile_new_def strRotateName_def fs_stat_def split: if_splits)

definition check_files :: "fileState \<Rightarrow> (bool \<times> fileState) res" where
  "check_files ft =
     (let q = tw_clear (Some rotatedFile_empty) (rotatedFiles ft);
          (needs, tot, cur) =
            (case fs_stat (Some (myPath ft)) (files ft) of
               None \<Rightarrow> (False, 0, current_size ft)
             | Some l \<Rightarrow>
                 (max_file_size (filerotation ft) \<noteq> 0 \<and> unat (max_file_size (filerotation ft)) < l,
                  word_of_nat l, word_of_nat l))
      in bindR (check_loop (myPath ft) 1 q tot (files ft)) (\<lambda>(q, tot).
           Inr (needs \<or> tot > max_total_size (filerotation ft),
                ft\<lparr>rotatedFiles := tw_reverse q, all_files_size := tot, current_size := cur\<rparr>)))"

text \<open>\<open>check_and_maybe_rotate(ft, sz)\<close>, after a write has completed.\<close>

definition check_and_maybe_rotate :: "u32 option \<Rightarrow> fileState \<Rightarrow> fileState res" where
  "check_and_maybe_rotate sz ft =
     (let ft = ft\<lparr>submittedWrites := submittedWrites ft - 1\<rparr>;
          ft = (case sz of Some n \<Rightarrow> ft\<lparr>current_size := current_size ft + n\<rparr> | None \<Rightarrow> ft)
      in if submittedWrites ft < 1 \<and> ropt_enabled (filerotation ft) \<and>
            current_size ft > max_file_size (filerotation ft)
         then bindR (rotate_files (ft\<lparr>fileHandle := False\<rparr>)) (\<lambda>ft.
                let (r, fs) = fs_open (myFlags ft) (myPath ft) (files ft)
                in Inr (ft\<lparr>files := fs, fileHandle := r\<rparr>))
         else Inr ft)"

text \<open>The part of \<open>post_cstor\<close> after the path check, and the open it submits.\<close>

definition file_post_cstor :: "fileState \<Rightarrow> (bool \<times> fileState) res" where
  "file_post_cstor ft =
     bindR (if ropt_enabled (filerotation ft)
            then bindR (check_files ft) (\<lambda>(needs_rotate, ft).
                   if needs_rotate \<or> rotate_on_start (filerotation ft) then rotate_files ft else Inr ft)
            else Inr ft) (\<lambda>ft.
       let (r, fs) = fs_open (myFlags ft) (myPath ft) (files ft)
       in Inr (r, ft\<lparr>files := fs, fileHandle := r\<rparr>))"

section \<open>What a rotation does to the files\<close>

definition rot_name :: "bytes \<Rightarrow> nat \<Rightarrow> bytes" where
  "rot_name p i = p @ [46, 48 + word_of_nat i]"

lemma strRotateName_eq:
  "0 < i \<Longrightarrow> i < MAX_ROTATED_FILES \<Longrightarrow> strRotateName (Some p) i = Some (rot_name p i)"
  by (simp add: strRotateName_def rot_name_def)

lemma strRotateName_None: "MAX_ROTATED_FILES \<le> i \<Longrightarrow> strRotateName (Some p) i = None"
  by (simp add: strRotateName_def)

lemma rot_name_neq [simp]: "rot_name p i \<noteq> p" "p \<noteq> rot_name p i"
  by (simp_all add: rot_name_def)

lemma rot_name_inj:
  assumes "i \<le> MAX_ROTATED_FILES" "j \<le> MAX_ROTATED_FILES"
  shows "rot_name p i = rot_name p j \<longleftrightarrow> i = j"
proof -
  have "unat (word_of_nat n :: u8) = n" if "n \<le> MAX_ROTATED_FILES" for n
    using that by (simp add: unat_of_nat MAX_ROTATED_FILES_def)
  then have "(word_of_nat i :: u8) = word_of_nat j \<longleftrightarrow> i = j"
    using assms by metis
  then show ?thesis by (simp add: rot_name_def)
qed

text \<open>The record of \<open>k\<close> rotated files, highest number first.\<close>

definition rot_entries :: "bytes \<Rightarrow> nat list \<Rightarrow> rotatedFile list \<Rightarrow> bool" where
  "rot_entries p is fs \<longleftrightarrow> map rnum fs = is \<and> (\<forall>f \<in> set fs. rpath f = strRotateName (Some p) (rnum f))"

definition keeps :: "rotationOpts \<Rightarrow> nat \<Rightarrow> bool" where
  "keeps r j \<longleftrightarrow> max_files r = 0 \<or> j + 1 \<le> unat (max_files r)"

declare rotate_loop.simps [simp del] check_loop.simps [simp del]

lemma tw_addMv_room:
  assumes "circular_inv c" "length (items c) < capacity c"
  shows "\<exists>c'. tw_addMv mv d c = Inr (mv d, c') \<and> circular_inv c' \<and> capacity c' = capacity c \<and>
    items c' = items c @ [d]"
  using assms tw_add_spec [OF assms(1), of d] tw.put_inv [OF assms(1), of d]
    tw.put_cap [OF assms(1), of d] tw.put_items [OF assms(1), of d]
  by (simp add: tw_addMv_eq)

text \<open>What the loop does to the directory alone: from the highest number down, a file is moved up or dropped.\<close>

fun rotate_names :: "rotationOpts \<Rightarrow> bytes \<Rightarrow> nat \<Rightarrow> filesys \<Rightarrow> filesys" where
  "rotate_names r p 0 fs = fs"
| "rotate_names r p (Suc m) fs =
     rotate_names r p m
       (if keeps r (Suc m) then (fs(rot_name p (Suc m) := None))(rot_name p (Suc (Suc m)) := fs (rot_name p (Suc m)))
        else fs(rot_name p (Suc m) := None))"

lemma rotate_names_other: "(\<And>i. 1 \<le> i \<Longrightarrow> i \<le> Suc k \<Longrightarrow> x \<noteq> rot_name p i) \<Longrightarrow> rotate_names r p k fs x = fs x"
  by (induction r p k fs rule: rotate_names.induct) auto

lemma rotate_names_shift:
  "k < MAX_ROTATED_FILES \<Longrightarrow> 1 \<le> i \<Longrightarrow> i \<le> k \<Longrightarrow> keeps r i \<Longrightarrow> rotate_names r p k fs (rot_name p (i + 1)) = fs (rot_name p i)"
proof (induction r p k fs rule: rotate_names.induct)
  case (2 r p m fs)
  have inj: "rot_name p a = rot_name p b \<longleftrightarrow> a = b" if "a \<le> Suc (Suc m)" "b \<le> Suc (Suc m)" for a b
    using that "2.prems"(1) by (intro rot_name_inj) auto
  show ?case
  proof (cases "i = Suc m")
    case True
    then show ?thesis using "2.prems"(4) rotate_names_other [of m "rot_name p (Suc (Suc m))"] by (simp add: inj)
  qed (use 2 in \<open>auto simp: inj\<close>)
qed simp

lemma rotate_names_first: "k < MAX_ROTATED_FILES \<Longrightarrow> 1 \<le> k \<Longrightarrow> rotate_names r p k fs (rot_name p 1) = None"
proof (induction r p k fs rule: rotate_names.induct)
  case (2 r p m fs)
  show ?case
  proof (cases "m = 0")
    case False
    then show ?thesis unfolding rotate_names.simps(2) using "2.IH" "2.prems"(1) by simp
  qed (use 2 rot_name_inj [of 1 "Suc (Suc m)" p] in simp)
qed simp

text \<open>One turn of the loop.\<close>

lemma rotate_turn:
  assumes q: "circular_inv q" "items q = f # ds" "rpath f = Some (rot_name p (Suc m))" "rnum f = Suc m"
    and tmp: "circular_inv tmp" "length (items tmp) < capacity tmp"
    and dir: "fs (rot_name p (Suc m)) \<noteq> None" "keeps r (Suc m) \<Longrightarrow> Suc (Suc m) < MAX_ROTATED_FILES"
  shows "\<exists>q' tmp'. rotate_loop r p (Suc m) q tmp fs = rotate_loop r p m q' tmp'
      (if keeps r (Suc m) then (fs(rot_name p (Suc m) := None))(rot_name p (Suc (Suc m)) := fs (rot_name p (Suc m)))
       else fs(rot_name p (Suc m) := None)) \<and>
    circular_inv q' \<and> items q' = ds \<and> circular_inv tmp' \<and> capacity tmp' = capacity tmp \<and>
    items tmp' = items tmp @ (if keeps r (Suc m) then [rotatedFile_new p (Suc (Suc m))] else [])"
proof -
  obtain q' where rm: "tw_removeMv rotatedFile_moved q = (Some f, q')" and q': "circular_inv q'" "items q' = ds"
    using tw_removeMv_spec [OF q(1)] q(2) by (cases "tw_removeMv rotatedFile_moved q") fastforce
  show ?thesis
  proof (cases "keeps r (Suc m)")
    case False
    then have "rotate_loop r p (Suc m) q tmp fs = rotate_loop r p m q' tmp (fs(rot_name p (Suc m) := None))"
      using rm q(3) dir(1) by (subst rotate_loop.simps) (auto simp: keeps_def fs_unlink_def)
    then show ?thesis using False q' tmp by auto
  next
    case True
    have nf: "rpath (rotatedFile_new p (Suc (Suc m))) = Some (rot_name p (Suc (Suc m)))"
      using dir(2) [OF True] by (simp add: rotatedFile_new_def strRotateName_eq)
    obtain tmp' where "tw_addMv rotatedFile_moved (rotatedFile_new p (Suc (Suc m))) tmp =
        Inr (rotatedFile_moved (rotatedFile_new p (Suc (Suc m))), tmp')"
      "circular_inv tmp'" "capacity tmp' = capacity tmp" "items tmp' = items tmp @ [rotatedFile_new p (Suc (Suc m))]"
      using tw_addMv_room [OF tmp] by metis
    moreover from this have "rotate_loop r p (Suc m) q tmp fs = rotate_loop r p m q' tmp'
        ((fs(rot_name p (Suc m) := None))(rot_name p (Suc (Suc m)) := fs (rot_name p (Suc m))))"
      using True rm q(3,4) dir(1) nf by (subst rotate_loop.simps) (auto simp: keeps_def fs_rename_def Let_def)
    ultimately show ?thesis using True q' by auto
  qed
qed

lemma rotate_loop_spec:
  assumes "circular_inv q" "rot_entries p (rev [1..<Suc k]) (items q)"
    and "circular_inv tmp" "length (items tmp) + k \<le> capacity tmp"
    and "\<And>j. 1 \<le> j \<Longrightarrow> j \<le> k \<Longrightarrow> fs (rot_name p j) \<noteq> None"
    and "k < MAX_ROTATED_FILES" "keeps r k \<Longrightarrow> k + 1 < MAX_ROTATED_FILES"
  shows "\<exists>q' tmp' es. rotate_loop r p k q tmp fs = Inr (q', tmp', rotate_names r p k fs) \<and>
    circular_inv tmp' \<and> capacity tmp' = capacity tmp \<and> items tmp' = items tmp @ es \<and>
    rot_entries p (map Suc (filter (keeps r) (rev [1..<Suc k]))) es"
  using assms
proof (induction k arbitrary: q tmp fs)
  case 0
  then have "fst (tw_removeMv rotatedFile_moved q) = None"
    using twMv.take_None [OF "0.prems"(1)] by (simp add: rot_entries_def)
  then obtain q' where "tw_removeMv rotatedFile_moved q = (None, q')" by (cases "tw_removeMv rotatedFile_moved q") auto
  then have "rotate_loop r p 0 q tmp fs = Inr (q', tmp, fs)" by (simp add: rotate_loop.simps)
  with "0.prems" show ?case by (auto simp: rot_entries_def)
next
  case (Suc m)
  define g where "g = rotatedFile_new p (Suc (Suc m))"
  define fs1 where "fs1 = (if keeps r (Suc m) then (fs(rot_name p (Suc m) := None))(rot_name p (Suc (Suc m)) := fs (rot_name p (Suc m)))
       else fs(rot_name p (Suc m) := None))"
  have up: "rev [1..<Suc (Suc m)] = Suc m # rev [1..<Suc m]" by simp
  obtain f ds where it: "items q = f # ds" and f: "rnum f = Suc m" "rpath f = Some (rot_name p (Suc m))"
    and ds: "rot_entries p (rev [1..<Suc m]) ds"
    using Suc.prems(2,6) unfolding up by (cases "items q") (auto simp: rot_entries_def strRotateName_eq)
  obtain q' tmp' where turn: "rotate_loop r p (Suc m) q tmp fs = rotate_loop r p m q' tmp' fs1"
    "circular_inv q'" "items q' = ds" "circular_inv tmp'" "capacity tmp' = capacity tmp"
    "items tmp' = items tmp @ (if keeps r (Suc m) then [g] else [])"
    using rotate_turn [OF Suc.prems(1) it f(2,1) Suc.prems(3), of fs r] Suc.prems(4,5,7)
    unfolding fs1_def g_def by (auto simp del: length_items)
  have inj: "rot_name p i = rot_name p j \<longleftrightarrow> i = j" if "i \<le> Suc (Suc m)" "j \<le> Suc (Suc m)" for i j
    using that Suc.prems(6) by (intro rot_name_inj) auto
  have "\<exists>q' tmp'' es. rotate_loop r p m q'0 tmp' fs1 = Inr (q', tmp'', rotate_names r p m fs1) \<and>
    circular_inv tmp'' \<and> capacity tmp'' = capacity tmp' \<and> items tmp'' = items tmp' @ es \<and>
    rot_entries p (map Suc (filter (keeps r) (rev [1..<Suc m]))) es" if "q'0 = q'" for q'0
    unfolding that
  proof (rule Suc.IH)
    show "rot_entries p (rev [1..<Suc m]) (items q')" using ds turn(3) by simp
    show "length (items tmp') + m \<le> capacity tmp'" using Suc.prems(4) turn(5,6) by (simp del: length_items)
    show "fs1 (rot_name p j) \<noteq> None" if "1 \<le> j" "j \<le> m" for j
      using Suc.prems(5) that by (simp add: fs1_def inj)
  qed (use turn Suc.prems(6) in auto)
  moreover have "rot_entries p [Suc (Suc m)] [g]" if "keeps r (Suc m)"
    using Suc.prems(7) that by (simp add: g_def rot_entries_def rotatedFile_new_def)
  ultimately show ?case using turn unfolding up fs1_def
    by (fastforce simp: rot_entries_def)
qed

text \<open>\<open>k\<close> rotated files: the queue names them and they are there.\<close>

definition rot_inv :: "nat \<Rightarrow> fileState \<Rightarrow> bool" where
  "rot_inv k ft \<longleftrightarrow>
     circular_inv (rotatedFiles ft) \<and> capacity (rotatedFiles ft) = MAX_ROTATED_FILES \<and>
     rot_entries (myPath ft) (rev [1..<Suc k]) (items (rotatedFiles ft)) \<and>
     (\<forall>j. 1 \<le> j \<and> j \<le> k \<longrightarrow> files ft (rot_name (myPath ft) j) \<noteq> None)"

definition kept_after :: "rotationOpts \<Rightarrow> nat \<Rightarrow> nat" where
  "kept_after r k = (if max_files r = 0 then k + 1 else min (k + 1) (unat (max_files r)))"

lemma rot_entries_length: "rot_entries p is fs \<Longrightarrow> length fs = length is"
  unfolding rot_entries_def by (metis length_map)

lemma kept_numbers:
  assumes "max_files r \<noteq> 0 \<Longrightarrow> k \<le> unat (max_files r)"
  shows "map Suc (filter (keeps r) (rev [1..<Suc k])) @ [1] = rev [1..<Suc (kept_after r k)]"
proof -
  have all: "filter (keeps r) (rev [1..<j]) = rev [1..<j]" if "j \<le> k" for j
    using that assms by (cases "max_files r = 0") (auto simp: keeps_def filter_id_conv)
  have shift: "map Suc (rev [1..<j]) @ [1] = rev [1..<Suc j]" if "0 < j" for j
    using that by (simp add: rev_map [symmetric] map_Suc_upt upt_conv_Cons del: upt_Suc)
  show ?thesis
  proof (cases "k = 0")
    case True
    then have "kept_after r k = 1"
      using word_gt_0 [of "max_files r"] by (auto simp: kept_after_def min_def unat_eq_zero Suc_le_eq unat_gt_0)
    with True show ?thesis by simp
  next
    case False
    then have up: "rev [1..<Suc k] = k # rev [1..<k]" by simp
    show ?thesis
    proof (cases "keeps r k")
      case True
      then have "kept_after r k = Suc k" by (auto simp: kept_after_def keeps_def)
      moreover have "filter (keeps r) (rev [1..<Suc k]) = rev [1..<Suc k]"
        using True all [of k] unfolding up by simp
      ultimately show ?thesis using shift [of "Suc k"] by simp
    next
      case no: False
      then have "kept_after r k = k" using assms by (auto simp: kept_after_def keeps_def)
      moreover have "filter (keeps r) (rev [1..<Suc k]) = rev [1..<k]"
        using no all [of k] unfolding up by simp
      ultimately show ?thesis using shift [of k] False by simp
    qed
  qed
qed

text \<open>What follows the loop: the current file becomes \<open>.1\<close>, unless its record waits for room.\<close>

lemma rotate_files_after_loop:
  assumes loop: "rotate_loop (filerotation ft) (myPath ft) (nat (tw_remaining (rotatedFiles ft))) (rotatedFiles ft)
      (new_circular MAX_ROTATED_FILES rotatedFile_empty) (files ft) = Inr (q, tmp, fs)"
    and cur: "fs (myPath ft) \<noteq> None" and tmp: "circular_inv tmp" "capacity tmp = MAX_ROTATED_FILES"
  shows "if length (items tmp) < MAX_ROTATED_FILES
    then \<exists>rf. rotate_files ft = Inr (ft\<lparr>files := (fs(myPath ft := None))(rot_name (myPath ft) 1 := fs (myPath ft)),
        rotatedFiles := rf, current_size := 0\<rparr>) \<and>
      circular_inv rf \<and> capacity rf = MAX_ROTATED_FILES \<and> items rf = items tmp @ [rotatedFile_new (myPath ft) 1]
    else rotate_files ft = Inl WouldBlock"
proof -
  define nf where "nf = rotatedFile_new (myPath ft) 1"
  define fs2 where "fs2 = (fs(myPath ft := None))(rot_name (myPath ft) 1 := fs (myPath ft))"
  have "rpath nf = Some (rot_name (myPath ft) 1)"
    using strRotateName_eq [of 1 "myPath ft"] by (simp add: nf_def rotatedFile_new_def MAX_ROTATED_FILES_def)
  then have "fs_rename (Some (myPath ft)) (rpath nf) fs = (True, fs2)" using cur by (auto simp: fs_rename_def fs2_def)
  then have run: "rotate_files ft = bindR (tw_addMv rotatedFile_moved nf tmp) (\<lambda>(_, t).
      Inr (ft\<lparr>files := fs2, rotatedFiles := fst (tw_transferFrom rotatedFile_moved t q), current_size := 0\<rparr>))"
    using loop by (simp add: rotate_files_def Let_def nf_def)
  show ?thesis
  proof (cases "length (items tmp) < MAX_ROTATED_FILES")
    case True
    then obtain t where t: "tw_addMv rotatedFile_moved nf tmp = Inr (rotatedFile_moved nf, t)"
      "circular_inv t" "capacity t = MAX_ROTATED_FILES" "items t = items tmp @ [nf]"
      using tw_addMv_room [OF tmp(1), of rotatedFile_moved nf] tmp(2) by auto
    then show ?thesis
      using tw_transferFrom_this [OF t(2), of rotatedFile_moved q] True run
      by (intro if_P [THEN iffD2] exI [of _ "fst (tw_transferFrom rotatedFile_moved t q)"])
        (auto simp: tw_transferFrom_def fs2_def nf_def simp del: length_items)
  next
    case False
    then show ?thesis using tw_add_spec [OF tmp(1)] tmp(2) run by (simp add: tw_addMv_eq del: length_items)
  qed
qed

lemma new_record: "circular_inv (new_circular MAX_ROTATED_FILES d)" "items (new_circular MAX_ROTATED_FILES d) = []"
  "capacity (new_circular MAX_ROTATED_FILES d) = MAX_ROTATED_FILES"
  using new_circular_spec [of MAX_ROTATED_FILES d] by (simp_all add: MAX_ROTATED_FILES_def)

lemma rotate_files_run:
  assumes inv: "rot_inv k ft" and cur: "files ft (myPath ft) = Some c" and k: "k < MAX_ROTATED_FILES"
    and r: "keeps (filerotation ft) k \<Longrightarrow> k + 1 < MAX_ROTATED_FILES"
      "max_files (filerotation ft) \<noteq> 0 \<Longrightarrow> k \<le> unat (max_files (filerotation ft))"
  shows "\<exists>rf. rotate_files ft = Inr (ft\<lparr>files := ((rotate_names (filerotation ft) (myPath ft) k (files ft))(myPath ft := None))
      (rot_name (myPath ft) 1 := Some c), rotatedFiles := rf, current_size := 0\<rparr>) \<and>
    circular_inv rf \<and> capacity rf = MAX_ROTATED_FILES \<and>
    rot_entries (myPath ft) (rev [1..<Suc (kept_after (filerotation ft) k)]) (items rf)"
proof -
  have q: "circular_inv (rotatedFiles ft)" "rot_entries (myPath ft) (rev [1..<Suc k]) (items (rotatedFiles ft))"
    "\<And>j. 1 \<le> j \<Longrightarrow> j \<le> k \<Longrightarrow> files ft (rot_name (myPath ft) j) \<noteq> None"
    using inv by (auto simp: rot_inv_def)
  have n: "nat (tw_remaining (rotatedFiles ft)) = k" using rot_entries_length [OF q(2)] by (simp add: tw_remaining_def)
  have room: "length (items (new_circular MAX_ROTATED_FILES rotatedFile_empty)) + k \<le> capacity (new_circular MAX_ROTATED_FILES rotatedFile_empty)"
    using k by (simp add: new_record)
  obtain q1 tmp es where loop: "rotate_loop (filerotation ft) (myPath ft) k (rotatedFiles ft)
      (new_circular MAX_ROTATED_FILES rotatedFile_empty) (files ft) = Inr (q1, tmp, rotate_names (filerotation ft) (myPath ft) k (files ft))"
    "circular_inv tmp" "capacity tmp = MAX_ROTATED_FILES" "items tmp = es"
    "rot_entries (myPath ft) (map Suc (filter (keeps (filerotation ft)) (rev [1..<Suc k]))) es"
    using rotate_loop_spec [OF q(1,2) new_record(1) [of rotatedFile_empty] room, of "files ft" "filerotation ft"] q(3) k r(1) by (auto simp: new_record simp del: upt_Suc)
  have "length es \<le> k"
    using rot_entries_length [OF loop(5)] length_filter_le [of "keeps (filerotation ft)" "rev [1..<Suc k]"] by (simp del: upt_Suc)
  moreover have p: "rotate_names (filerotation ft) (myPath ft) k (files ft) (myPath ft) = Some c"
    using rotate_names_other [of k "myPath ft" "myPath ft"] cur by simp
  moreover have "rot_entries (myPath ft) (rev [1..<Suc (kept_after (filerotation ft) k)]) (es @ [rotatedFile_new (myPath ft) 1])"
    using loop(5) kept_numbers [OF r(2), symmetric] by (simp add: rot_entries_def rotatedFile_new_def del: upt_Suc)
  moreover obtain rf where "rotate_files ft = Inr (ft\<lparr>files := ((rotate_names (filerotation ft) (myPath ft) k (files ft))(myPath ft := None))
      (rot_name (myPath ft) 1 := Some c), rotatedFiles := rf, current_size := 0\<rparr>)" "circular_inv rf"
    "capacity rf = MAX_ROTATED_FILES" "items rf = es @ [rotatedFile_new (myPath ft) 1]"
    using rotate_files_after_loop [of ft q1 tmp, unfolded n, OF loop(1) _ loop(2,3)] k calculation(1,2) loop(4)
    by (auto simp del: length_items)
  ultimately show ?thesis by metis
qed

text \<open>C14 Rotation shifts the archive by one: the current log becomes \<open>.1\<close>, every \<open>.i\<close> that is kept
  becomes \<open>.(i+1)\<close> with its contents, the oldest is dropped only when \<open>max_files\<close> are there
  already, nothing else in the directory changes, and the record of the rotated files still
  describes the directory afterwards.\<close>

theorem rotate_files_shifts:
  assumes inv: "rot_inv k ft" and cur: "files ft (myPath ft) = Some c"
    and opts: "if max_files (filerotation ft) = 0 then k + 1 < MAX_ROTATED_FILES
               else k \<le> unat (max_files (filerotation ft)) \<and>
                    unat (max_files (filerotation ft)) < MAX_ROTATED_FILES"
  shows "\<exists>ft'. rotate_files ft = Inr ft' \<and> rot_inv (kept_after (filerotation ft) k) ft' \<and>
    files ft' (rot_name (myPath ft) 1) = Some c \<and> files ft' (myPath ft) = None \<and>
    (\<forall>i. 1 \<le> i \<and> i < kept_after (filerotation ft) k \<longrightarrow>
       files ft' (rot_name (myPath ft) (i + 1)) = files ft (rot_name (myPath ft) i)) \<and>
    (\<forall>x. x \<noteq> myPath ft \<and> (\<forall>i. 1 \<le> i \<and> i \<le> k + 1 \<longrightarrow> x \<noteq> rot_name (myPath ft) i) \<longrightarrow>
       files ft' x = files ft x) \<and>
    current_size ft' = 0"
proof -
  define r p where "r = filerotation ft" and "p = myPath ft"
  have m: "max_files r \<noteq> 0 \<Longrightarrow> k \<le> unat (max_files r)" "k < MAX_ROTATED_FILES" "keeps r k \<Longrightarrow> k + 1 < MAX_ROTATED_FILES"
    using opts by (auto simp: r_def keeps_def split: if_splits)
  define fs where "fs = ((rotate_names r p k (files ft))(p := None))(rot_name p 1 := Some c)"
  obtain rf where run: "rotate_files ft = Inr (ft\<lparr>files := fs, rotatedFiles := rf, current_size := 0\<rparr>)"
    "circular_inv rf" "capacity rf = MAX_ROTATED_FILES" "rot_entries p (rev [1..<Suc (kept_after r k)]) (items rf)"
    using rotate_files_run [OF inv cur m(2) m(3,1) [unfolded r_def]] unfolding fs_def r_def p_def by blast
  have shift: "fs (rot_name p (i + 1)) = files ft (rot_name p i)" "i \<le> k" if "1 \<le> i" "i < kept_after r k" for i
  proof -
    show "i \<le> k" using that by (simp add: kept_after_def split: if_splits)
    moreover have "keeps r i" using that m(1) by (auto simp: kept_after_def keeps_def split: if_splits)
    ultimately show "fs (rot_name p (i + 1)) = files ft (rot_name p i)"
      using rotate_names_shift [OF m(2) that(1)] rot_name_inj [of "i + 1" 1 p] that(1) m(2) by (simp add: fs_def)
  qed
  have "fs (rot_name p j) \<noteq> None" if "1 \<le> j" "j \<le> kept_after r k" for j
    using shift [of "j - 1"] that inv by (cases "j = 1") (auto simp: fs_def rot_inv_def p_def)
  moreover have "fs x = files ft x" if "x \<noteq> p" "\<forall>i. 1 \<le> i \<and> i \<le> k + 1 \<longrightarrow> x \<noteq> rot_name p i" for x
    using that rotate_names_other [of k x p r "files ft"] by (simp add: fs_def)
  ultimately show ?thesis using run shift(1) by (simp add: rot_inv_def r_def p_def fs_def)
qed

text \<open>A directory with two rotated files: a concrete input for the theorems.\<close>

definition demo_dir :: "rotationOpts \<Rightarrow> fileState" where
  "demo_dir r =
     (fileState_new (Some r) [108] DEFAULT_FLAGS_FILE_TARGET
        [[108] \<mapsto> [1, 2, 3], [108, 46, 49] \<mapsto> [4], [108, 46, 50] \<mapsto> [5]])
     \<lparr>rotatedFiles := snd (tw_addIfRoom (rotatedFile_new [108] 1)
        (snd (tw_addIfRoom (rotatedFile_new [108] 2)
          (new_circular MAX_ROTATED_FILES rotatedFile_empty))))\<rparr>"

lemma demo_dir_inv: "rot_inv 2 (demo_dir r)"
proof -
  define c0 where "c0 = new_circular MAX_ROTATED_FILES rotatedFile_empty"
  define c1 where "c1 = snd (tw_addIfRoom (rotatedFile_new [108] 2) c0)"
  define c2 where "c2 = snd (tw_addIfRoom (rotatedFile_new [108] 1) c1)"
  have c0: "circular_inv c0" "items c0 = []" "capacity c0 = 10"
    using new_circular_spec [of MAX_ROTATED_FILES rotatedFile_empty]
    by (simp_all add: c0_def MAX_ROTATED_FILES_def)
  have c1: "circular_inv c1" "items c1 = [rotatedFile_new [108] 2]" "capacity c1 = 10"
    using tw.put_inv [OF c0(1)] tw.put_items [OF c0(1)] tw.put_cap [OF c0(1)] c0
    by (simp_all add: c1_def)
  have c2: "circular_inv c2" "items c2 = [rotatedFile_new [108] 2, rotatedFile_new [108] 1]"
    "capacity c2 = 10"
    using tw.put_inv [OF c1(1)] tw.put_items [OF c1(1)] tw.put_cap [OF c1(1)] c1
    by (simp_all add: c2_def)
  have names: "rot_name [108] 1 = [108, 46, 49]" "rot_name [108] 2 = [108, 46, 50]"
    by (simp_all add: rot_name_def)
  have d: "rotatedFiles (demo_dir r) = c2" "myPath (demo_dir r) = [108]"
    "files (demo_dir r) = [[108] \<mapsto> [1, 2, 3], [108, 46, 49] \<mapsto> [4], [108, 46, 50] \<mapsto> [5]]"
    by (simp_all add: demo_dir_def fileState_new_def c2_def c1_def c0_def)
  have "rev [1..<Suc 2] = [2, 1::nat]" by (simp add: upt_rec)
  then have "rot_entries [108] (rev [1..<Suc 2]) (items c2)"
    by (simp add: c2 rot_entries_def rotatedFile_new_def)
  moreover have "files (demo_dir r) (rot_name [108] j) \<noteq> None" if "1 \<le> j" "j \<le> 2" for j
  proof -
    from that have "j = 1 \<or> j = 2" by auto
    then show ?thesis unfolding d using names by auto
  qed
  ultimately show ?thesis
    using c2 unfolding rot_inv_def d by (auto simp: MAX_ROTATED_FILES_def)
qed

definition demo_opts :: rotationOpts where
  "demo_opts = rotationOpts_new\<lparr>max_files := 2, max_file_size := 2\<rparr>"

lemma demo_dir_simps [simp]:
  "myPath (demo_dir r) = [108]" "filerotation (demo_dir r) = rotationOpts_copy r"
  "files (demo_dir r) = [[108] \<mapsto> [1, 2, 3], [108, 46, 49] \<mapsto> [4], [108, 46, 50] \<mapsto> [5]]"
  by (simp_all add: demo_dir_def fileState_new_def)

theorem rotate_files_shifts_witness:
  "\<exists>ft'. rotate_files (demo_dir demo_opts) = Inr ft' \<and> rot_inv 2 ft' \<and>
     files ft' [108, 46, 49] = Some [1, 2, 3] \<and> files ft' [108, 46, 50] = Some [4]"
proof -
  have k: "kept_after (filerotation (demo_dir demo_opts)) 2 = 2"
    by (simp add: kept_after_def demo_opts_def rotationOpts_copy_def rotationOpts_new_def)
  obtain ft' where ft': "rotate_files (demo_dir demo_opts) = Inr ft'" "rot_inv 2 ft'"
    "files ft' (rot_name [108] 1) = Some [1, 2, 3]"
    "files ft' (rot_name [108] (1 + 1)) = files (demo_dir demo_opts) (rot_name [108] 1)"
    using rotate_files_shifts [OF demo_dir_inv [of demo_opts], of "[1, 2, 3]"] k
    by (auto simp: demo_opts_def rotationOpts_copy_def rotationOpts_new_def MAX_ROTATED_FILES_def)
  then show ?thesis by (auto simp: rot_name_def)
qed

section \<open>The limit on the number of rotated files\<close>

text \<open>Without \<open>max_files\<close> every rotation moves every entry to the new queue, whether or not
  the renames worked.\<close>

lemma rotate_loop_all:
  assumes "circular_inv q" "circular_inv tmp" "length (items tmp) + length (items q) \<le> capacity tmp"
    and "max_files r = 0"
    and "fs p \<noteq> None" "\<forall>f \<in> set (items q). rpath f \<noteq> Some p"
  shows "\<exists>q' tmp' fs'. rotate_loop r p n q tmp fs = Inr (q', tmp', fs') \<and> circular_inv tmp' \<and>
    capacity tmp' = capacity tmp \<and> length (items tmp') = length (items tmp) + length (items q) \<and>
    (\<forall>f \<in> set (items tmp'). f \<in> set (items tmp) \<or> rpath f \<noteq> Some p) \<and> fs' p \<noteq> None"
  using assms
proof (induction "items q" arbitrary: q tmp fs n)
  case Nil
  then have "fst (tw_removeMv rotatedFile_moved q) = None"
    using twMv.take_None [OF Nil.prems(1)] by simp
  then obtain q' where "tw_removeMv rotatedFile_moved q = (None, q')"
    by (cases "tw_removeMv rotatedFile_moved q") auto
  with Nil show ?case by (subst rotate_loop.simps) simp
next
  case (Cons f ds)
  obtain q' where rm: "tw_removeMv rotatedFile_moved q = (Some f, q')"
    and q': "circular_inv q'" "ds = items q'"
    using tw_removeMv_spec [OF Cons.prems(1)] Cons.hyps(2)
    by (cases "tw_removeMv rotatedFile_moved q") (fastforce split: list.splits)
  define nf where "nf = rotatedFile_new p (rnum f + 1)"
  have nfp: "rpath nf \<noteq> Some p" by (simp add: nf_def rotatedFile_new_def strRotateName_def)
  obtain tmp1 where add: "tw_addMv rotatedFile_moved nf tmp = Inr (rotatedFile_moved nf, tmp1)"
    and tmp1: "circular_inv tmp1" "capacity tmp1 = capacity tmp" "items tmp1 = items tmp @ [nf]"
    using tw_addMv_room [OF Cons.prems(2), of rotatedFile_moved nf] Cons.prems(3) Cons.hyps(2) [symmetric]
    by (auto simp del: length_items)
  define fs1 where "fs1 = snd (fs_rename (rpath f) (rpath nf) fs)"
  have fp: "rpath f \<noteq> Some p" using Cons.prems(6) Cons.hyps(2) [symmetric] by simp
  have fs1: "fs1 p \<noteq> None"
    using Cons.prems(5) fp nfp by (auto simp: fs1_def fs_rename_def split: option.splits)
  have step: "rotate_loop r p n q tmp fs = rotate_loop r p (n - 1) q' tmp1 fs1"
    using rm add Cons.prems(4) by (subst rotate_loop.simps) (simp add: Let_def nf_def fs1_def)
  have room: "length (items tmp1) + length (items q') \<le> capacity tmp1"
    using Cons.prems(3) Cons.hyps(2) [symmetric] by (simp add: tmp1 q'(2) [symmetric] del: length_items)
  have other: "\<forall>f \<in> set (items q'). rpath f \<noteq> Some p"
    using Cons.prems(6) Cons.hyps(2) [symmetric] q'(2) by simp
  from Cons.hyps(1) [of q' tmp1 fs1 "n - 1", OF q'(2,1) tmp1(1) room Cons.prems(4) fs1 other]
  obtain q2 tmp2 fs2 where "rotate_loop r p (n - 1) q' tmp1 fs1 = Inr (q2, tmp2, fs2)" "circular_inv tmp2"
    "capacity tmp2 = capacity tmp1" "length (items tmp2) = length (items tmp1) + length (items q')"
    "\<forall>f \<in> set (items tmp2). f \<in> set (items tmp1) \<or> rpath f \<noteq> Some p" "fs2 p \<noteq> None"
    by blast
  then show ?case
    using step nfp Cons.hyps(2) [symmetric] q'(2) by (auto simp: tmp1 simp del: length_items)
qed

text \<open>C31 With no \<open>max_files\<close> setting each rotation makes the record one longer, and with ten entries
  the rotation never returns: the last \<open>addMv\<close> waits for room in a queue only this thread
  empties.\<close>

theorem rotate_files_blocks:
  assumes inv: "circular_inv (rotatedFiles ft)" "capacity (rotatedFiles ft) = MAX_ROTATED_FILES"
    and paths: "\<forall>f \<in> set (items (rotatedFiles ft)). rpath f \<noteq> Some (myPath ft)"
    and opts: "max_files (filerotation ft) = 0" and cur: "files ft (myPath ft) \<noteq> None"
  shows "if length (items (rotatedFiles ft)) = MAX_ROTATED_FILES then rotate_files ft = Inl WouldBlock
    else \<exists>ft'. rotate_files ft = Inr ft' \<and> circular_inv (rotatedFiles ft') \<and>
      capacity (rotatedFiles ft') = MAX_ROTATED_FILES \<and>
      length (items (rotatedFiles ft')) = length (items (rotatedFiles ft)) + 1 \<and>
      (\<forall>f \<in> set (items (rotatedFiles ft')). rpath f \<noteq> Some (myPath ft'))"
proof -
  define p q where "p = myPath ft" and "q = rotatedFiles ft"
  have room: "length (items (new_circular MAX_ROTATED_FILES rotatedFile_empty)) + length (items q) \<le>
      capacity (new_circular MAX_ROTATED_FILES rotatedFile_empty)"
    using length_items_le [OF inv(1)] inv(2) by (simp add: q_def new_record)
  obtain q1 tmp fs where loop: "rotate_loop (filerotation ft) p (nat (tw_remaining q)) q (new_circular MAX_ROTATED_FILES rotatedFile_empty) (files ft) =
      Inr (q1, tmp, fs)" "circular_inv tmp" "capacity tmp = MAX_ROTATED_FILES" "length (items tmp) = length (items q)"
    "\<forall>f \<in> set (items tmp). rpath f \<noteq> Some p" "fs p \<noteq> None"
    using rotate_loop_all [OF inv(1) new_record(1) [of rotatedFile_empty] room [unfolded q_def] opts _ paths,
        of "files ft" "nat (tw_remaining q)"] cur
    by (auto simp: new_record p_def q_def simp del: length_items)
  have "rpath (rotatedFile_new p 1) \<noteq> Some p" by (simp add: rotatedFile_new_def strRotateName_def)
  then show ?thesis
    using rotate_files_after_loop [OF loop(1,6,2,3) [unfolded p_def q_def]] loop(4,5) length_items_le [OF inv(1)] inv(2)
    by (auto simp: p_def q_def simp del: length_items split: if_splits)
qed

definition full_record :: "rotatedFile circular" where
  "full_record = \<lparr>sema_cnt = 0, sema_size = 10, revd = False, enabled = True, nextIn = 9, nextOut = 0,
     csize = 10, cells = replicate 10 rotatedFile_empty\<rparr>"

lemma rotate_files_blocks_witness:
  "rotate_files ((demo_dir rotationOpts_new)\<lparr>rotatedFiles := full_record\<rparr>) = Inl WouldBlock"
proof -
  have inv: "circular_inv full_record" "capacity full_record = MAX_ROTATED_FILES"
    and rem: "tw_remain full_record = 10"
    by (simp_all add: full_record_def circular_inv_def tw_remain_def countNoBlock_def slot_def
        capacity_def MAX_ROTATED_FILES_def)
  have "set (items full_record) \<subseteq> {rotatedFile_empty}"
    by (auto simp: items_def full_record_def slot_def tw_remain_def countNoBlock_def)
  then have "\<forall>f \<in> set (items full_record). rpath f \<noteq> Some [108]"
    by (auto simp: rotatedFile_empty_def)
  then show ?thesis
    using rotate_files_blocks [of "(demo_dir rotationOpts_new)\<lparr>rotatedFiles := full_record\<rparr>"] inv rem
    by (simp add: rotationOpts_copy_def rotationOpts_new_def MAX_ROTATED_FILES_def)
qed

section \<open>Finding the files at start\<close>

lemma check_loop_spec:
  assumes "circular_inv q" "1 \<le> n" "length (items q) + (Suc k - n) < capacity q" "n \<le> Suc k"
    and "k < MAX_ROTATED_FILES"
    and "\<And>j. n \<le> j \<Longrightarrow> j \<le> k \<Longrightarrow> fs (rot_name p j) \<noteq> None"
    and "fs_stat (strRotateName (Some p) (Suc k)) fs = None"
  shows "\<exists>q' es. check_loop p n q tot fs =
      Inr (q', tot + sum_list (map (\<lambda>j. word_of_nat (length (the (fs (rot_name p j))))) [n..<Suc k])) \<and>
    circular_inv q' \<and> capacity q' = capacity q \<and> items q' = items q @ es \<and>
    rot_entries p [n..<Suc k] es"
  using assms
proof (induction "Suc k - n" arbitrary: n q tot)
  case 0
  then have "n = Suc k" by simp
  with 0 show ?case
    by (subst check_loop.simps) (simp add: rotatedFile_new_def rot_entries_def)
next
  case (Suc m)
  then have n: "n \<le> k" by simp
  then obtain c where c: "fs (rot_name p n) = Some c" using Suc.prems(6) [of n] by auto
  define f where "f = (rotatedFile_new p n)\<lparr>rsize := word_of_nat (length c)\<rparr>"
  have name: "strRotateName (Some p) n = Some (rot_name p n)"
    using n Suc.prems by (intro strRotateName_eq) auto
  obtain q1 where add: "tw_addMv rotatedFile_moved f q = Inr (rotatedFile_moved f, q1)"
    and q1: "circular_inv q1" "capacity q1 = capacity q" "items q1 = items q @ [f]"
    using tw_addMv_room [OF Suc.prems(1), of rotatedFile_moved f] Suc.prems(3) n
    by (auto simp del: length_items)
  have step: "check_loop p n q tot fs = check_loop p (n + 1) q1 (tot + word_of_nat (length c)) fs"
    using add c name
    by (subst check_loop.simps) (simp add: Let_def rotatedFile_new_def fs_stat_def f_def)
  have "m = Suc k - (n + 1)" "length (items q1) + (Suc k - (n + 1)) < capacity q1"
    using Suc.hyps(2) Suc.prems(3) n by (simp_all add: q1 del: length_items)
  from Suc.hyps(1) [of "n + 1" q1 "tot + word_of_nat (length c)", OF this(1) q1(1) _ this(2)]
  obtain q' es where IH: "check_loop p (n + 1) q1 (tot + word_of_nat (length c)) fs =
      Inr (q', tot + word_of_nat (length c) +
        sum_list (map (\<lambda>j. word_of_nat (length (the (fs (rot_name p j))))) [n + 1..<Suc k]))"
    "circular_inv q'" "capacity q' = capacity q1" "items q' = items q1 @ es"
    "rot_entries p [n + 1..<Suc k] es"
    using Suc.prems(5-7) n by auto
  have up: "[n..<Suc k] = n # [n + 1..<Suc k]" using n by (simp add: upt_conv_Cons del: upt_Suc)
  have "rot_entries p [n..<Suc k] (f # es)"
    using IH(5) unfolding up by (simp add: rot_entries_def f_def rotatedFile_new_def del: upt_Suc)
  then show ?case
    unfolding step IH(1) up using IH(2-4) q1 c
    by (intro exI [of _ q'] exI [of _ "f # es"]) (simp add: add.assoc del: upt_Suc)
qed

text \<open>C28 At start \<open>check_files\<close> finds exactly the files \<open>.1\<close> to \<open>.k\<close> that are there without a gap,
  records them highest first, adds up their sizes, and asks for a rotation when the current
  file is over its limit or all of them together are over \<open>max_total_size\<close>.\<close>

theorem check_files_finds:
  assumes q: "circular_inv (rotatedFiles ft)" "capacity (rotatedFiles ft) = MAX_ROTATED_FILES"
    and k: "k < MAX_ROTATED_FILES" and cur: "files ft (myPath ft) = Some c"
    and ex: "\<And>j. 1 \<le> j \<Longrightarrow> j \<le> k \<Longrightarrow> files ft (rot_name (myPath ft) j) \<noteq> None"
    and gap: "k + 1 < MAX_ROTATED_FILES \<Longrightarrow> files ft (rot_name (myPath ft) (k + 1)) = None"
  defines "tot \<equiv> word_of_nat (length c) +
      sum_list (map (\<lambda>j. word_of_nat (length (the (files ft (rot_name (myPath ft) j))))) [1..<Suc k])"
  shows "\<exists>ft'. check_files ft =
      Inr ((max_file_size (filerotation ft) \<noteq> 0 \<and> unat (max_file_size (filerotation ft)) < length c) \<or>
           max_total_size (filerotation ft) < tot, ft') \<and>
    rot_inv k ft' \<and> files ft' = files ft \<and> all_files_size ft' = tot \<and>
    current_size ft' = word_of_nat (length c)"
proof -
  define p where "p = myPath ft"
  define q0 where "q0 = tw_clear (Some rotatedFile_empty) (rotatedFiles ft)"
  have q0: "circular_inv q0" "items q0 = []" "capacity q0 = MAX_ROTATED_FILES"
    using tw_clear_spec [OF q(1), of "Some rotatedFile_empty"] q(2) by (simp_all add: q0_def)
  have nx: "fs_stat (strRotateName (Some p) (Suc k)) (files ft) = None"
    using gap strRotateName_eq [of "Suc k" p] strRotateName_None [of "Suc k" p]
    by (cases "Suc k < MAX_ROTATED_FILES") (simp_all add: fs_stat_def p_def)
  have room: "length (items q0) + (Suc k - 1) < capacity q0" using k by (simp add: q0)
  obtain q' es where loop: "check_loop p 1 q0 (word_of_nat (length c)) (files ft) = Inr (q', tot)"
    "circular_inv q'" "capacity q' = MAX_ROTATED_FILES" "items q' = es" "rot_entries p [1..<Suc k] es"
    using check_loop_spec [of q0 1 k "files ft" p "word_of_nat (length c)", OF q0(1) _ room _ k _ nx] ex
    by (auto simp: q0 p_def tot_def simp del: upt_Suc)
  have "rot_entries p (rev [1..<Suc k]) (rev es)"
    using loop(5) by (simp add: rot_entries_def rev_map [symmetric] del: upt_Suc)
  moreover have "circular_inv (tw_reverse q') \<and> items (tw_reverse q') = rev es \<and>
      capacity (tw_reverse q') = MAX_ROTATED_FILES"
    using tw_reverse_spec [OF loop(2)] loop(3,4) by simp
  ultimately show ?thesis
    using cur loop(1) ex
    by (simp add: check_files_def q0_def [symmetric] p_def [symmetric] fs_stat_def rot_inv_def
        del: upt_Suc)
qed

theorem check_files_finds_witness:
  "\<exists>ft'. check_files (demo_dir demo_opts) = Inr (True, ft') \<and> rot_inv 2 ft' \<and> all_files_size ft' = 5"
proof -
  have inv: "rot_inv 2 (demo_dir demo_opts)" by (rule demo_dir_inv)
  have n: "rot_name [108] (Suc 0) = [108, 46, 49]" "rot_name [108] 2 = [108, 46, 50]"
    "rot_name [108] 3 = [108, 46, 51]" by (simp_all add: rot_name_def)
  have up: "[Suc 0..<3] = [Suc 0, 2]" by (simp add: upt_rec)
  have ex: "\<And>j. 1 \<le> j \<Longrightarrow> j \<le> 2 \<Longrightarrow> files (demo_dir demo_opts) (rot_name (myPath (demo_dir demo_opts)) j) \<noteq> None"
    using inv by (simp add: rot_inv_def)
  have q: "circular_inv (rotatedFiles (demo_dir demo_opts))"
    "capacity (rotatedFiles (demo_dir demo_opts)) = MAX_ROTATED_FILES"
    using inv by (simp_all add: rot_inv_def)
  show ?thesis
    using check_files_finds [OF q, of 2 "[1, 2, 3]"] ex n
    by (auto simp: up MAX_ROTATED_FILES_def demo_opts_def rotationOpts_copy_def rotationOpts_new_def
        simp del: upt_Suc)
qed

end
