(* ===== verification/Format.thy ===== *)
theory Format
  imports Buffers
begin

text \<open>
  \<open>snprintf\<close> as the target formats use it: \<open>%s\<close>, \<open>%d\<close>, \<open>%u\<close> with an optional
  zero flag, width and \<open>l\<close> modifiers, and \<open>%%\<close>. A directive without an argument of
  its kind (formats come from JavaScript, their arguments are fixed) is the fault
  \<open>BadFormat\<close>. Sizes are \<open>size_t\<close>: subtraction wraps at 2^64.
\<close>

datatype parg = PStr bytes | PInt int

fun dec_digits :: "nat \<Rightarrow> bytes" where
  "dec_digits n = (if n < 10 then [48 + word_of_nat n] else dec_digits (n div 10) @ [48 + word_of_nat (n mod 10)])"

declare dec_digits.simps [simp del]

definition dec_int :: "int \<Rightarrow> bytes" where
  "dec_int i = (if i < 0 then 45 # dec_digits (nat (- i)) else dec_digits (nat i))"

definition is_digit :: "u8 \<Rightarrow> bool" where
  "is_digit c \<longleftrightarrow> 48 \<le> c \<and> c \<le> 57"

definition pad :: "bool \<Rightarrow> nat \<Rightarrow> bytes \<Rightarrow> bytes" where
  "pad zero w s = replicate (w - length s) (if zero then 48 else 32) @ s"

text \<open>One directive after its \<open>%\<close>: \<open>zero\<close> and \<open>w\<close> are what was read so far.\<close>

fun directive :: "bytes \<Rightarrow> bool \<Rightarrow> nat \<Rightarrow> parg list \<Rightarrow> (bytes \<times> bytes \<times> parg list) option" where
  "directive [] zero w args = None"
| "directive (c # cs) zero w args =
     (if c = 37 then Some ([37], cs, args)
      else if c = 108 then directive cs zero w args
      else if c = 48 \<and> w = 0 then directive cs True w args
      else if is_digit c then directive cs zero (10 * w + unat (c - 48)) args
      else (case args of
              PStr s # as \<Rightarrow> (if c = 115 then Some (pad False w s, cs, as) else None)
            | PInt i # as \<Rightarrow> (if c = 100 \<or> c = 117 then Some (pad zero w (dec_int i), cs, as) else None)
            | [] \<Rightarrow> None))"

lemma directive_shorter: "directive cs z w as = Some (s, cs', as') \<Longrightarrow> length cs' < length cs"
  by (induction cs z w as rule: directive.induct)
    (auto split: if_splits list.splits parg.splits)

function (sequential) render :: "bytes \<Rightarrow> parg list \<Rightarrow> bytes res" where
  "render [] args = Inr []"
| "render (c # cs) args =
     (if c = 37
      then (case directive cs False 0 args of
              None \<Rightarrow> Inl BadFormat
            | Some (s, cs', args') \<Rightarrow> bindR (render cs' args') (\<lambda>t. Inr (s @ t)))
      else bindR (render cs args) (\<lambda>t. Inr (c # t)))"
  by pat_completeness auto
termination
  by (relation "measure (\<lambda>(cs, args). length cs)") (auto dest: directive_shorter)

text \<open>A format without \<open>%\<close> is its own rendering.\<close>

lemma render_plain: "37 \<notin> set fmt \<Longrightarrow> render fmt args = Inr fmt"
  by (induction fmt) auto

section \<open>size_t and snprintf\<close>

definition size_t_sub :: "nat \<Rightarrow> nat \<Rightarrow> nat" where
  "size_t_sub a b = (a + 2 ^ 64 - b) mod 2 ^ 64"

lemma size_t_sub_le: "b \<le> a \<Longrightarrow> a < 2 ^ 64 \<Longrightarrow> size_t_sub a b = a - b"
proof -
  assume ab: "b \<le> a" "a < 2 ^ 64"
  then have "a + 2 ^ 64 - b = (a - b) + 2 ^ 64" by simp
  moreover have "a - b < 2 ^ 64" using ab(2) by (rule le_less_trans [OF diff_le_self])
  ultimately show "size_t_sub a b = a - b"
    unfolding size_t_sub_def by (metis mod_add_self2 mod_less)
qed

text \<open>Writes at \<open>mem + off\<close> at most \<open>space - 1\<close> characters and a NUL; gives the full length.\<close>

definition snprintf :: "nat \<Rightarrow> nat \<Rightarrow> bytes \<Rightarrow> bytes \<Rightarrow> (nat \<times> bytes) res" where
  "snprintf off space text mem =
     (if space = 0 then Inr (length text, mem)
      else bindR (poke off (take (space - 1) text @ [0]) mem) (\<lambda>mem. Inr (length text, mem)))"

text \<open>The C string a label is used as: it must be terminated inside its block.\<close>

definition label_fmt :: "logLabel \<Rightarrow> bytes res" where
  "label_fmt l =
     (case hbase l of
        None \<Rightarrow> Inl BadPointer
      | Some mem \<Rightarrow> (if 0 \<in> set mem then Inr (cstr mem) else Inl OutOfBounds))"

lemma label_fmt_fromUTF8:
  assumes "0 \<notin> set s" "logLabel_fromUTF8 s (length s) = Inr l"
  shows "label_fmt l = Inr s"
proof -
  obtain l' where "logLabel_fromUTF8 s (length s) = Inr l'" "label_cstr l' = s"
    "\<not> logLabel_isEmpty l'"
    using logLabel_fromUTF8_cstr [OF assms(1)] by blast
  then have l: "label_cstr l = s" "\<not> logLabel_isEmpty l" using assms(2) by auto
  then obtain mem where mem: "hbase l = Some mem"
    by (auto simp: logLabel_isEmpty_def heapBuf_isEmpty_def)
  have "logLabel_setUTF8 s (length s) logLabel_empty = Inr l"
    using assms(2) by (simp add: logLabel_fromUTF8_def)
  then have "mem = s @ [0]"
    using mem
    by (auto simp: logLabel_setUTF8_def heapBuf_memcpy_def peek_def poke_def Let_def
        drop_Cons' drop_replicate split: if_splits)
      (cases "length s"; simp)
  then show ?thesis using l(1) mem by (simp add: label_fmt_def label_cstr_def)
qed

end
