(* ===== verification/Owner.thy ===== *)
theory Owner
  imports FilterApi FileRotation Format
begin

text \<open>
  The part of \<open>GreaseLogger\<close> that its targets and its API share: the keep-alive counters
  of the two event loops (\<open>refGreaseInGrease\<close>, \<open>refFromV8\<close> and their inverses), the
  command and callback queues with their elements, the label tables, the heap of
  \<open>singleLog\<close>s and the free list of master buffers. \<open>uv_async_send\<close> marks a handle as
  pending; several sends before the callback runs are one.
\<close>

section \<open>Sizes\<close>

definition COMMAND_QUEUE_NODE_SIZE :: nat where "COMMAND_QUEUE_NODE_SIZE = 200"
definition INTERNAL_QUEUE_SIZE :: nat where "INTERNAL_QUEUE_SIZE = 200"
definition V8_LOG_CALLBACK_QUEUE_SIZE :: nat where "V8_LOG_CALLBACK_QUEUE_SIZE = 10"
definition NUM_BANKS :: nat where "NUM_BANKS = 4"
definition DEFAULT_BUFFER_SIZE :: nat where "DEFAULT_BUFFER_SIZE = 2000"
definition LOGGER_DEFAULT_CHUNK_SIZE :: nat where "LOGGER_DEFAULT_CHUNK_SIZE = 1500"
definition PRIMARY_BUFFER_ENTRIES :: nat where "PRIMARY_BUFFER_ENTRIES = 100"
definition MAX_LOG_MESSAGE_SIZE :: nat where "MAX_LOG_MESSAGE_SIZE = 65536"

lemmas queue_sizes =
  COMMAND_QUEUE_NODE_SIZE_def INTERNAL_QUEUE_SIZE_def V8_LOG_CALLBACK_QUEUE_SIZE_def NUM_BANKS_def
  DEFAULT_BUFFER_SIZE_def PRIMARY_BUFFER_ENTRIES_def MAX_LOG_MESSAGE_SIZE_def

section \<open>Elements of the queues\<close>

datatype async =
  asyncInternalCommand | asyncExternalCommand | asyncV8LogCallback | asyncTargetCallback
  | asyncRefLogger | asyncUnrefLogger

datatype nodeCommand = NOOP | GLOBAL_FLUSH | SHUTDOWN

datatype internalCommand =
  INTERNALNOOP | NEW_LOG | TARGET_ROTATE_BUFFER | WRITE_TARGET_OVERFLOW | INTERNAL_SHUTDOWN

record internalCmdReq =
  icmd :: internalCommand
  icmd_d :: u32
  icmd_aux :: "nat option"    \<comment> \<open>a \<open>singleLog *\<close>\<close>
  icmd_auxInt :: int

definition internalCmdReq_new :: "internalCommand \<Rightarrow> u32 \<Rightarrow> internalCmdReq" where
  "internalCmdReq_new c d = \<lparr>icmd = c, icmd_d = d, icmd_aux = None, icmd_auxInt = 0\<rparr>"

text \<open>Moving a request copies it.\<close>

definition internalCmdReq_moved :: "internalCmdReq \<Rightarrow> internalCmdReq" where
  "internalCmdReq_moved r = r"

record nodeCmdReq =
  ncmd :: nodeCommand
  ncmd_errno :: int
  ncallback :: "nat option"

definition nodeCmdReq_empty :: nodeCmdReq where
  "nodeCmdReq_empty = \<lparr>ncmd = NOOP, ncmd_errno = 0, ncallback = None\<rparr>"

definition nodeCmdReq_moved :: "nodeCmdReq \<Rightarrow> nodeCmdReq" where
  "nodeCmdReq_moved r = r\<lparr>ncallback := None\<rparr>"

text \<open>\<open>writeCBData\<close>: \<open>wt\<close> is the target's address, \<open>wb\<close> the number of one of its banks.\<close>

record writeCBData =
  woverflow :: "overflowWriteOut option"
  wt :: "nat option"
  wb :: "nat option"
  nocallback :: bool

definition writeCBData_empty :: writeCBData where
  "writeCBData_empty = \<lparr>woverflow = None, wt = None, wb = None, nocallback = False\<rparr>"

definition writeCBData_new :: "nat \<Rightarrow> nat \<Rightarrow> writeCBData" where
  "writeCBData_new t b = \<lparr>woverflow = None, wt = Some t, wb = Some b, nocallback = False\<rparr>"

definition newAsOverflow :: "nat \<Rightarrow> overflowWriteOut \<Rightarrow> writeCBData" where
  "newAsOverflow t w = \<lparr>woverflow = Some w, wt = Some t, wb = None, nocallback = False\<rparr>"

definition writeCBData_moved :: "writeCBData \<Rightarrow> writeCBData" where
  "writeCBData_moved d = d\<lparr>woverflow := None\<rparr>"

section \<open>State\<close>

record owner = filters +
  needV8 :: nat
  needGreaseThread :: nat
  flushTimerOn :: bool           \<comment> \<open>\<open>flushTimer\<close> referenced and started\<close>
  v8Ref :: bool                  \<comment> \<open>\<open>asyncRefLogger\<close> referenced in the V8 loop\<close>
  pending :: "async set"
  internalCmdQueue :: "internalCmdReq circular"
  nodeCmdQueue :: "nodeCmdReq circular"
  v8LogCallbacks :: "writeCBData circular"
  masterBufferAvail :: "nat circular"
  tagLabels :: "u32 \<rightharpoonup> logLabel"
  originLabels :: "u32 \<rightharpoonup> logLabel"
  levelLabels :: "u32 \<rightharpoonup> logLabel"
  logs :: log_heap
  nextLog :: nat                 \<comment> \<open>addresses from here on are free\<close>
  bufferSize :: nat
  chunkSize :: nat
  header_buffer :: bytes         \<comment> \<open>the two static buffers of \<open>logTarget::write\<close> in the logger thread\<close>
  footer_buffer :: bytes
  junk :: "nat \<Rightarrow> u8"            \<comment> \<open>what fresh memory holds\<close>

definition uv_async_send :: "async \<Rightarrow> 'z owner_scheme \<Rightarrow> 'z owner_scheme" where
  "uv_async_send h ow = ow\<lparr>pending := insert h (pending ow)\<rparr>"

definition new_log :: "singleLog \<Rightarrow> 'z owner_scheme \<Rightarrow> nat \<times> 'z owner_scheme" where
  "new_log l ow = (nextLog ow, ow\<lparr>logs := (logs ow)(nextLog ow \<mapsto> l), nextLog := nextLog ow + 1\<rparr>)"

definition delete_log :: "nat \<Rightarrow> 'z owner_scheme \<Rightarrow> 'z owner_scheme" where
  "delete_log a ow = ow\<lparr>logs := (logs ow)(a := None)\<rparr>"

definition log_incRef :: "nat \<Rightarrow> 'z owner_scheme \<Rightarrow> 'z owner_scheme res" where
  "log_incRef a ow =
     bindR (deref (logs ow) a) (\<lambda>l. Inr (ow\<lparr>logs := (logs ow)(a \<mapsto> incRef l)\<rparr>))"

definition log_decRef :: "nat \<Rightarrow> 'z owner_scheme \<Rightarrow> 'z owner_scheme res" where
  "log_decRef a ow =
     bindR (deref (logs ow) a) (\<lambda>l. Inr (ow\<lparr>logs := (logs ow)(a := decRef l)\<rparr>))"

definition delete_overflow :: "overflowWriteOut \<Rightarrow> 'z owner_scheme \<Rightarrow> 'z owner_scheme res" where
  "delete_overflow w ow = bindR (overflow_delete w (logs ow)) (\<lambda>h. Inr (ow\<lparr>logs := h\<rparr>))"

section \<open>Keeping the event loops alive\<close>

definition startFlushTimer :: "'z owner_scheme \<Rightarrow> 'z owner_scheme" where
  "startFlushTimer ow = ow\<lparr>flushTimerOn := True\<rparr>"

definition stopFlushTimer :: "'z owner_scheme \<Rightarrow> 'z owner_scheme" where
  "stopFlushTimer ow = ow\<lparr>flushTimerOn := False\<rparr>"

definition refGreaseInGrease :: "'z owner_scheme \<Rightarrow> 'z owner_scheme" where
  "refGreaseInGrease ow =
     (let ow = (if needGreaseThread ow = 0 then startFlushTimer ow else ow)
      in ow\<lparr>needGreaseThread := needGreaseThread ow + 1\<rparr>)"

definition unrefGreaseInGrease :: "'z owner_scheme \<Rightarrow> 'z owner_scheme res" where
  "unrefGreaseInGrease ow =
     (if \<not> needGreaseThread ow > 0 then Inl AssertFailed
      else let ow = ow\<lparr>needGreaseThread := needGreaseThread ow - 1\<rparr>
           in Inr (if needGreaseThread ow < 1 then stopFlushTimer ow else ow))"

definition refFromV8 :: "'z owner_scheme \<Rightarrow> 'z owner_scheme" where
  "refFromV8 ow =
     (let ow = (if needV8 ow = 0 then uv_async_send asyncRefLogger ow else ow)
      in ow\<lparr>needV8 := needV8 ow + 1\<rparr>)"

definition unrefFromV8 :: "'z owner_scheme \<Rightarrow> 'z owner_scheme res" where
  "unrefFromV8 ow =
     (if \<not> needV8 ow > 0 then Inl AssertFailed
      else let ow = ow\<lparr>needV8 := needV8 ow - 1\<rparr>
           in Inr (if needV8 ow < 1 then uv_async_send asyncUnrefLogger ow else ow))"

definition unrefFromV8_inV8 :: "'z owner_scheme \<Rightarrow> 'z owner_scheme res" where
  "unrefFromV8_inV8 ow =
     (if \<not> needV8 ow > 0 then Inl AssertFailed
      else let ow = ow\<lparr>needV8 := needV8 ow - 1\<rparr>
           in Inr (if needV8 ow = 0 then ow\<lparr>v8Ref := False\<rparr> else ow))"

definition refCb_Logger :: "'z owner_scheme \<Rightarrow> 'z owner_scheme" where
  "refCb_Logger ow = ow\<lparr>v8Ref := True\<rparr>"

definition unrefCb_Logger :: "'z owner_scheme \<Rightarrow> 'z owner_scheme" where
  "unrefCb_Logger ow = ow\<lparr>v8Ref := False\<rparr>"

section \<open>Labels\<close>

definition add_label :: "jsval list \<Rightarrow> (u32 \<Rightarrow> logLabel \<Rightarrow> 'z owner_scheme \<Rightarrow> 'z owner_scheme) \<Rightarrow>
    string \<Rightarrow> 'z owner_scheme \<Rightarrow> (jsval js \<times> 'z owner_scheme) res" where
  "add_label info put err ow =
     (if length info > 1
      then (case (toUint32 (jsArg info 0), toStr (jsArg info 1)) of
              (Some i, Some s) \<Rightarrow>
                bindR (logLabel_fromUTF8 s (length s)) (\<lambda>l. Inr (Return JUndefined, put i l ow))
            | _ \<Rightarrow> Inr (Throw err, ow))
      else Inr (Throw err, ow))"

definition AddTagLabel :: "jsval list \<Rightarrow> 'z owner_scheme \<Rightarrow> (jsval js \<times> 'z owner_scheme) res" where
  "AddTagLabel info = add_label info (\<lambda>i l ow. ow\<lparr>tagLabels := (tagLabels ow)(i \<mapsto> l)\<rparr>)
     ''addTagLabel: bad parameters''"

definition AddOriginLabel :: "jsval list \<Rightarrow> 'z owner_scheme \<Rightarrow> (jsval js \<times> 'z owner_scheme) res" where
  "AddOriginLabel info = add_label info (\<lambda>i l ow. ow\<lparr>originLabels := (originLabels ow)(i \<mapsto> l)\<rparr>)
     ''addOriginLabel: bad parameters''"

definition AddLevelLabel :: "jsval list \<Rightarrow> 'z owner_scheme \<Rightarrow> (jsval js \<times> 'z owner_scheme) res" where
  "AddLevelLabel info = add_label info (\<lambda>i l ow. ow\<lparr>levelLabels := (levelLabels ow)(i \<mapsto> l)\<rparr>)
     ''addLevelLabel: bad parameters''"

section \<open>The interface of a keep-alive counter\<close>

text \<open>
  Both counters have the same contract: taking a reference adds one, dropping one is
  defined only while some are held, and what keeps the loop alive is on exactly while the
  count is positive.
\<close>

locale ref_counter =
  fixes cnt :: "'s \<Rightarrow> nat" and alive :: "'s \<Rightarrow> bool"
    and ref :: "'s \<Rightarrow> 's" and unref :: "'s \<Rightarrow> 's res"
  assumes ref_cnt: "cnt (ref s) = cnt s + 1"
    and ref_alive: "(0 < cnt s \<longrightarrow> alive s) \<Longrightarrow> alive (ref s)"
    and unref_zero: "cnt s = 0 \<Longrightarrow> unref s = Inl AssertFailed"
    and unref_pos: "0 < cnt s \<Longrightarrow> \<exists>s'. unref s = Inr s' \<and> cnt s' = cnt s - 1 \<and>
      (1 < cnt s \<longrightarrow> alive s' = alive s) \<and> (cnt s = 1 \<longrightarrow> \<not> alive s')"
begin

definition consistent :: "'s \<Rightarrow> bool" where
  "consistent s \<longleftrightarrow> (alive s \<longleftrightarrow> 0 < cnt s)"

lemma ref_consistent: "consistent s \<Longrightarrow> consistent (ref s)"
  using ref_cnt [of s] ref_alive [of s] by (simp add: consistent_def)

lemma unref_consistent:
  assumes "consistent s" "unref s = Inr s'"
  shows "consistent s' \<and> cnt s = cnt s' + 1"
proof -
  have pos: "0 < cnt s" using assms(2) unref_zero [of s] by (cases "cnt s") auto
  from unref_pos [OF pos] assms(2) have "cnt s' = cnt s - 1"
    "1 < cnt s \<longrightarrow> alive s' = alive s" "cnt s = 1 \<longrightarrow> \<not> alive s'" by auto
  with pos assms(1) show ?thesis by (cases "cnt s = 1") (auto simp: consistent_def)
qed

lemma ref_unref: "\<exists>s'. unref (ref s) = Inr s' \<and> cnt s' = cnt s"
  using unref_pos [of "ref s"] ref_cnt [of s] by auto

end

text \<open>The grease loop lives by the flush timer; the V8 loop by a handle whose reference is
  taken by a pending \<open>asyncRefLogger\<close> callback.\<close>

interpretation greaseRef: ref_counter needGreaseThread flushTimerOn refGreaseInGrease unrefGreaseInGrease
  by unfold_locales
    (auto simp: refGreaseInGrease_def unrefGreaseInGrease_def startFlushTimer_def stopFlushTimer_def
      Let_def)

section \<open>The logger's part at construction\<close>

definition owner_init :: "(nat \<Rightarrow> u8) \<Rightarrow> nat \<Rightarrow> nat \<Rightarrow> owner" where
  "owner_init jk buffer_size chunk_size =
     filters.extend (no_filters 0 False)
       \<lparr>needV8 = 0, needGreaseThread = 0, flushTimerOn = False, v8Ref = False, pending = {},
        internalCmdQueue = new_circular INTERNAL_QUEUE_SIZE (internalCmdReq_new INTERNALNOOP 0),
        nodeCmdQueue = new_circular COMMAND_QUEUE_NODE_SIZE nodeCmdReq_empty,
        v8LogCallbacks = new_circular V8_LOG_CALLBACK_QUEUE_SIZE writeCBData_empty,
        masterBufferAvail = new_circular PRIMARY_BUFFER_ENTRIES 0,
        tagLabels = Map.empty, originLabels = Map.empty, levelLabels = Map.empty,
        logs = Map.empty, nextLog = 0, bufferSize = buffer_size, chunkSize = chunk_size,
        header_buffer = replicate GREASE_MAX_PREFIX_HEADER 0,
        footer_buffer = replicate GREASE_MAX_PREFIX_HEADER 0, junk = jk\<rparr>"

lemma owner_init_simps [simp]:
  "needV8 (owner_init jk n c) = 0" "needGreaseThread (owner_init jk n c) = 0"
  "logs (owner_init jk n c) = Map.empty" "pending (owner_init jk n c) = {}"
  "bufferSize (owner_init jk n c) = n" "flushTimerOn (owner_init jk n c) = False"
  "v8Ref (owner_init jk n c) = False" "junk (owner_init jk n c) = jk"
  "header_buffer (owner_init jk n c) = replicate GREASE_MAX_PREFIX_HEADER 0"
  "footer_buffer (owner_init jk n c) = replicate GREASE_MAX_PREFIX_HEADER 0"
  by (simp_all add: owner_init_def filters.defs no_filters_def)

lemma owner_init_queues [simp]:
  "circular_inv (internalCmdQueue (owner_init jk n c))" "items (internalCmdQueue (owner_init jk n c)) = []"
  "capacity (internalCmdQueue (owner_init jk n c)) = INTERNAL_QUEUE_SIZE"
  "circular_inv (v8LogCallbacks (owner_init jk n c))" "items (v8LogCallbacks (owner_init jk n c)) = []"
  "capacity (v8LogCallbacks (owner_init jk n c)) = V8_LOG_CALLBACK_QUEUE_SIZE"
  "circular_inv (masterBufferAvail (owner_init jk n c))" "items (masterBufferAvail (owner_init jk n c)) = []"
  "capacity (masterBufferAvail (owner_init jk n c)) = PRIMARY_BUFFER_ENTRIES"
  using new_circular_spec [of INTERNAL_QUEUE_SIZE "internalCmdReq_new INTERNALNOOP 0"]
    new_circular_spec [of V8_LOG_CALLBACK_QUEUE_SIZE writeCBData_empty]
    new_circular_spec [of PRIMARY_BUFFER_ENTRIES "0::nat"]
  by (simp_all add: owner_init_def filters.defs no_filters_def queue_sizes)

end
