(* ===== verification/Target.thy ===== *)
theory Target
  imports Owner
begin

text \<open>
  \<open>logTarget\<close> and its three kinds (logger.h \<open>ttyTarget\<close>, \<open>fileTarget\<close>,
  \<open>callbackTarget\<close>). A target has four banks; \<open>logBuf *\<close> values are bank numbers.
  Operations take and return the owner (the logger) and the target; \<open>ta\<close> is the
  target's own address. Asynchronous libuv writes are submitted by one operation and
  completed by another: \<open>inflight\<close> holds the banks between the two, \<open>written\<close> what has
  been handed to the device, in order, \<open>delivered\<close> what the JavaScript callback was
  given. Nothing touches a bank's bytes while its write is in flight, so they are taken
  at submission.
\<close>

section \<open>State\<close>

datatype targetKind = TTY | FILE fileState | CALLBACK

record logTarget =
  tdisabled :: bool
  logCallbackSet :: bool
  logCallback :: "nat option"
  tdelim :: delim_data
  banks :: "logBuf list"
  availBuffers :: "nat circular"
  writeOutBuffers :: "nat circular"
  waitingOnCBBuffers :: "nat circular"
  currentBuffer :: nat
  bankSize :: nat
  myId :: u32
  timeFormat :: logLabel
  tagFormat :: logLabel
  originFormat :: logLabel
  levelFormat :: logLabel
  tpreFormat :: logLabel
  tpostFormat :: logLabel
  preMsgFormat :: logLabel
  tkind :: targetKind
  inflight :: "(nat \<times> bool) list"
  ovInflight :: "overflowWriteOut list"
  written :: "bytes list"
  delivered :: "bytes list"

definition bank :: "logTarget \<Rightarrow> nat \<Rightarrow> logBuf" where
  "bank t b = banks t ! b"

definition set_bank :: "nat \<Rightarrow> logBuf \<Rightarrow> logTarget \<Rightarrow> logTarget" where
  "set_bank b x t = t\<lparr>banks := (banks t)[b := x]\<rparr>"

definition current :: "logTarget \<Rightarrow> logBuf" where
  "current t = bank t (currentBuffer t)"

text \<open>The constructor: bank 0 is the current one, the others are available.\<close>

definition logTarget_new :: "(nat \<Rightarrow> u8) \<Rightarrow> nat \<Rightarrow> u32 \<Rightarrow> delim_data \<Rightarrow> targetKind \<Rightarrow> logTarget res" where
  "logTarget_new jk buffer_size i d k =
     bindR (tw_add 1 (new_circular NUM_BANKS 0)) (\<lambda>q.
     bindR (tw_add 2 q) (\<lambda>q.
     bindR (tw_add 3 q) (\<lambda>q.
       Inr \<lparr>tdisabled = False, logCallbackSet = False, logCallback = None, tdelim = d,
            banks = map (\<lambda>n. logBuf_new jk buffer_size n (delim_duplicate d)) [0..<NUM_BANKS],
            availBuffers = q,
            writeOutBuffers = new_circular (NUM_BANKS - 1) 0,
            waitingOnCBBuffers = new_circular (NUM_BANKS - 1) 0,
            currentBuffer = 0, bankSize = buffer_size, myId = i,
            timeFormat = logLabel_empty, tagFormat = logLabel_empty, originFormat = logLabel_empty,
            levelFormat = logLabel_empty, tpreFormat = logLabel_empty, tpostFormat = logLabel_empty,
            preMsgFormat = logLabel_empty, tkind = k, inflight = [], ovInflight = [],
            written = [], delivered = []\<rparr>)))"

section \<open>Settings\<close>

definition isDisableWrites :: "logTarget \<Rightarrow> bool" where
  "isDisableWrites t = tdisabled t"

definition disableWrites :: "bool \<Rightarrow> logTarget \<Rightarrow> logTarget" where
  "disableWrites v t = t\<lparr>tdisabled := v\<rparr>"

definition setTimeFormat :: "bytes \<Rightarrow> nat \<Rightarrow> logTarget \<Rightarrow> logTarget res" where
  "setTimeFormat s len t = bindR (logLabel_setUTF8 s len (timeFormat t)) (\<lambda>l. Inr (t\<lparr>timeFormat := l\<rparr>))"

definition setTagFormat :: "bytes \<Rightarrow> nat \<Rightarrow> logTarget \<Rightarrow> logTarget res" where
  "setTagFormat s len t = bindR (logLabel_setUTF8 s len (tagFormat t)) (\<lambda>l. Inr (t\<lparr>tagFormat := l\<rparr>))"

definition setOriginFormat :: "bytes \<Rightarrow> nat \<Rightarrow> logTarget \<Rightarrow> logTarget res" where
  "setOriginFormat s len t =
     bindR (logLabel_setUTF8 s len (originFormat t)) (\<lambda>l. Inr (t\<lparr>originFormat := l\<rparr>))"

definition setLevelFormat :: "bytes \<Rightarrow> nat \<Rightarrow> logTarget \<Rightarrow> logTarget res" where
  "setLevelFormat s len t =
     bindR (logLabel_setUTF8 s len (levelFormat t)) (\<lambda>l. Inr (t\<lparr>levelFormat := l\<rparr>))"

definition setPreFormat :: "bytes \<Rightarrow> nat \<Rightarrow> logTarget \<Rightarrow> logTarget res" where
  "setPreFormat s len t = bindR (logLabel_setUTF8 s len (tpreFormat t)) (\<lambda>l. Inr (t\<lparr>tpreFormat := l\<rparr>))"

definition setPostFormat :: "bytes \<Rightarrow> nat \<Rightarrow> logTarget \<Rightarrow> logTarget res" where
  "setPostFormat s len t = bindR (logLabel_setUTF8 s len (tpostFormat t)) (\<lambda>l. Inr (t\<lparr>tpostFormat := l\<rparr>))"

definition setPreMsgFormat :: "bytes \<Rightarrow> nat \<Rightarrow> logTarget \<Rightarrow> logTarget res" where
  "setPreMsgFormat s len t =
     bindR (logLabel_setUTF8 s len (preMsgFormat t)) (\<lambda>l. Inr (t\<lparr>preMsgFormat := l\<rparr>))"

definition setCallback :: "nat option \<Rightarrow> logTarget \<Rightarrow> logTarget" where
  "setCallback func t =
     (if func \<noteq> None then t\<lparr>logCallbackSet := True, logCallback := func\<rparr> else t)"

section \<open>Header and footer of a line\<close>

text \<open>
  The state of \<open>putsHeader\<close> is \<open>space\<close> and the buffer; each piece is put at
  \<open>mem + (remain - space)\<close> and \<open>space\<close> shrinks by the piece's full length.
\<close>

definition put_piece :: "nat \<Rightarrow> bytes \<Rightarrow> nat \<times> bytes \<Rightarrow> (nat \<times> bytes) res" where
  "put_piece remain text = (\<lambda>(space, mem).
     bindR (snprintf (size_t_sub remain space) space text mem) (\<lambda>(n, mem).
       Inr (size_t_sub space n, mem)))"

definition put_fmt :: "nat \<Rightarrow> logLabel \<Rightarrow> parg list \<Rightarrow> nat \<times> bytes \<Rightarrow> (nat \<times> bytes) res" where
  "put_fmt remain fmt args st =
     bindR (label_fmt fmt) (\<lambda>f. bindR (render f args) (\<lambda>text. put_piece remain text st))"

text \<open>\<open>"--"\<close>\<close>

definition empty_label :: bytes where "empty_label = [45, 45]"

definition label_for :: "u32 \<Rightarrow> (u32 \<rightharpoonup> logLabel) \<Rightarrow> logLabel option" where
  "label_for i tab =
     (case tab i of Some l \<Rightarrow> (if logLabel_length l > 0 then Some l else None) | None \<Rightarrow> None)"

definition label_or_empty :: "u32 \<Rightarrow> (u32 \<rightharpoonup> logLabel) \<Rightarrow> bytes res" where
  "label_or_empty i tab =
     (case (if i > 0 then label_for i tab else None) of
        Some l \<Rightarrow> label_fmt l | None \<Rightarrow> Inr empty_label)"

definition putsHeader ::
    "int \<times> int \<Rightarrow> bytes \<Rightarrow> nat \<Rightarrow> logMeta \<Rightarrow> Filter option \<Rightarrow> 'z owner_scheme \<Rightarrow> logTarget \<Rightarrow>
       (nat \<times> bytes) res" where
  "putsHeader clk mem remain m fil ow t =
     bindR (case fil of
              Some f \<Rightarrow> (if \<not> logLabel_isEmpty (preFormat f)
                        then put_fmt remain (preFormat f) [] (remain, mem) else Inr (remain, mem))
            | None \<Rightarrow> Inr (remain, mem)) (\<lambda>st.
     bindR (if logLabel_length (tpreFormat t) > 0 \<and> fst st > 0
            then put_fmt remain (tpreFormat t) [] st else Inr st) (\<lambda>st.
     bindR (if logLabel_length (timeFormat t) > 0 \<and> fst st > 0
            then put_fmt remain (timeFormat t) [PInt (fst clk), PInt (snd clk)] st else Inr st) (\<lambda>st.
     bindR (if logLabel_length (levelFormat t) > 0 \<and> fst st > 0
            then (case label_for (level m) (levelLabels ow) of
                    Some l \<Rightarrow> bindR (label_fmt l) (\<lambda>s. put_fmt remain (levelFormat t) [PStr s] st)
                  | None \<Rightarrow> Inr st)
            else Inr st) (\<lambda>st.
     bindR (if logLabel_length (tagFormat t) > 0 \<and> fst st > 0
            then bindR (label_or_empty (tag m) (tagLabels ow)) (\<lambda>s.
                   put_fmt remain (tagFormat t) [PStr s] st)
            else Inr st) (\<lambda>st.
     bindR (if logLabel_length (originFormat t) > 0 \<and> fst st > 0
            then bindR (label_or_empty (origin m) (originLabels ow)) (\<lambda>s.
                   put_fmt remain (originFormat t) [PStr s] st)
            else Inr st) (\<lambda>st.
     bindR (if logLabel_length (preMsgFormat t) > 0 \<and> fst st > 0
            then put_fmt remain (preMsgFormat t) [] st else Inr st) (\<lambda>st.
     bindR (case fil of
              Some f \<Rightarrow> (if \<not> logLabel_isEmpty (postFormatPreMsg f)
                        then put_fmt remain (postFormatPreMsg f) [] st else Inr st)
            | None \<Rightarrow> Inr st) (\<lambda>(space, mem).
       Inr (size_t_sub remain space, mem)))))))))"

text \<open>Both footer formats are put at the start of the buffer.\<close>

definition put_start :: "logLabel \<Rightarrow> nat \<times> bytes \<Rightarrow> (nat \<times> bytes) res" where
  "put_start fmt = (\<lambda>(space, mem).
     bindR (label_fmt fmt) (\<lambda>f. bindR (render f []) (\<lambda>text.
     bindR (snprintf 0 space text mem) (\<lambda>(n, mem). Inr (size_t_sub space n, mem)))))"

definition putsFooter :: "bytes \<Rightarrow> nat \<Rightarrow> Filter option \<Rightarrow> logTarget \<Rightarrow> (nat \<times> bytes) res" where
  "putsFooter mem remain fil t =
     bindR (case fil of
              Some f \<Rightarrow> (if \<not> logLabel_isEmpty (postFormat f) then put_start (postFormat f) (remain, mem)
                        else Inr (remain, mem))
            | None \<Rightarrow> Inr (remain, mem)) (\<lambda>st.
     bindR (if logLabel_length (tpostFormat t) > 0 \<and> fst st > 0
            then put_start (tpostFormat t) st else Inr st) (\<lambda>(space, mem).
       Inr (size_t_sub remain space, mem)))"

section \<open>Handing buffers back\<close>

definition clear_bank :: "nat \<Rightarrow> logTarget \<Rightarrow> logTarget" where
  "clear_bank b t = set_bank b (logBuf_clear (bank t b)) t"

definition finalizeV8Callback :: "nat \<Rightarrow> logTarget \<Rightarrow> logTarget" where
  "finalizeV8Callback b t =
     (let t = clear_bank b t
      in t\<lparr>availBuffers := snd (tw_addIfRoom b (availBuffers t))\<rparr>)"

text \<open>\<open>_doV8Callback\<close>: the JavaScript function gets the text; the data is used up.\<close>

definition doV8Callback ::
    "writeCBData \<Rightarrow> 'z owner_scheme \<Rightarrow> logTarget \<Rightarrow> ('z owner_scheme \<times> logTarget) res" where
  "doV8Callback data ow t =
     (case wb data of
        Some b \<Rightarrow>
          Inr (ow, finalizeV8Callback b (t\<lparr>delivered := delivered t @ [logBuf_text (bank t b)]\<rparr>))
      | None \<Rightarrow>
          (case woverflow data of
             Some w \<Rightarrow>
               bindR (totalSize (logs ow) w) (\<lambda>l.
               bindR (copyAllTo (logs ow) w (malloc_block (junk ow) l)) (\<lambda>d.
               bindR (delete_overflow w ow) (\<lambda>ow.
                 Inr (ow, t\<lparr>delivered := delivered t @ [d]\<rparr>))))
           | None \<Rightarrow> Inr (ow, t)))"

definition give_back :: "nat \<Rightarrow> logTarget \<Rightarrow> logTarget res" where
  "give_back b t =
     (let t = clear_bank b t
      in bindR (tw_add b (availBuffers t)) (\<lambda>q. Inr (t\<lparr>availBuffers := q\<rparr>)))"

definition returnBuffer ::
    "nat \<Rightarrow> nat \<Rightarrow> bool \<Rightarrow> bool \<Rightarrow> 'z owner_scheme \<Rightarrow> logTarget \<Rightarrow> ('z owner_scheme \<times> logTarget) res" where
  "returnBuffer ta b sync nocb ow t =
     (let isempty = logBuf_isEmpty (bank t b)
      in bindR (if \<not> isempty then unrefGreaseInGrease ow else Inr ow) (\<lambda>ow.
         if \<not> nocb \<and> logCallbackSet t \<and> \<not> isempty
         then let cbdat = writeCBData_new ta b
              in if sync then doV8Callback cbdat ow t
                 else (case tw_addMvIfRoom writeCBData_moved cbdat (v8LogCallbacks ow) of
                         (False, _, _) \<Rightarrow> bindR (give_back b t) (\<lambda>t. Inr (ow, t))
                       | (True, _, q) \<Rightarrow>
                           Inr (uv_async_send asyncV8LogCallback (refFromV8 (ow\<lparr>v8LogCallbacks := q\<rparr>)), t))
         else bindR (give_back b t) (\<lambda>t. Inr (ow, t))))"

text \<open>
  The overload for an overflow. \<open>cbdat\<close> owns it until the queue takes it, and its
  destructor frees what it still owns at the end.
\<close>

definition writeCBData_delete :: "writeCBData \<Rightarrow> 'z owner_scheme \<Rightarrow> 'z owner_scheme res" where
  "writeCBData_delete d ow = (case woverflow d of Some w \<Rightarrow> delete_overflow w ow | None \<Rightarrow> Inr ow)"

definition returnBuffer_overflow ::
    "nat \<Rightarrow> overflowWriteOut \<Rightarrow> bool \<Rightarrow> bool \<Rightarrow> 'z owner_scheme \<Rightarrow> logTarget \<Rightarrow>
       ('z owner_scheme \<times> logTarget) res" where
  "returnBuffer_overflow ta w sync nocb ow t =
     bindR (unrefGreaseInGrease ow) (\<lambda>ow.
       if \<not> nocb \<and> logCallbackSet t
       then let cbdat = newAsOverflow ta w;
                (_, cbdat, q) = tw_addMvIfRoom writeCBData_moved cbdat (v8LogCallbacks ow);
                ow = ow\<lparr>v8LogCallbacks := q\<rparr>
            in if \<not> sync
               then bindR (writeCBData_delete cbdat (uv_async_send asyncV8LogCallback (refFromV8 ow)))
                      (\<lambda>ow. Inr (ow, t))
               else doV8Callback cbdat ow t
       else bindR (delete_overflow w ow) (\<lambda>ow. Inr (ow, t)))"

section \<open>Rotating the banks and writing a line\<close>

definition rotate_bank :: "logTarget \<Rightarrow> bool \<times> logTarget" where
  "rotate_bank t =
     (if llen (current t) > 0
      then (case tw_remove (availBuffers t) of
              (Some nxt, av) \<Rightarrow>
                (case tw_addIfRoom (currentBuffer t) (writeOutBuffers t) of
                   (True, wo) \<Rightarrow> (True, t\<lparr>availBuffers := av, writeOutBuffers := wo, currentBuffer := nxt\<rparr>)
                 | (False, wo) \<Rightarrow>
                     (False, clear_bank (currentBuffer t)
                       (t\<lparr>availBuffers := snd (tw_addIfRoom nxt av), writeOutBuffers := wo\<rparr>)))
            | (None, av) \<Rightarrow> (False, clear_bank (currentBuffer t) (t\<lparr>availBuffers := av\<rparr>)))
      else (False, t))"

text \<open>The three \<open>copyIn\<close> calls that put one line into the current bank.\<close>

definition copy_line ::
    "bytes \<Rightarrow> nat \<Rightarrow> bytes \<Rightarrow> nat \<Rightarrow> bytes \<Rightarrow> nat \<Rightarrow> logTarget \<Rightarrow> logTarget res" where
  "copy_line hdr lh s len ftr lf t =
     (let no_footer = (lf = 0)
      in bindR (copyIn hdr lh False (current t)) (\<lambda>b.
         bindR (copyIn s len no_footer b) (\<lambda>b.
         bindR (if \<not> no_footer then copyIn ftr lf True b else Inr b) (\<lambda>b.
           Inr (set_bank (currentBuffer t) b t)))))"

definition write_target ::
    "int \<times> int \<Rightarrow> bytes \<Rightarrow> nat \<Rightarrow> logMeta \<Rightarrow> Filter option \<Rightarrow> 'z owner_scheme \<Rightarrow> logTarget \<Rightarrow>
       ('z owner_scheme \<times> logTarget) res" where
  "write_target clk s len m fil ow t =
     (if tdisabled t then Inr (ow, t)
      else if bankSize t < len + GREASE_MAX_PREFIX_HEADER
      then bindR (singleLog_copy s len m) (\<lambda>B.
             let (a, ow) = new_log B ow;
                 req = (internalCmdReq_new WRITE_TARGET_OVERFLOW (myId t))\<lparr>icmd_aux := Some a\<rparr>
             in case tw_addMvIfRoom internalCmdReq_moved req (internalCmdQueue ow) of
                  (True, _, q) \<Rightarrow> Inr (uv_async_send asyncInternalCommand (ow\<lparr>internalCmdQueue := q\<rparr>), t)
                | (False, _, _) \<Rightarrow> Inr (delete_log a ow, t))
      else bindR (putsHeader clk (header_buffer ow) GREASE_MAX_PREFIX_HEADER m fil ow t) (\<lambda>(lh, hb).
           bindR (putsFooter (footer_buffer ow) (size_t_sub GREASE_MAX_PREFIX_HEADER lh) fil t) (\<lambda>(lf, fb).
             let ow = ow\<lparr>header_buffer := hb, footer_buffer := fb\<rparr>
             in if logBuf_remain (current t) \<ge> int (len + lh + lf)
                then let ow = (if logBuf_isEmpty (current t) then refGreaseInGrease ow else ow)
                     in bindR (copy_line hb lh s len fb lf t) (\<lambda>t. Inr (ow, t))
                else (case rotate_bank t of
                        (False, t) \<Rightarrow> Inr (ow, t)
                      | (True, t) \<Rightarrow>
                          (case tw_addMvIfRoom internalCmdReq_moved
                                  (internalCmdReq_new TARGET_ROTATE_BUFFER (myId t)) (internalCmdQueue ow) of
                             (False, _, _) \<Rightarrow> Inr (ow, t)
                           | (True, _, q) \<Rightarrow>
                               let ow = refGreaseInGrease (ow\<lparr>internalCmdQueue := q\<rparr>)
                               in bindR (copy_line hb lh s len fb lf t) (\<lambda>t.
                                    Inr (uv_async_send asyncInternalCommand ow, t)))))))"

section \<open>The device\<close>

text \<open>A submitted write reaches the device: the terminal, or the open log file.\<close>

definition put_out :: "bytes \<Rightarrow> logTarget \<Rightarrow> logTarget" where
  "put_out text t =
     (case tkind t of
        FILE ft \<Rightarrow> (if fileHandle ft
                    then t\<lparr>written := written t @ [text],
                           tkind := FILE (ft\<lparr>files := fs_append (myPath ft) text (files ft)\<rparr>)\<rparr>
                    else t)
      | _ \<Rightarrow> t\<lparr>written := written t @ [text]\<rparr>)"

definition file_upd :: "(fileState \<Rightarrow> fileState) \<Rightarrow> logTarget \<Rightarrow> logTarget" where
  "file_upd u t = (case tkind t of FILE ft \<Rightarrow> t\<lparr>tkind := FILE (u ft)\<rparr> | _ \<Rightarrow> t)"

definition file_check :: "u32 option \<Rightarrow> logTarget \<Rightarrow> logTarget res" where
  "file_check sz t =
     (case tkind t of
        FILE ft \<Rightarrow> bindR (check_and_maybe_rotate sz ft) (\<lambda>ft. Inr (t\<lparr>tkind := FILE ft\<rparr>))
      | _ \<Rightarrow> Inr t)"

definition flush_bank ::
    "nat \<Rightarrow> nat \<Rightarrow> bool \<Rightarrow> 'z owner_scheme \<Rightarrow> logTarget \<Rightarrow> ('z owner_scheme \<times> logTarget) res" where
  "flush_bank ta b nocb ow t =
     (case tkind t of
        TTY \<Rightarrow> Inr (ow, (put_out (logBuf_text (bank t b)) t)\<lparr>inflight := inflight t @ [(b, nocb)]\<rparr>)
      | FILE _ \<Rightarrow>
          (let t = file_upd (\<lambda>ft. ft\<lparr>current_size := current_size ft + word_of_nat (llen (bank t b)),
                                     submittedWrites := submittedWrites ft + 1\<rparr>) t
           in Inr (ow, (put_out (logBuf_text (bank t b)) t)\<lparr>inflight := inflight t @ [(b, nocb)]\<rparr>))
      | CALLBACK \<Rightarrow> returnBuffer ta b False nocb ow t)"

text \<open>The completion callback (\<open>write_cb\<close>) of the \<open>i\<close>-th write in flight.\<close>

definition write_cb ::
    "nat \<Rightarrow> nat \<Rightarrow> 'z owner_scheme \<Rightarrow> logTarget \<Rightarrow> ('z owner_scheme \<times> logTarget) res" where
  "write_cb ta i ow t =
     (if i < length (inflight t)
      then let (b, nocb) = inflight t ! i;
               t = t\<lparr>inflight := take i (inflight t) @ drop (Suc i) (inflight t)\<rparr>
           in bindR (file_check None t) (\<lambda>t. returnBuffer ta b False nocb ow t)
      else Inr (ow, t))"

text \<open>
  The terminal's \<open>flushSync\<close> calls \<open>returnBuffer\<close>, whose first step locks the bank's
  mutex, while it holds that mutex itself; libuv mutexes are not recursive.
\<close>

definition flushSync_bank ::
    "nat \<Rightarrow> nat \<Rightarrow> bool \<Rightarrow> 'z owner_scheme \<Rightarrow> logTarget \<Rightarrow> ('z owner_scheme \<times> logTarget) res" where
  "flushSync_bank ta b nocb ow t =
     (case tkind t of
        TTY \<Rightarrow> Inl Deadlock
      | FILE _ \<Rightarrow> bindR (file_check None (put_out (logBuf_text (bank t b)) t)) (\<lambda>t.
                    returnBuffer ta b True nocb ow t)
      | CALLBACK \<Rightarrow> returnBuffer ta b True nocb ow t)"

definition writeSync :: "bytes \<Rightarrow> logTarget \<Rightarrow> logTarget" where
  "writeSync s t =
     (case tkind t of
        TTY \<Rightarrow> put_out s t
      | FILE _ \<Rightarrow> file_upd (\<lambda>ft. ft\<lparr>current_size := current_size ft + word_of_nat (length s)\<rparr>) (put_out s t)
      | CALLBACK \<Rightarrow> t)"

section \<open>Messages that do not fit a bank\<close>

text \<open>
  \<open>got\<close> is what \<open>writev\<close> returned, negative for an error; the file gets the first \<open>got\<close>
  bytes. A callback target with no callback set, or with \<open>nocallbacks\<close>, does nothing.
\<close>

definition writeAsyncOverflow ::
    "nat \<Rightarrow> int \<Rightarrow> overflowWriteOut \<Rightarrow> bool \<Rightarrow> 'z owner_scheme \<Rightarrow> logTarget \<Rightarrow>
       ('z owner_scheme \<times> logTarget) res" where
  "writeAsyncOverflow ta got w nocb ow t =
     (case tkind t of
        TTY \<Rightarrow>
          bindR (gather (logs ow) (take (ovN w) (ovbufs w))) (\<lambda>text.
            Inr (ow, (put_out text t)\<lparr>ovInflight := ovInflight t @ [w]\<rparr>))
      | FILE _ \<Rightarrow>
          bindR (gather (logs ow) (take (ovN w) (ovbufs w))) (\<lambda>text.
            let t = file_upd (\<lambda>ft. ft\<lparr>submittedWrites := submittedWrites ft + 1\<rparr>) t
            in bindR (if got < 0
                      then Inr (file_upd (\<lambda>ft. ft\<lparr>submittedWrites := submittedWrites ft - 1\<rparr>) t)
                      else file_check (Some (word_of_int got)) (put_out (take (nat got) text) t)) (\<lambda>t.
                 returnBuffer_overflow ta w False nocb ow t))
      | CALLBACK \<Rightarrow>
          (if ovN w < 1 then bindR (delete_overflow w ow) (\<lambda>ow. Inr (ow, t))
           else if \<not> nocb \<and> logCallbackSet t
           then let (_, cbdat, q) = tw_addMvIfRoom writeCBData_moved (newAsOverflow ta w) (v8LogCallbacks ow);
                    ow = uv_async_send asyncV8LogCallback (ow\<lparr>v8LogCallbacks := q\<rparr>)
                in bindR (writeCBData_delete cbdat ow) (\<lambda>ow. Inr (ow, t))
           else Inr (ow, t)))"

text \<open>The terminal's \<open>write_overflow_cb\<close>, which passes \<open>newAsOverflow\<close>'s \<open>nocallback\<close>.\<close>

definition write_overflow_cb ::
    "nat \<Rightarrow> 'z owner_scheme \<Rightarrow> logTarget \<Rightarrow> ('z owner_scheme \<times> logTarget) res" where
  "write_overflow_cb ta ow t =
     (case ovInflight t of
        [] \<Rightarrow> Inr (ow, t)
      | w # ws \<Rightarrow> returnBuffer_overflow ta w False False ow (t\<lparr>ovInflight := ws\<rparr>))"

definition set_hlen :: "nat \<Rightarrow> singleLog \<Rightarrow> singleLog" where
  "set_hlen n l = l\<lparr>buf := (buf l)\<lparr>hlen := n\<rparr>\<rparr>"

definition log_mem :: "singleLog \<Rightarrow> bytes" where
  "log_mem l = (case hbase (buf l) of Some mem \<Rightarrow> mem | None \<Rightarrow> [])"

definition put_mem :: "bytes \<Rightarrow> singleLog \<Rightarrow> singleLog" where
  "put_mem mem l = l\<lparr>buf := (buf l)\<lparr>hbase := Some mem\<rparr>\<rparr>"

text \<open>Adds a freshly built buffer when it has something, else deletes it.\<close>

definition add_or_delete ::
    "bool \<Rightarrow> singleLog \<Rightarrow> overflowWriteOut \<Rightarrow> 'z owner_scheme \<Rightarrow> (overflowWriteOut \<times> 'z owner_scheme) res" where
  "add_or_delete keep l w ow =
     (let (a, ow) = new_log l ow
      in if keep then bindR (addBuffer a w) (\<lambda>w. Inr (w, ow)) else Inr (w, delete_log a ow))"

definition writeOverflow ::
    "nat \<Rightarrow> int \<Rightarrow> int \<times> int \<Rightarrow> nat \<Rightarrow> Filter option \<Rightarrow> 'z owner_scheme \<Rightarrow> logTarget \<Rightarrow>
       ('z owner_scheme \<times> logTarget) res" where
  "writeOverflow ta got clk a fil ow t =
     (if tdisabled t then Inr (ow, t)
      else bindR (deref (logs ow) a) (\<lambda>l.
        let hdr = heapSingleLog (junk ow) GREASE_MAX_PREFIX_HEADER;
            ftr = heapSingleLog (junk ow) GREASE_MAX_PREFIX_HEADER
        in bindR (putsHeader clk (log_mem hdr) GREASE_MAX_PREFIX_HEADER (emeta (smeta l)) fil ow t) (\<lambda>(lh, hm).
           bindR (putsFooter (log_mem ftr) (size_t_sub GREASE_MAX_PREFIX_HEADER lh) fil t) (\<lambda>(lf, fm).
           bindR (add_or_delete (lh > 0) (set_hlen lh (put_mem hm hdr)) overflow_new ow) (\<lambda>(w, ow).
           bindR (addBuffer a w) (\<lambda>w.
           bindR (add_or_delete (lf > 0) (set_hlen lf (put_mem fm ftr)) w ow) (\<lambda>(w, ow).
             let dl = hlen (delim (tdelim t));
                 delim_buf = heapSingleLog (junk ow) dl
             in bindR (if dl > 0
                       then (case hbase (delim (tdelim t)) of
                               None \<Rightarrow> Inl BadPointer
                             | Some mem \<Rightarrow> bindR (heapBuf_memcpy mem dl None (buf delim_buf)) (\<lambda>(_, b).
                                            Inr (delim_buf\<lparr>buf := b\<rparr>)))
                       else Inr delim_buf) (\<lambda>delim_buf.
                bindR (add_or_delete (dl > 0) delim_buf w ow) (\<lambda>(w, ow).
                  writeAsyncOverflow ta got w False (refGreaseInGrease ow) t)))))))))"

section \<open>Draining\<close>

lemma set_bank_queues [simp]:
  "writeOutBuffers (set_bank b x t) = writeOutBuffers t"
  "availBuffers (set_bank b x t) = availBuffers t" "inflight (set_bank b x t) = inflight t"
  "currentBuffer (set_bank b x t) = currentBuffer t" "tkind (set_bank b x t) = tkind t"
  "written (set_bank b x t) = written t" "logCallbackSet (set_bank b x t) = logCallbackSet t"
  "bankSize (set_bank b x t) = bankSize t" "tdelim (set_bank b x t) = tdelim t"
  "ovInflight (set_bank b x t) = ovInflight t" "myId (set_bank b x t) = myId t"
  by (simp_all add: set_bank_def)

lemma put_out_queues [simp]:
  "writeOutBuffers (put_out s t) = writeOutBuffers t" "availBuffers (put_out s t) = availBuffers t"
  "inflight (put_out s t) = inflight t" "currentBuffer (put_out s t) = currentBuffer t"
  "banks (put_out s t) = banks t" "logCallbackSet (put_out s t) = logCallbackSet t"
  "bankSize (put_out s t) = bankSize t" "tdelim (put_out s t) = tdelim t"
  by (simp_all add: put_out_def split: targetKind.split)

lemma file_upd_queues [simp]:
  "writeOutBuffers (file_upd u t) = writeOutBuffers t" "availBuffers (file_upd u t) = availBuffers t"
  "inflight (file_upd u t) = inflight t" "currentBuffer (file_upd u t) = currentBuffer t"
  "banks (file_upd u t) = banks t" "logCallbackSet (file_upd u t) = logCallbackSet t"
  "bankSize (file_upd u t) = bankSize t" "tdelim (file_upd u t) = tdelim t"
  "written (file_upd u t) = written t"
  by (simp_all add: file_upd_def split: targetKind.split)

lemma file_check_queues:
  "file_check sz t = Inr t' \<Longrightarrow> writeOutBuffers t' = writeOutBuffers t \<and>
     availBuffers t' = availBuffers t \<and> inflight t' = inflight t \<and>
     currentBuffer t' = currentBuffer t \<and> banks t' = banks t \<and> logCallbackSet t' = logCallbackSet t \<and>
     bankSize t' = bankSize t \<and> tdelim t' = tdelim t \<and> written t' = written t"
  by (auto simp: file_check_def bindR_eq_Inr split: targetKind.splits)

lemma give_back_writeOut: "give_back b t = Inr t' \<Longrightarrow> writeOutBuffers t' = writeOutBuffers t"
  by (auto simp: give_back_def bindR_eq_Inr clear_bank_def Let_def)

lemma returnBuffer_writeOut:
  "returnBuffer ta b sync nocb ow t = Inr (ow', t') \<Longrightarrow> writeOutBuffers t' = writeOutBuffers t"
  by (auto simp: returnBuffer_def bindR_eq_Inr Let_def doV8Callback_def writeCBData_new_def
      finalizeV8Callback_def clear_bank_def give_back_writeOut split: if_splits prod.splits bool.splits)

lemma flush_bank_writeOut:
  "flush_bank ta b nocb ow t = Inr (ow', t') \<Longrightarrow> writeOutBuffers t' = writeOutBuffers t"
  by (auto simp: flush_bank_def Let_def returnBuffer_writeOut split: targetKind.splits)

lemma flushSync_bank_writeOut:
  "flushSync_bank ta b nocb ow t = Inr (ow', t') \<Longrightarrow> writeOutBuffers t' = writeOutBuffers t"
  by (auto simp: flushSync_bank_def bindR_eq_Inr dest!: returnBuffer_writeOut file_check_queues
      split: targetKind.splits)

text \<open>The two loops of \<open>flushAll\<close> and \<open>flushAllSync\<close>.\<close>

function drain :: "nat \<Rightarrow> bool \<Rightarrow> 'z owner_scheme \<Rightarrow> logTarget \<Rightarrow> ('z owner_scheme \<times> logTarget) res" where
  "drain ta nocb ow t =
     (case tw_remove (writeOutBuffers t) of
        (Some b, q) \<Rightarrow>
          bindR (flush_bank ta b nocb ow (t\<lparr>writeOutBuffers := q\<rparr>)) (\<lambda>(ow, t). drain ta nocb ow t)
      | (None, q) \<Rightarrow> Inr (ow, t\<lparr>writeOutBuffers := q\<rparr>))"
  by pat_completeness auto
termination
  by (relation "measure (\<lambda>(ta, nocb, ow, t). nat (tw_remain (writeOutBuffers t)))")
    (auto dest!: tw_remove_decreases [OF sym] flush_bank_writeOut)

function drainSync :: "nat \<Rightarrow> bool \<Rightarrow> 'z owner_scheme \<Rightarrow> logTarget \<Rightarrow> ('z owner_scheme \<times> logTarget) res" where
  "drainSync ta nocb ow t =
     (case tw_remove (writeOutBuffers t) of
        (Some b, q) \<Rightarrow>
          bindR (flushSync_bank ta b nocb ow (t\<lparr>writeOutBuffers := q\<rparr>)) (\<lambda>(ow, t). drainSync ta nocb ow t)
      | (None, q) \<Rightarrow> Inr (ow, t\<lparr>writeOutBuffers := q\<rparr>))"
  by pat_completeness auto
termination
  by (relation "measure (\<lambda>(ta, nocb, ow, t). nat (tw_remain (writeOutBuffers t)))")
    (auto dest!: tw_remove_decreases [OF sym] flushSync_bank_writeOut)

declare drain.simps [simp del] drainSync.simps [simp del]

text \<open>What holds between the states of the two loops because it holds of each turn.\<close>

lemma drain_rel:
  assumes trans: "\<And>a t b u c v. T a t b u \<Longrightarrow> T b u c v \<Longrightarrow> T a t c v"
    and base: "\<And>ow t q. T ow t ow (t\<lparr>writeOutBuffers := q\<rparr>)"
    and step: "\<And>b ow t ow' t'. flush_bank ta b nocb ow t = Inr (ow', t') \<Longrightarrow> T ow t ow' t'"
    and run: "drain ta nocb ow t = Inr (ow', t')"
  shows "T ow t ow' t'"
  using run step
proof (induction ta nocb ow t arbitrary: ow' t' rule: drain.induct)
  case (1 ta nocb ow t)
  obtain x q where rm: "tw_remove (writeOutBuffers t) = (x, q)" by (cases "tw_remove (writeOutBuffers t)")
  show ?case
  proof (cases x)
    case None
    with 1(2) rm have "ow' = ow" "t' = t\<lparr>writeOutBuffers := q\<rparr>" by (subst (asm) drain.simps, simp)+
    then show ?thesis by (simp only: base)
  next
    case (Some b)
    from 1(2) obtain ow1 t1 where f: "flush_bank ta b nocb ow (t\<lparr>writeOutBuffers := q\<rparr>) = Inr (ow1, t1)"
      and d: "drain ta nocb ow1 t1 = Inr (ow', t')"
      by (subst (asm) drain.simps) (auto simp: rm Some bindR_eq_Inr)
    show ?thesis
      using trans [OF trans [OF base 1(3) [OF f]] 1(1) [OF rm [symmetric] Some f refl d 1(3)]] by simp
  qed
qed

lemma drainSync_rel:
  assumes trans: "\<And>a t b u c v. T a t b u \<Longrightarrow> T b u c v \<Longrightarrow> T a t c v"
    and base: "\<And>ow t q. T ow t ow (t\<lparr>writeOutBuffers := q\<rparr>)"
    and step: "\<And>b ow t ow' t'. flushSync_bank ta b nocb ow t = Inr (ow', t') \<Longrightarrow> T ow t ow' t'"
    and run: "drainSync ta nocb ow t = Inr (ow', t')"
  shows "T ow t ow' t'"
  using run step
proof (induction ta nocb ow t arbitrary: ow' t' rule: drainSync.induct)
  case (1 ta nocb ow t)
  obtain x q where rm: "tw_remove (writeOutBuffers t) = (x, q)" by (cases "tw_remove (writeOutBuffers t)")
  show ?case
  proof (cases x)
    case None
    with 1(2) rm have "ow' = ow" "t' = t\<lparr>writeOutBuffers := q\<rparr>" by (subst (asm) drainSync.simps, simp)+
    then show ?thesis by (simp only: base)
  next
    case (Some b)
    from 1(2) obtain ow1 t1 where f: "flushSync_bank ta b nocb ow (t\<lparr>writeOutBuffers := q\<rparr>) = Inr (ow1, t1)"
      and d: "drainSync ta nocb ow1 t1 = Inr (ow', t')"
      by (subst (asm) drainSync.simps) (auto simp: rm Some bindR_eq_Inr)
    show ?thesis
      using trans [OF trans [OF base 1(3) [OF f]] 1(1) [OF rm [symmetric] Some f refl d 1(3)]] by simp
  qed
qed

definition flushAll_target ::
    "nat \<Rightarrow> bool \<Rightarrow> bool \<Rightarrow> 'z owner_scheme \<Rightarrow> logTarget \<Rightarrow> ('z owner_scheme \<times> logTarget) res" where
  "flushAll_target ta rot nocb ow t = drain ta nocb ow (if rot then snd (rotate_bank t) else t)"

definition flushAllSync_target ::
    "nat \<Rightarrow> bool \<Rightarrow> bool \<Rightarrow> 'z owner_scheme \<Rightarrow> logTarget \<Rightarrow> ('z owner_scheme \<times> logTarget) res" where
  "flushAllSync_target ta rot nocb ow t = drainSync ta nocb ow (if rot then snd (rotate_bank t) else t)"

section \<open>The ways through \<open>write\<close>\<close>

text \<open>The six ways through \<open>write\<close>.\<close>

lemma write_target_big_cases:
  assumes run: "write_target clk s len m fil ow t = Inr (ow', t')"
    and big: "\<not> tdisabled t" "bankSize t < len + GREASE_MAX_PREFIX_HEADER"
  obtains B a ow1 where "singleLog_copy s len m = Inr B" "new_log B ow = (a, ow1)" "t' = t"
    "(\<exists>d q. tw_addMvIfRoom internalCmdReq_moved ((internalCmdReq_new WRITE_TARGET_OVERFLOW (myId t))\<lparr>icmd_aux := Some a\<rparr>)
         (internalCmdQueue ow1) = (True, d, q) \<and> ow' = uv_async_send asyncInternalCommand (ow1\<lparr>internalCmdQueue := q\<rparr>)) \<or>
     ow' = delete_log a ow1"
proof -
  obtain B where B: "singleLog_copy s len m = Inr B" using run big by (auto simp: write_target_def bindR_eq_Inr)
  obtain a ow1 where n: "new_log B ow = (a, ow1)" by (cases "new_log B ow")
  obtain r d q where add: "tw_addMvIfRoom internalCmdReq_moved
      ((internalCmdReq_new WRITE_TARGET_OVERFLOW (myId t))\<lparr>icmd_aux := Some a\<rparr>) (internalCmdQueue ow1) = (r, d, q)"
    using prod_cases3 by blast
  show thesis using that [OF B n] run big by (cases r) (simp_all add: write_target_def B n add)
qed

lemma write_target_full_cases:
  assumes run: "write_target clk s len m fil ow t = Inr (ow', t')"
    and fits: "\<not> tdisabled t" "\<not> bankSize t < len + GREASE_MAX_PREFIX_HEADER"
    and h: "putsHeader clk (header_buffer ow) GREASE_MAX_PREFIX_HEADER m fil ow t = Inr (lh, hb)"
      "putsFooter (footer_buffer ow) (size_t_sub GREASE_MAX_PREFIX_HEADER lh) fil t = Inr (lf, fb)"
    and no_room: "\<not> logBuf_remain (current t) \<ge> int (len + lh + lf)"
  obtains (full) r where "rotate_bank t = (r, t')" "ow' = ow\<lparr>header_buffer := hb, footer_buffer := fb\<rparr>"
  | (rotated) t1 d q where "rotate_bank t = (True, t1)"
      "tw_addMvIfRoom internalCmdReq_moved (internalCmdReq_new TARGET_ROTATE_BUFFER (myId t1)) (internalCmdQueue ow) = (True, d, q)"
      "copy_line hb lh s len fb lf t1 = Inr t'"
      "ow' = uv_async_send asyncInternalCommand (refGreaseInGrease
         (ow\<lparr>header_buffer := hb, footer_buffer := fb, internalCmdQueue := q\<rparr>))"
proof -
  obtain r t1 where rot: "rotate_bank t = (r, t1)" by (cases "rotate_bank t")
  obtain k d q where add: "tw_addMvIfRoom internalCmdReq_moved
      (internalCmdReq_new TARGET_ROTATE_BUFFER (myId t1)) (internalCmdQueue ow) = (k, d, q)"
    using prod_cases3 by blast
  show thesis
  proof (cases "r \<and> k")
    case True
    with rot add have rk: "rotate_bank t = (True, t1)" "tw_addMvIfRoom internalCmdReq_moved
        (internalCmdReq_new TARGET_ROTATE_BUFFER (myId t1)) (internalCmdQueue ow) = (True, d, q)" by simp_all
    then have "copy_line hb lh s len fb lf t1 = Inr t' \<and> ow' = uv_async_send asyncInternalCommand
        (refGreaseInGrease (ow\<lparr>header_buffer := hb, footer_buffer := fb, internalCmdQueue := q\<rparr>))"
      using run fits h no_room by (auto simp: write_target_def Let_def bindR_eq_Inr)
    then show thesis using rotated [OF rk] by blast
  next
    case no: False
    then have "t1 = t' \<and> ow' = ow\<lparr>header_buffer := hb, footer_buffer := fb\<rparr>"
      using run fits h no_room rot add by (cases r; cases k) (simp_all add: write_target_def Let_def)
    then show thesis using that(1) rot by blast
  qed
qed

lemma write_target_cases:
  assumes run: "write_target clk s len m fil ow t = Inr (ow', t')"
  obtains
    (off) "tdisabled t" "ow' = ow" "t' = t"
  | (queued) B a ow1 d q where "singleLog_copy s len m = Inr B" "new_log B ow = (a, ow1)"
      "tw_addMvIfRoom internalCmdReq_moved ((internalCmdReq_new WRITE_TARGET_OVERFLOW (myId t))\<lparr>icmd_aux := Some a\<rparr>)
         (internalCmdQueue ow1) = (True, d, q)"
      "ow' = uv_async_send asyncInternalCommand (ow1\<lparr>internalCmdQueue := q\<rparr>)" "t' = t"
  | (lost) B a ow1 where "singleLog_copy s len m = Inr B" "new_log B ow = (a, ow1)" "ow' = delete_log a ow1" "t' = t"
  | (put) lh hb lf fb where
      "copy_line hb lh s len fb lf t = Inr t'"
      "ow' = (if logBuf_isEmpty (current t) then refGreaseInGrease (ow\<lparr>header_buffer := hb, footer_buffer := fb\<rparr>)
              else ow\<lparr>header_buffer := hb, footer_buffer := fb\<rparr>)"
  | (full) r hb fb where "rotate_bank t = (r, t')" "ow' = ow\<lparr>header_buffer := hb, footer_buffer := fb\<rparr>"
  | (rotated) lh hb lf fb t1 d q where "rotate_bank t = (True, t1)"
      "tw_addMvIfRoom internalCmdReq_moved (internalCmdReq_new TARGET_ROTATE_BUFFER (myId t1)) (internalCmdQueue ow) = (True, d, q)"
      "copy_line hb lh s len fb lf t1 = Inr t'"
      "ow' = uv_async_send asyncInternalCommand (refGreaseInGrease
         (ow\<lparr>header_buffer := hb, footer_buffer := fb, internalCmdQueue := q\<rparr>))"
proof -
  consider "tdisabled t" | (big) "\<not> tdisabled t" "bankSize t < len + GREASE_MAX_PREFIX_HEADER"
    | (fits) "\<not> tdisabled t" "\<not> bankSize t < len + GREASE_MAX_PREFIX_HEADER" by blast
  then show thesis
  proof cases
    case 1
    with run show thesis by (intro off) (simp_all add: write_target_def)
  next
    case big
    show thesis by (rule write_target_big_cases [OF run big]) (use queued lost in blast)
  next
    case fits
    with run obtain lh hb lf fb where
      h: "putsHeader clk (header_buffer ow) GREASE_MAX_PREFIX_HEADER m fil ow t = Inr (lh, hb)"
        "putsFooter (footer_buffer ow) (size_t_sub GREASE_MAX_PREFIX_HEADER lh) fil t = Inr (lf, fb)"
      by (auto simp: write_target_def bindR_eq_Inr)
    show thesis
    proof (cases "logBuf_remain (current t) \<ge> int (len + lh + lf)")
      case True
      then show thesis using run fits h by (intro put) (auto simp: write_target_def bindR_eq_Inr Let_def)
    next
      case False
      then show thesis by (rule write_target_full_cases [OF run fits h]) (use full rotated in blast)+
    qed
  qed
qed

end
