(* ===== verification/Banks.thy ===== *)
theory Banks
  imports Target
begin

text \<open>
  The bank discipline of a target. Every bank is in exactly one place: current,
  available, queued for write-out, in flight, or waiting for the JavaScript callback
  (\<open>cbs\<close>, which lives in the logger's queue). The abstraction \<open>tstream\<close> is the byte
  stream the target was asked to write: what the device has, then the queued banks,
  then the current one.
\<close>

section \<open>Invariant\<close>

definition places :: "nat list \<Rightarrow> logTarget \<Rightarrow> nat list" where
  "places cbs t = currentBuffer t # items (availBuffers t) @ items (writeOutBuffers t) @
     map fst (inflight t) @ cbs"

definition bank_ok :: "logTarget \<Rightarrow> logBuf \<Rightarrow> bool" where
  "bank_ok t b \<longleftrightarrow> logBuf_wf b \<and> lspace b = bankSize t \<and>
     delim_bytes (ldelim b) = delim_bytes (tdelim t)"

definition tgt_inv :: "nat list \<Rightarrow> logTarget \<Rightarrow> bool" where
  "tgt_inv cbs t \<longleftrightarrow>
     length (banks t) = NUM_BANKS \<and> (\<forall>b < NUM_BANKS. bank_ok t (bank t b)) \<and>
     circular_inv (availBuffers t) \<and> capacity (availBuffers t) = NUM_BANKS \<and>
     circular_inv (writeOutBuffers t) \<and> capacity (writeOutBuffers t) = NUM_BANKS - 1 \<and>
     distinct (places cbs t) \<and> set (places cbs t) = {..<NUM_BANKS} \<and>
     (\<forall>b \<in> set (items (availBuffers t)). llen (bank t b) = 0) \<and>
     (\<forall>b \<in> set (items (writeOutBuffers t)). 0 < llen (bank t b))"

definition text_of :: "logTarget \<Rightarrow> nat \<Rightarrow> bytes" where
  "text_of t b = logBuf_text (bank t b)"

definition handed :: "logTarget \<Rightarrow> bytes" where
  "handed t = concat (written t) @ concat (map (text_of t) (items (writeOutBuffers t)))"

definition tstream :: "logTarget \<Rightarrow> bytes" where
  "tstream t = handed t @ text_of t (currentBuffer t)"

lemma tgt_invD:
  assumes "tgt_inv cbs t"
  shows "length (banks t) = NUM_BANKS" "circular_inv (availBuffers t)"
    "capacity (availBuffers t) = NUM_BANKS" "circular_inv (writeOutBuffers t)"
    "capacity (writeOutBuffers t) = NUM_BANKS - 1" "distinct (places cbs t)"
    "set (places cbs t) = {..<NUM_BANKS}" "currentBuffer t < NUM_BANKS"
    "\<And>b. b < NUM_BANKS \<Longrightarrow> bank_ok t (bank t b)"
    "\<And>b. b \<in> set (items (availBuffers t)) \<Longrightarrow> llen (bank t b) = 0"
    "\<And>b. b \<in> set (items (writeOutBuffers t)) \<Longrightarrow> 0 < llen (bank t b)"
  using assms by (auto simp: tgt_inv_def places_def)

lemma places_length: "tgt_inv cbs t \<Longrightarrow> length (places cbs t) = NUM_BANKS"
  using distinct_card [OF tgt_invD(6)] tgt_invD(7) by fastforce

lemma bank_set_bank:
  "b < length (banks t) \<Longrightarrow> bank (set_bank b x t) c = (if c = b then x else bank t c)"
  by (simp add: bank_def set_bank_def nth_list_update)

lemma text_of_clear [simp]: "text_of t b = [] \<longleftrightarrow> logBuf_text (bank t b) = []"
  by (simp add: text_of_def)

text \<open>A new target: everything is empty and in place.\<close>

lemma free_banks:
  obtains q1 q2 q3 where "tw_add (1::nat) (new_circular NUM_BANKS 0) = Inr q1" "tw_add 2 q1 = Inr q2" "tw_add 3 q2 = Inr q3"
    "circular_inv q3" "items q3 = [1, 2, 3]" "capacity q3 = 4"
proof -
  have c0: "circular_inv (new_circular NUM_BANKS (0::nat))" "items (new_circular NUM_BANKS (0::nat)) = []"
    "capacity (new_circular NUM_BANKS (0::nat)) = 4"
    using new_circular_spec [of NUM_BANKS "0::nat"] by (simp_all add: NUM_BANKS_def)
  obtain q1 where q1: "tw_add (1::nat) (new_circular NUM_BANKS 0) = Inr q1" "circular_inv q1"
    "items q1 = [1]" "capacity q1 = 4"
    using tw_add_room [OF c0(1), of 1] c0 by auto
  obtain q2 where q2: "tw_add 2 q1 = Inr q2" "circular_inv q2" "items q2 = [1, 2]" "capacity q2 = 4"
    using tw_add_room [OF q1(2), of 2] q1 by (auto simp del: length_items)
  obtain q3 where q3: "tw_add 3 q2 = Inr q3" "circular_inv q3" "items q3 = [1, 2, 3]" "capacity q3 = 4"
    using tw_add_room [OF q2(2), of 3] q2 by (auto simp del: length_items)
  show thesis by (rule that [OF q1(1) q2(1) q3(1,2,3,4)])
qed

lemma logTarget_new_inv:
  assumes "heapBuf_wf (delim d)"
  shows "\<exists>t. logTarget_new jk n i d k = Inr t \<and> tgt_inv [] t \<and> tstream t = [] \<and> bankSize t = n \<and>
    tdelim t = d \<and> tkind t = k \<and> inflight t = [] \<and> myId t = i"
proof -
  obtain q1 q2 q3 where q1: "tw_add (1::nat) (new_circular NUM_BANKS 0) = Inr q1" and q2: "tw_add 2 q1 = Inr q2"
    and q3: "tw_add 3 q2 = Inr q3" "circular_inv q3" "items q3 = [1, 2, 3]" "capacity q3 = 4" by (rule free_banks)
  have w: "circular_inv (new_circular (NUM_BANKS - 1) (0::nat))"
    "items (new_circular (NUM_BANKS - 1) (0::nat)) = []"
    "capacity (new_circular (NUM_BANKS - 1) (0::nat)) = NUM_BANKS - 1"
    using new_circular_spec [of "NUM_BANKS - 1" "0::nat"] by (simp_all add: NUM_BANKS_def)
  note w = w w [unfolded One_nat_def]
  have dd: "heapBuf_wf (delim (delim_duplicate d))" "delim_bytes (delim_duplicate d) = delim_bytes d"
    using assms by (auto simp: delim_duplicate_def heapBuf_duplicate_def heapBuf_wf_def
        delim_bytes_def heapBuf_empty_def split: option.splits)
  have four: "[0..<NUM_BANKS] = [0, 1, 2, 3]" by (simp add: NUM_BANKS_def upt_rec)
  have lt: "b < NUM_BANKS \<longleftrightarrow> b = 0 \<or> b = 1 \<or> b = 2 \<or> b = 3" for b by (auto simp: NUM_BANKS_def)
  define t where "t = \<lparr>tdisabled = False, logCallbackSet = False, logCallback = None, tdelim = d,
            banks = map (\<lambda>m. logBuf_new jk n m (delim_duplicate d)) [0..<NUM_BANKS],
            availBuffers = q3,
            writeOutBuffers = new_circular (NUM_BANKS - 1) 0,
            waitingOnCBBuffers = new_circular (NUM_BANKS - 1) 0,
            currentBuffer = 0, bankSize = n, myId = i,
            timeFormat = logLabel_empty, tagFormat = logLabel_empty, originFormat = logLabel_empty,
            levelFormat = logLabel_empty, tpreFormat = logLabel_empty, tpostFormat = logLabel_empty,
            preMsgFormat = logLabel_empty, tkind = k, inflight = [], ovInflight = [],
            written = [], delivered = []\<rparr>"
  have run: "logTarget_new jk n i d k = Inr t"
    using q1 by (simp add: logTarget_new_def q2 q3 t_def)
  have bk: "b < NUM_BANKS \<Longrightarrow> bank t b = logBuf_new jk n b (delim_duplicate d)" for b
    unfolding lt by (auto simp: bank_def t_def four)
  have flds: "availBuffers t = q3" "writeOutBuffers t = new_circular (NUM_BANKS - 1) 0"
    "currentBuffer t = 0" "inflight t = []" "bankSize t = n" "tdelim t = d" "length (banks t) = NUM_BANKS"
    by (simp_all add: t_def)
  have pl: "places [] t = [0, 1, 2, 3]" by (simp add: places_def flds q3 w)
  have "set (places [] t) = {..<NUM_BANKS}" unfolding pl by (auto simp: lt)
  moreover have "\<forall>b < NUM_BANKS. bank_ok t (bank t b)"
    using bk dd by (simp add: bank_ok_def flds)
  moreover have "\<forall>b \<in> set (items (availBuffers t)). llen (bank t b) = 0"
    using bk [of 1] bk [of 2] bk [of 3] by (simp add: flds q3 lt)
  ultimately have "tgt_inv [] t"
    unfolding tgt_inv_def flds using q3(2,4) w by (simp add: pl NUM_BANKS_def)
  moreover have "tstream t = []"
    using bk [of 0] w by (simp add: tstream_def handed_def text_of_def t_def logBuf_text_def NUM_BANKS_def)
  ultimately show ?thesis using run by (simp add: t_def)
qed

section \<open>Rotation\<close>

lemma set_bank_other:
  "length (banks t) = NUM_BANKS \<Longrightarrow> b < NUM_BANKS \<Longrightarrow> c < NUM_BANKS \<Longrightarrow>
     bank (set_bank b x t) c = (if c = b then x else bank t c)"
  by (simp add: bank_set_bank)

text \<open>Changing the contents of the current bank keeps the discipline.\<close>

lemma set_current_inv:
  assumes inv: "tgt_inv cbs t" and ok: "bank_ok t x"
  shows "tgt_inv cbs (set_bank (currentBuffer t) x t)"
    "handed (set_bank (currentBuffer t) x t) = handed t"
    "text_of (set_bank (currentBuffer t) x t) (currentBuffer t) = logBuf_text x"
proof -
  note D = tgt_invD [OF inv]
  have ncur: "c \<noteq> currentBuffer t" "c < NUM_BANKS"
    if "c \<in> set (items (availBuffers t)) \<or> c \<in> set (items (writeOutBuffers t))" for c
    using that D(6,7) by (auto simp: places_def)
  have bk: "bank (set_bank (currentBuffer t) x t) c = (if c = currentBuffer t then x else bank t c)" for c
    using D(1,8) by (simp add: bank_set_bank)
  have ok': "bank_ok (set_bank (currentBuffer t) x t) y \<longleftrightarrow> bank_ok t y" for y
    by (simp add: bank_ok_def)
  have pl: "places cbs (set_bank (currentBuffer t) x t) = places cbs t" by (simp add: places_def)
  show "tgt_inv cbs (set_bank (currentBuffer t) x t)"
    unfolding tgt_inv_def pl using D ok ncur by (auto simp: bk ok' set_bank_def [of _ _ t, THEN arg_cong [where f = banks]] )
  show "handed (set_bank (currentBuffer t) x t) = handed t"
    using ncur by (auto simp: handed_def text_of_def bk intro!: arg_cong [where f = concat] map_cong)
  show "text_of (set_bank (currentBuffer t) x t) (currentBuffer t) = logBuf_text x"
    by (simp add: text_of_def bk)
qed

text \<open>
  \<open>rotate()\<close>: with a full bank and one available the bank moves to the write-out queue,
  which always has room; the stream does not change. With none available the current
  bank is emptied and its lines are lost.
\<close>

lemma current_ok: "tgt_inv cbs t \<Longrightarrow> bank_ok t (current t)"
  using tgt_invD(8,9) by (auto simp: current_def)

text \<open>With no bank to change to, the current one is emptied; otherwise it is queued behind the others.\<close>

lemma rotate_bank_none:
  assumes inv: "tgt_inv cbs t" and av: "items (availBuffers t) = []" "llen (current t) \<noteq> 0"
  shows "rotate_bank t = (False, set_bank (currentBuffer t) (logBuf_clear (current t)) t)"
    and "tgt_inv cbs (set_bank (currentBuffer t) (logBuf_clear (current t)) t)"
    and "tstream (set_bank (currentBuffer t) (logBuf_clear (current t)) t) = handed t"
proof -
  note D = tgt_invD [OF inv]
  show "rotate_bank t = (False, set_bank (currentBuffer t) (logBuf_clear (current t)) t)"
    using av by (simp add: rotate_bank_def tw_remove_Nil [OF D(2)] clear_bank_def current_def)
  show "tgt_inv cbs (set_bank (currentBuffer t) (logBuf_clear (current t)) t)"
    and "tstream (set_bank (currentBuffer t) (logBuf_clear (current t)) t) = handed t"
    using set_current_inv [OF inv, of "logBuf_clear (current t)"] current_ok [OF inv] D(1,8)
    by (simp_all add: bank_ok_def tstream_def bank_set_bank)
qed

lemma rotate_bank_some:
  assumes inv: "tgt_inv cbs t" and av: "items (availBuffers t) = n # av" and full: "llen (current t) \<noteq> 0"
  obtains q wo where "rotate_bank t = (True, t\<lparr>availBuffers := q, writeOutBuffers := wo, currentBuffer := n\<rparr>)"
    "items wo = items (writeOutBuffers t) @ [currentBuffer t]"
    "tgt_inv cbs (t\<lparr>availBuffers := q, writeOutBuffers := wo, currentBuffer := n\<rparr>)"
    "tstream (t\<lparr>availBuffers := q, writeOutBuffers := wo, currentBuffer := n\<rparr>) = tstream t" "llen (bank t n) = 0"
proof -
  note D = tgt_invD [OF inv]
  obtain q where rm: "tw_remove (availBuffers t) = (Some n, q)"
    and q: "circular_inv q" "capacity q = NUM_BANKS" "items q = av"
    using tw_remove_Cons [OF D(2) av] D(3) by metis
  have "length (places cbs t) = NUM_BANKS" by (rule places_length [OF inv])
  then have room: "length (items (writeOutBuffers t)) < capacity (writeOutBuffers t)"
    unfolding places_def D(5) av by (simp add: NUM_BANKS_def del: length_items)
  obtain wo where wo: "tw_addIfRoom (currentBuffer t) (writeOutBuffers t) = (True, wo)"
    "circular_inv wo" "capacity wo = NUM_BANKS - 1" "items wo = items (writeOutBuffers t) @ [currentBuffer t]"
    using tw_addIfRoom_room [OF D(4) room] D(5) by metis
  define t' where "t' = t\<lparr>availBuffers := q, writeOutBuffers := wo, currentBuffer := n\<rparr>"
  have bk: "bank t' c = bank t c" for c by (simp add: t'_def bank_def)
  have pl: "distinct (places cbs t') \<and> set (places cbs t') = set (places cbs t)"
    using D(6) by (auto simp: places_def t'_def q wo av)
  have n: "n \<in> set (items (availBuffers t))" by (simp add: av)
  have "tgt_inv cbs t'"
    unfolding tgt_inv_def using D pl q wo full bk av by (auto simp: t'_def bank_ok_def current_def)
  moreover have "logBuf_text (bank t n) = []" using D(10) [OF n] by (simp add: logBuf_text_def)
  moreover have "text_of t' = text_of t" by (rule ext) (simp add: text_of_def bk)
  ultimately have "tgt_inv cbs t'" "tstream t' = tstream t"
    using wo(4) by (simp_all add: tstream_def handed_def t'_def text_of_def)
  moreover have "rotate_bank t = (True, t')" using rm wo(1) full by (simp add: rotate_bank_def t'_def)
  ultimately show thesis using that [of wo q] wo(4) D(10) [OF n] unfolding t'_def by blast
qed

lemma rotate_bank_spec:
  assumes inv: "tgt_inv cbs t" and run: "rotate_bank t = (r, t')"
  shows "tgt_inv cbs t' \<and> bankSize t' = bankSize t \<and> tdelim t' = tdelim t \<and> inflight t' = inflight t \<and>
    tkind t' = tkind t \<and> written t' = written t \<and> logCallbackSet t' = logCallbackSet t \<and>
    ovInflight t' = ovInflight t \<and> myId t' = myId t \<and>
    (\<forall>b. r \<or> b \<noteq> currentBuffer t \<longrightarrow> bank t' b = bank t b) \<and>
    (\<not> r \<longrightarrow> currentBuffer t' = currentBuffer t) \<and>
    (r \<longleftrightarrow> 0 < llen (current t) \<and> items (availBuffers t) \<noteq> []) \<and>
    (if llen (current t) = 0 then t' = t
     else if r then tstream t' = tstream t \<and> llen (current t') = 0 \<and>
       items (writeOutBuffers t') = items (writeOutBuffers t) @ [currentBuffer t]
     else tstream t' = handed t \<and> llen (current t') = 0 \<and>
       items (writeOutBuffers t') = items (writeOutBuffers t))"
proof (cases "llen (current t) = 0")
  case True
  with run inv show ?thesis by (auto simp: rotate_bank_def)
next
  case full: False
  show ?thesis
  proof (cases "items (availBuffers t)")
    case Nil
    note N = rotate_bank_none [OF inv Nil full]
    then have t': "r = False" "t' = set_bank (currentBuffer t) (logBuf_clear (current t)) t" using run by auto
    have "current t' = logBuf_clear (current t)"
      using tgt_invD(1,8) [OF inv] by (simp add: t' current_def bank_set_bank)
    then show ?thesis using N(2,3) full Nil tgt_invD(1,8) [OF inv] by (simp add: t' bank_set_bank)
  next
    case (Cons n av)
    show ?thesis
      by (rule rotate_bank_some [OF inv Cons full]) (use run full Cons in \<open>auto simp: current_def bank_def\<close>)
  qed
qed

section \<open>Writing a line\<close>

text \<open>The bytes one log entry contributes. A line without a footer gets its delimiter with the
  message, so an empty message gets none.\<close>

definition line :: "bytes \<Rightarrow> nat \<Rightarrow> bytes \<Rightarrow> nat \<Rightarrow> bytes \<Rightarrow> nat \<Rightarrow> logTarget \<Rightarrow> bytes" where
  "line hdr lh s len ftr lf t =
     take lh hdr @ take len s @
     (if lf = 0 then (if len = 0 then [] else delim_bytes (tdelim t))
      else take lf ftr @ delim_bytes (tdelim t))"

lemma copy_line_spec:
  assumes inv: "tgt_inv cbs t"
    and src: "lh \<le> length hdr" "len \<le> length s" "lf \<le> length ftr"
    and fits: "lh + len + lf = 0 \<or>
      llen (current t) + lh + len + lf + length (delim_bytes (tdelim t)) \<le> bankSize t"
  shows "\<exists>b. copy_line hdr lh s len ftr lf t = Inr (set_bank (currentBuffer t) b t) \<and> bank_ok t b \<and>
    logBuf_text b = logBuf_text (current t) @ line hdr lh s len ftr lf t"
proof (cases "lh + len + lf = 0")
  case True
  note ok = current_ok [OF inv]
  from True show ?thesis
    by (intro exI [of _ "current t"]) (simp add: copy_line_def copyIn_def line_def ok)
next
  case False
  note ok = current_ok [OF inv]
  then have wf: "logBuf_wf (current t)" and sp: "lspace (current t) = bankSize t"
    and dl: "delim_bytes (ldelim (current t)) = delim_bytes (tdelim t)" by (auto simp: bank_ok_def)
  define d where "d = length (delim_bytes (tdelim t))"
  have f: "llen (current t) + lh + len + lf + d \<le> bankSize t" using fits False unfolding d_def by blast
  obtain b1 where b1: "copyIn hdr lh False (current t) = Inr b1" "logBuf_wf b1" "lspace b1 = bankSize t"
    "ldelim b1 = ldelim (current t)" "logBuf_text b1 = logBuf_text (current t) @ take lh hdr"
    using copyIn_ok [OF wf src(1), of False] f sp by (auto split: if_splits)
  have l1: "llen b1 = llen (current t) + lh"
    using length_logBuf_text [OF b1(2)] length_logBuf_text [OF wf] b1(5) src(1) by simp
  have dd: "delim_len b = d" if "ldelim b = ldelim (current t)" for b
    using dl that by (simp add: delim_len_def d_def)
  have pre: "llen b1 + len + (if lf = 0 then delim_len b1 else 0) \<le> lspace b1"
    using f b1(3) l1 dd [OF b1(4)] by simp
  obtain b2 where b2: "copyIn s len (lf = 0) b1 = Inr b2" "logBuf_wf b2" "lspace b2 = bankSize t"
    "ldelim b2 = ldelim (current t)"
    "logBuf_text b2 = logBuf_text b1 @ (if len = 0 then [] else take len s @
        (if lf = 0 then delim_bytes (tdelim t) else []))"
    using copyIn_ok [OF b1(2) src(2) pre] b1(3,4) dl by auto
  show ?thesis
  proof (cases "lf = 0")
    case True
    have "bank_ok t b2" using b2 dl by (simp add: bank_ok_def)
    moreover have "copy_line hdr lh s len ftr lf t = Inr (set_bank (currentBuffer t) b2 t)"
      using b1(1) b2(1) True by (simp add: copy_line_def)
    ultimately show ?thesis using b1(5) b2(5) True by (auto simp: line_def)
  next
    case False
    have l2: "llen b2 = llen (current t) + lh + len"
      using length_logBuf_text [OF b2(2)] length_logBuf_text [OF b1(2)] b2(5) l1 src(2) False by (auto split: if_splits)
    obtain b3 where b3: "copyIn ftr lf True b2 = Inr b3" "logBuf_wf b3" "lspace b3 = bankSize t"
      "ldelim b3 = ldelim (current t)"
      "logBuf_text b3 = logBuf_text b2 @ take lf ftr @ delim_bytes (tdelim t)"
      using copyIn_ok [OF b2(2) src(3), of True] f b2 dl l2 dd [OF b2(4)] False by auto
    have "bank_ok t b3" using b3 dl by (simp add: bank_ok_def)
    moreover have "copy_line hdr lh s len ftr lf t = Inr (set_bank (currentBuffer t) b3 t)"
      using b1(1) b2(1) b3(1) False by (simp add: copy_line_def)
    ultimately show ?thesis using b1(5) b2(5) b3(5) False by (auto simp: line_def)
  qed
qed

lemma copy_line_stream:
  assumes inv: "tgt_inv cbs t"
    and src: "lh \<le> length hdr" "len \<le> length s" "lf \<le> length ftr"
    and fits: "lh + len + lf = 0 \<or>
      llen (current t) + lh + len + lf + length (delim_bytes (tdelim t)) \<le> bankSize t"
  shows "\<exists>t'. copy_line hdr lh s len ftr lf t = Inr t' \<and> tgt_inv cbs t' \<and>
    tstream t' = tstream t @ line hdr lh s len ftr lf t \<and>
    text_of t' (currentBuffer t') = text_of t (currentBuffer t) @ line hdr lh s len ftr lf t \<and>
    handed t' = handed t \<and> inflight t' = inflight t \<and> tkind t' = tkind t \<and>
    items (writeOutBuffers t') = items (writeOutBuffers t) \<and> currentBuffer t' = currentBuffer t \<and>
    (\<forall>c. c \<noteq> currentBuffer t \<longrightarrow> bank t' c = bank t c) \<and> bankSize t' = bankSize t \<and> tdelim t' = tdelim t"
proof -
  obtain b where run: "copy_line hdr lh s len ftr lf t = Inr (set_bank (currentBuffer t) b t)"
    and ok: "bank_ok t b" and tx: "logBuf_text b = logBuf_text (current t) @ line hdr lh s len ftr lf t"
    using copy_line_spec [OF assms] by blast
  have cur: "logBuf_text (current t) = text_of t (currentBuffer t)" by (simp add: text_of_def current_def)
  show ?thesis
    unfolding run using set_current_inv [OF inv ok] tx cur tgt_invD(1,8) [OF inv]
    by (simp add: tstream_def bank_set_bank)
qed

text \<open>A line that does not fit changes the bank first.\<close>

lemma write_target_rotates:
  assumes inv: "tgt_inv cbs t" and en: "\<not> tdisabled t"
    and small: "len + GREASE_MAX_PREFIX_HEADER \<le> bankSize t" and src: "len \<le> length s"
    and hdr: "putsHeader clk (header_buffer ow) GREASE_MAX_PREFIX_HEADER m fil ow t = Inr (lh, hb)"
    and ftr: "putsFooter (footer_buffer ow) (size_t_sub GREASE_MAX_PREFIX_HEADER lh) fil t = Inr (lf, fb)"
    and bounds: "lh \<le> length hb" "lf \<le> length fb"
    and room: "lh + len + lf + length (delim_bytes (tdelim t)) \<le> bankSize t"
    and cmdq: "circular_inv (internalCmdQueue ow)"
    and no_room: "\<not> logBuf_remain (current t) \<ge> int (len + lh + lf)"
  shows "\<exists>ow' t'. write_target clk s len m fil ow t = Inr (ow', t') \<and> tgt_inv cbs t' \<and>
    (if items (availBuffers t) = [] then tstream t' = handed t
     else if length (items (internalCmdQueue ow)) < capacity (internalCmdQueue ow)
     then tstream t' = tstream t @ line hb lh s len fb lf t \<and> asyncInternalCommand \<in> pending ow'
     else tstream t' = tstream t)"
proof -
  note ok = current_ok [OF inv]
  have full: "llen (current t) \<noteq> 0"
  proof
    assume "llen (current t) = 0"
    then have "logBuf_remain (current t) = int (bankSize t) - int (length (delim_bytes (tdelim t)))"
      using ok room by (auto simp: bank_ok_def logBuf_remain_eq delim_len_def)
    with no_room room show False by simp
  qed
  obtain r t1 where rot: "rotate_bank t = (r, t1)" by (cases "rotate_bank t")
  note R = rotate_bank_spec [OF inv rot]
  define ow1 where "ow1 = ow\<lparr>header_buffer := hb, footer_buffer := fb\<rparr>"
  have q: "internalCmdQueue ow1 = internalCmdQueue ow" by (simp add: ow1_def)
  have step: "write_target clk s len m fil ow t =
      (if \<not> r then Inr (ow1, t1)
       else (case tw_addMvIfRoom internalCmdReq_moved
               (internalCmdReq_new TARGET_ROTATE_BUFFER (myId t1)) (internalCmdQueue ow) of
               (False, _, _) \<Rightarrow> Inr (ow1, t1)
             | (True, _, q) \<Rightarrow> bindR (copy_line hb lh s len fb lf t1) (\<lambda>t.
                 Inr (uv_async_send asyncInternalCommand
                       (refGreaseInGrease (ow1\<lparr>internalCmdQueue := q\<rparr>)), t))))"
    using en small hdr ftr no_room rot
    by (simp add: write_target_def not_less [symmetric] Let_def ow1_def split: bool.split prod.split)
  show ?thesis
  proof (cases r)
    case no: False
    with R full have "tgt_inv cbs t1" "items (availBuffers t) = []" "tstream t1 = handed t" by auto
    with no show ?thesis by (simp add: step)
  next
    case yes: True
    with R full have inv1: "tgt_inv cbs t1" and st: "tstream t1 = tstream t" "llen (current t1) = 0"
      and av: "items (availBuffers t) \<noteq> []" and eqs: "bankSize t1 = bankSize t" "tdelim t1 = tdelim t"
      by auto
    have fits: "lh + len + lf = 0 \<or>
        llen (current t1) + lh + len + lf + length (delim_bytes (tdelim t1)) \<le> bankSize t1"
      using room st(2) by (simp add: eqs)
    obtain t2 where cp: "copy_line hb lh s len fb lf t1 = Inr t2" "tgt_inv cbs t2"
      "tstream t2 = tstream t1 @ line hb lh s len fb lf t1"
      using copy_line_stream [OF inv1 bounds(1) src bounds(2) fits] by blast
    have ln: "line hb lh s len fb lf t1 = line hb lh s len fb lf t" by (simp add: line_def eqs)
    define req where "req = internalCmdReq_new TARGET_ROTATE_BUFFER (myId t1)"
    obtain b q' where add: "tw_addIfRoom req (internalCmdQueue ow) = (b, q')" by (cases "tw_addIfRoom req (internalCmdQueue ow)")
    have b: "b \<longleftrightarrow> length (items (internalCmdQueue ow)) < capacity (internalCmdQueue ow)"
      using tw_addIfRoom_spec [OF cmdq add] by simp
    have mv: "tw_addMvIfRoom internalCmdReq_moved req (internalCmdQueue ow) = (b, req, q')"
      using add by (simp add: tw_addMvIfRoom_eq internalCmdReq_moved_def)
    show ?thesis
      using av b cp inv1 st(1) yes ln
      by (cases b) (simp_all add: step mv req_def [symmetric] uv_async_send_def del: length_items)
  qed
qed

lemma write_target_line:
  assumes inv: "tgt_inv cbs t" and en: "\<not> tdisabled t"
    and small: "len + GREASE_MAX_PREFIX_HEADER \<le> bankSize t" and src: "len \<le> length s"
    and hdr: "putsHeader clk (header_buffer ow) GREASE_MAX_PREFIX_HEADER m fil ow t = Inr (lh, hb)"
    and ftr: "putsFooter (footer_buffer ow) (size_t_sub GREASE_MAX_PREFIX_HEADER lh) fil t = Inr (lf, fb)"
    and bounds: "lh \<le> length hb" "lf \<le> length fb"
    and room: "lh + len + lf + length (delim_bytes (tdelim t)) \<le> bankSize t"
    and cmdq: "circular_inv (internalCmdQueue ow)"
  shows "\<exists>ow' t'. write_target clk s len m fil ow t = Inr (ow', t') \<and> tgt_inv cbs t' \<and>
    (if logBuf_remain (current t) \<ge> int (len + lh + lf)
     then tstream t' = tstream t @ line hb lh s len fb lf t
     else if items (availBuffers t) = [] then tstream t' = handed t
     else if length (items (internalCmdQueue ow)) < capacity (internalCmdQueue ow)
     then tstream t' = tstream t @ line hb lh s len fb lf t \<and> asyncInternalCommand \<in> pending ow'
     else tstream t' = tstream t)"
proof (cases "logBuf_remain (current t) \<ge> int (len + lh + lf)")
  case True
  note ok = current_ok [OF inv]
  then have fits: "lh + len + lf = 0 \<or>
      llen (current t) + lh + len + lf + length (delim_bytes (tdelim t)) \<le> bankSize t"
    using True by (auto simp: bank_ok_def logBuf_remain_eq delim_len_def)
  obtain t' where "copy_line hb lh s len fb lf t = Inr t'" "tgt_inv cbs t'"
    "tstream t' = tstream t @ line hb lh s len fb lf t"
    using copy_line_stream [OF inv bounds(1) src bounds(2) fits] by blast
  with True show ?thesis
    using en small hdr ftr by (simp add: write_target_def not_less [symmetric] Let_def)
next
  case False
  then show ?thesis using write_target_rotates [OF assms False] by simp
qed

text \<open>C10 \<open>write()\<close> on an enabled target whose banks can hold the line either appends exactly one whole
  line (header, message, footer, delimiter) to the target's stream, or drops it, and it says which:
  the line is lost together with the current bank when no bank is available, and alone when the
  rotation command cannot be queued. No \<open>copyIn\<close> leaves a bank and the bank discipline holds.\<close>

theorem write_target_stream:
  assumes inv: "tgt_inv cbs t" and en: "\<not> tdisabled t"
    and small: "len + GREASE_MAX_PREFIX_HEADER \<le> bankSize t" and src: "len \<le> length s"
    and hdr: "putsHeader clk (header_buffer ow) GREASE_MAX_PREFIX_HEADER m fil ow t = Inr (lh, hb)"
    and ftr: "putsFooter (footer_buffer ow) (size_t_sub GREASE_MAX_PREFIX_HEADER lh) fil t = Inr (lf, fb)"
    and bounds: "lh \<le> length hb" "lf \<le> length fb"
    and room: "lh + len + lf + length (delim_bytes (tdelim t)) \<le> bankSize t"
    and cmdq: "circular_inv (internalCmdQueue ow)"
  shows "\<exists>ow' t'. write_target clk s len m fil ow t = Inr (ow', t') \<and> tgt_inv cbs t' \<and>
    (if logBuf_remain (current t) \<ge> int (len + lh + lf)
     then tstream t' = tstream t @ line hb lh s len fb lf t
     else if items (availBuffers t) = [] then tstream t' = handed t
     else if length (items (internalCmdQueue ow)) < capacity (internalCmdQueue ow)
     then tstream t' = tstream t @ line hb lh s len fb lf t \<and> asyncInternalCommand \<in> pending ow'
     else tstream t' = tstream t)"
  using write_target_line [OF assms] .

section \<open>Flushing\<close>

definition device_ready :: "logTarget \<Rightarrow> bool" where
  "device_ready t \<longleftrightarrow> (case tkind t of TTY \<Rightarrow> True | FILE ft \<Rightarrow> fileHandle ft | CALLBACK \<Rightarrow> False)"

lemma put_out_ready:
  "device_ready t \<Longrightarrow> written (put_out s t) = written t @ [s] \<and> device_ready (put_out s t)"
  by (auto simp: device_ready_def put_out_def split: targetKind.splits)

lemma file_upd_ready:
  "(\<And>ft. fileHandle (u ft) = fileHandle ft) \<Longrightarrow> device_ready (file_upd u t) = device_ready t"
  by (auto simp: device_ready_def file_upd_def split: targetKind.splits)

lemma flush_bank_async:
  assumes "device_ready t"
  shows "\<exists>k. flush_bank ta b nocb ow t =
      Inr (ow, t\<lparr>inflight := inflight t @ [(b, nocb)], written := written t @ [text_of t b], tkind := k\<rparr>) \<and>
    device_ready (t\<lparr>inflight := inflight t @ [(b, nocb)], written := written t @ [text_of t b], tkind := k\<rparr>)"
proof (cases "tkind t")
  case TTY
  then show ?thesis
    by (intro exI [of _ TTY])
      (simp add: flush_bank_def put_out_def text_of_def device_ready_def)
next
  case (FILE ft)
  define ft1 where "ft1 = ft\<lparr>current_size := current_size ft + word_of_nat (llen (bank t b)),
      submittedWrites := submittedWrites ft + 1\<rparr>"
  have "fileHandle ft" using assms FILE by (simp add: device_ready_def)
  then show ?thesis
    using FILE
    by (intro exI [of _ "FILE (ft1\<lparr>files := fs_append (myPath ft) (text_of t b) (files ft)\<rparr>)"])
      (simp add: flush_bank_def put_out_def text_of_def device_ready_def file_upd_def Let_def
        bank_def ft1_def)
next
  case CALLBACK
  with assms show ?thesis by (simp add: device_ready_def)
qed

lemma bank_more [simp]:
  "bank (t\<lparr>inflight := a\<rparr>) b = bank t b" "bank (t\<lparr>written := w\<rparr>) b = bank t b"
  "bank (t\<lparr>tkind := k\<rparr>) b = bank t b" "bank (t\<lparr>writeOutBuffers := q\<rparr>) b = bank t b"
  "bank (t\<lparr>availBuffers := q\<rparr>) b = bank t b" "bank (t\<lparr>delivered := w\<rparr>) b = bank t b"
  by (simp_all add: bank_def)

lemma text_of_more [simp]:
  "text_of (t\<lparr>inflight := a\<rparr>) = text_of t" "text_of (t\<lparr>written := w\<rparr>) = text_of t"
  "text_of (t\<lparr>tkind := k\<rparr>) = text_of t" "text_of (t\<lparr>writeOutBuffers := q\<rparr>) = text_of t"
  "text_of (t\<lparr>availBuffers := q\<rparr>) = text_of t" "text_of (t\<lparr>delivered := w\<rparr>) = text_of t"
  by (simp_all add: text_of_def fun_eq_iff)

lemma drain_async:
  assumes "tgt_inv cbs t" "device_ready t"
  shows "\<exists>t'. drain ta nocb ow t = Inr (ow, t') \<and> tgt_inv cbs t' \<and> device_ready t' \<and>
    items (writeOutBuffers t') = [] \<and> banks t' = banks t \<and> currentBuffer t' = currentBuffer t \<and>
    inflight t' = inflight t @ map (\<lambda>b. (b, nocb)) (items (writeOutBuffers t)) \<and>
    written t' = written t @ map (text_of t) (items (writeOutBuffers t)) \<and>
    items (availBuffers t') = items (availBuffers t)"
  using assms
proof (induction "items (writeOutBuffers t)" arbitrary: t)
  case Nil
  note D = tgt_invD [OF Nil.prems(1)]
  have "tw_remove (writeOutBuffers t) = (None, writeOutBuffers t)"
    using tw_remove_Nil [OF D(4)] Nil.hyps by simp
  then have "drain ta nocb ow t = Inr (ow, t)" by (subst drain.simps) simp
  with Nil show ?case by simp
next
  case (Cons b bs)
  note D = tgt_invD [OF Cons.prems(1)]
  obtain q where rm: "tw_remove (writeOutBuffers t) = (Some b, q)"
    and q: "circular_inv q" "capacity q = NUM_BANKS - 1" "bs = items q"
    using tw_remove_Cons [OF D(4)] D(5) Cons.hyps(2) by metis
  define t0 where "t0 = t\<lparr>writeOutBuffers := q\<rparr>"
  have "device_ready t0" using Cons.prems(2) by (simp add: device_ready_def t0_def)
  then obtain k where fl: "flush_bank ta b nocb ow t0 = Inr (ow, t0\<lparr>inflight := inflight t0 @ [(b, nocb)],
      written := written t0 @ [text_of t0 b], tkind := k\<rparr>)"
    and rdy: "device_ready (t0\<lparr>inflight := inflight t0 @ [(b, nocb)], written := written t0 @ [text_of t0 b], tkind := k\<rparr>)"
    using flush_bank_async by blast
  define t1 where "t1 = t0\<lparr>inflight := inflight t0 @ [(b, nocb)], written := written t0 @ [text_of t0 b], tkind := k\<rparr>"
  have flds: "items (writeOutBuffers t1) = bs" "banks t1 = banks t" "currentBuffer t1 = currentBuffer t"
    "inflight t1 = inflight t @ [(b, nocb)]" "written t1 = written t @ [text_of t b]"
    "availBuffers t1 = availBuffers t" "writeOutBuffers t1 = q" "bankSize t1 = bankSize t" "tdelim t1 = tdelim t"
    by (simp_all add: t1_def t0_def q text_of_def)
  have bk: "bank t1 c = bank t c" for c by (simp add: bank_def flds)
  have tx: "text_of t1 = text_of t" by (rule ext) (simp add: text_of_def bk)
  have "distinct (places cbs t1) \<and> set (places cbs t1) = set (places cbs t)"
    using D(6) Cons.hyps(2) [symmetric] by (auto simp: places_def flds q(3) [symmetric])
  then have inv1: "tgt_inv cbs t1"
    unfolding tgt_inv_def using D q(1,2) Cons.hyps(2) [symmetric]
    by (auto simp: flds bk bank_ok_def q(3) [symmetric])
  obtain t' where "drain ta nocb ow t1 = Inr (ow, t')" "tgt_inv cbs t'" "device_ready t'"
    "items (writeOutBuffers t') = []" "banks t' = banks t1" "currentBuffer t' = currentBuffer t1"
    "inflight t' = inflight t1 @ map (\<lambda>b. (b, nocb)) (items (writeOutBuffers t1))"
    "written t' = written t1 @ map (text_of t1) (items (writeOutBuffers t1))"
    "items (availBuffers t') = items (availBuffers t1)"
    using Cons.hyps(1) [OF flds(1) [symmetric] inv1 rdy [folded t1_def]] by blast
  moreover have "drain ta nocb ow t = drain ta nocb ow t1"
    by (subst drain.simps) (simp add: rm fl t0_def [symmetric] t1_def [symmetric])
  ultimately show ?case using Cons.hyps(2) [symmetric] by (simp add: flds tx q(3) [symmetric])
qed

text \<open>C20 \<open>flushAll()\<close> on a terminal or an open file ends, empties the write-out queue, and hands the
  device everything the target was given, in order, provided a bank is available (or the current
  one is empty); without one the current bank is thrown away.\<close>

theorem flushAll_hands_over:
  assumes inv: "tgt_inv cbs t" and ready: "device_ready t"
  shows "\<exists>t'. flushAll_target ta True nocb ow t = Inr (ow, t') \<and> tgt_inv cbs t' \<and>
    items (writeOutBuffers t') = [] \<and> llen (current t') = 0 \<and>
    concat (written t') =
      (if llen (current t) = 0 \<or> items (availBuffers t) \<noteq> [] then tstream t else handed t)"
proof -
  obtain r t1 where rot: "rotate_bank t = (r, t1)" by (cases "rotate_bank t")
  note R = rotate_bank_spec [OF inv rot]
  have inv1: "tgt_inv cbs t1" and rdy1: "device_ready t1"
    using R ready by (auto simp: device_ready_def)
  have emp: "llen (current t1) = 0" using R by (auto split: if_splits)
  obtain t' where d: "drain ta nocb ow t1 = Inr (ow, t')" "tgt_inv cbs t'"
    "items (writeOutBuffers t') = []" "banks t' = banks t1" "currentBuffer t' = currentBuffer t1"
    "written t' = written t1 @ map (text_of t1) (items (writeOutBuffers t1))"
    using drain_async [OF inv1 rdy1] by blast
  have "llen (current t') = 0" using emp d(4,5) by (simp add: current_def bank_def)
  moreover have "concat (written t') = tstream t1"
    using emp by (simp add: d(6) tstream_def handed_def text_of_def logBuf_text_def current_def)
  moreover have "flushAll_target ta True nocb ow t = drain ta nocb ow t1"
    using rot by (simp add: flushAll_target_def)
  ultimately show ?thesis
    using R d(1-3) by (auto split: if_splits)
qed


end
