(* ===== verification/Completion.thy ===== *)
theory Completion
  imports Banks
begin

text \<open>
  What happens to a bank after its write: \<open>returnBuffer\<close>, the completion callbacks, the
  JavaScript callback's \<open>finalizeV8Callback\<close>. The accounting of the two keep-alive
  counters: how many references a target owes, and that no \<open>assert\<close> on a counter fires.
\<close>

section \<open>Banks come back\<close>

lemma clear_bank_inv:
  assumes inv: "tgt_inv (cs @ b # ds) t"
  defines "t' \<equiv> set_bank b (logBuf_clear (bank t b)) t"
  shows "tgt_inv (cs @ b # ds) t'" "tstream t' = tstream t" "llen (bank t' b) = 0"
    "\<And>c. c \<noteq> b \<Longrightarrow> bank t' c = bank t c"
proof -
  note D = tgt_invD [OF inv]
  have b: "b < NUM_BANKS" using D(7) by (auto simp: places_def)
  have bk: "bank t' c = (if c = b then logBuf_clear (bank t b) else bank t c)" for c
    using b D(1) by (simp add: t'_def bank_set_bank)
  have nb: "currentBuffer t \<noteq> b" "b \<notin> set (items (writeOutBuffers t))" "b \<notin> set (items (availBuffers t))"
    using D(6) by (auto simp: places_def)
  have pl: "places (cs @ b # ds) t' = places (cs @ b # ds) t" by (simp add: places_def t'_def)
  have flds: "writeOutBuffers t' = writeOutBuffers t" "availBuffers t' = availBuffers t"
    "length (banks t') = length (banks t)" "bank_ok t' = bank_ok t" "written t' = written t"
    "currentBuffer t' = currentBuffer t"
    by (simp_all add: t'_def bank_ok_def fun_eq_iff) (simp add: set_bank_def)
  have "bank_ok t (logBuf_clear (bank t b))" using D(9) [OF b] by (simp add: bank_ok_def)
  then show "tgt_inv (cs @ b # ds) t'"
    unfolding tgt_inv_def pl using D nb by (auto simp: flds bk)
  show "tstream t' = tstream t"
  proof -
    have tx: "text_of t' c = text_of t c" if "c \<noteq> b" for c using that by (simp add: text_of_def bk)
    have "map (text_of t') (items (writeOutBuffers t)) = map (text_of t) (items (writeOutBuffers t))"
      "text_of t' (currentBuffer t) = text_of t (currentBuffer t)"
      using nb by (auto intro!: map_cong tx)
    note this [THEN sym]
    then show ?thesis unfolding tstream_def handed_def flds by (simp only:)
  qed
  show "llen (bank t' b) = 0" "\<And>c. c \<noteq> b \<Longrightarrow> bank t' c = bank t c" by (simp_all add: bk)
qed

text \<open>A bank outside the queues goes back to the available ones; there is always room.\<close>

lemma give_back_spec:
  assumes inv: "tgt_inv (cs @ b # ds) t"
  shows "\<exists>t'. give_back b t = Inr t' \<and> tgt_inv (cs @ ds) t' \<and> tstream t' = tstream t \<and>
    items (availBuffers t') = items (availBuffers t) @ [b] \<and> inflight t' = inflight t \<and>
    tkind t' = tkind t \<and> items (writeOutBuffers t') = items (writeOutBuffers t) \<and>
    currentBuffer t' = currentBuffer t \<and> (\<forall>c. c \<noteq> b \<longrightarrow> bank t' c = bank t c) \<and>
    llen (bank t' b) = 0 \<and> written t' = written t \<and> logCallbackSet t' = logCallbackSet t \<and>
    finalizeV8Callback b t = t'"
proof -
  define t1 where "t1 = set_bank b (logBuf_clear (bank t b)) t"
  note C = clear_bank_inv [OF inv, folded t1_def]
  note D = tgt_invD [OF C(1)]
  have "length (places (cs @ b # ds) t1) = NUM_BANKS" by (rule places_length [OF C(1)])
  then have room: "length (items (availBuffers t1)) < capacity (availBuffers t1)"
    unfolding places_def D(3) by simp
  obtain q where q: "tw_add b (availBuffers t1) = Inr q" "circular_inv q" "capacity q = NUM_BANKS"
    "items q = items (availBuffers t1) @ [b]"
    using tw_add_room [OF D(2) room] D(3) by metis
  have q': "snd (tw_addIfRoom b (availBuffers t1)) = q"
    using tw_add_spec [OF D(2), of b] room q(1) by simp
  define t2 where "t2 = t1\<lparr>availBuffers := q\<rparr>"
  have bk: "bank t2 c = bank t1 c" for c by (simp add: t2_def)
  have "distinct (places (cs @ ds) t2) \<and> set (places (cs @ ds) t2) = set (places (cs @ b # ds) t1)"
    using D(6) by (auto simp: places_def t2_def q)
  then have "tgt_inv (cs @ ds) t2"
    unfolding tgt_inv_def using D q C(3) bk by (auto simp: t2_def bank_ok_def)
  moreover have "tstream t2 = tstream t"
    using C(2) by (simp add: tstream_def handed_def t2_def)
  moreover have "give_back b t = Inr t2"
    using q(1) by (simp add: give_back_def clear_bank_def t1_def [symmetric] t2_def Let_def)
  moreover have "finalizeV8Callback b t = t2"
    using q' by (simp add: finalizeV8Callback_def clear_bank_def t1_def [symmetric] t2_def Let_def)
  ultimately show ?thesis
    using q(4) C(3,4) by (intro exI [of _ t2]) (simp add: bk, simp add: t2_def t1_def)
qed

text \<open>The banks of target \<open>ta\<close> that wait in the V8 queue.\<close>

definition cb_bank :: "nat \<Rightarrow> writeCBData \<Rightarrow> nat option" where
  "cb_bank ta d = (if wt d = Some ta then wb d else None)"

definition cb_banks :: "nat \<Rightarrow> 'z owner_scheme \<Rightarrow> nat list" where
  "cb_banks ta ow = List.map_filter (cb_bank ta) (items (v8LogCallbacks ow))"

lemma map_filter_snoc:
  "List.map_filter f (xs @ [x]) = List.map_filter f xs @ (case f x of Some y \<Rightarrow> [y] | None \<Rightarrow> [])"
  by (simp add: List.map_filter_def split: option.split)

lemma unrefGrease_frame:
  "unrefGreaseInGrease ow = Inr ow' \<Longrightarrow> v8LogCallbacks ow' = v8LogCallbacks ow"
  "unrefGreaseInGrease ow = Inr ow' \<Longrightarrow> needGreaseThread ow' = needGreaseThread ow - 1"
  "unrefGreaseInGrease ow = Inr ow' \<Longrightarrow> needV8 ow' = needV8 ow"
proof -
  assume "unrefGreaseInGrease ow = Inr ow'"
  then have "ow' = (if needGreaseThread ow - 1 < 1
      then stopFlushTimer (ow\<lparr>needGreaseThread := needGreaseThread ow - 1\<rparr>)
      else ow\<lparr>needGreaseThread := needGreaseThread ow - 1\<rparr>)"
    by (simp add: unrefGreaseInGrease_def Let_def split: if_split_asm)
  then show "v8LogCallbacks ow' = v8LogCallbacks ow" "needGreaseThread ow' = needGreaseThread ow - 1"
    "needV8 ow' = needV8 ow" by (simp_all add: stopFlushTimer_def)
qed

lemma unrefGrease_ok: "0 < needGreaseThread ow \<Longrightarrow> \<exists>ow'. unrefGreaseInGrease ow = Inr ow'"
  by (simp add: unrefGreaseInGrease_def Let_def)

text \<open>
  \<open>returnBuffer\<close> of a written bank: back to the available ones, or into the V8 queue when
  a callback is set and that queue has room.
\<close>

lemma returnBuffer_spec:
  assumes inv: "tgt_inv (cb_banks ta ow @ [b]) t" and q: "circular_inv (v8LogCallbacks ow)"
    and refs: "llen (bank t b) \<noteq> 0 \<Longrightarrow> 0 < needGreaseThread ow"
  shows "\<exists>ow' t'. returnBuffer ta b False nocb ow t = Inr (ow', t') \<and>
    tgt_inv (cb_banks ta ow') t' \<and> circular_inv (v8LogCallbacks ow') \<and>
    capacity (v8LogCallbacks ow') = capacity (v8LogCallbacks ow) \<and> tstream t' = tstream t \<and>
    inflight t' = inflight t \<and> written t' = written t \<and> tkind t' = tkind t \<and>
    items (writeOutBuffers t') = items (writeOutBuffers t) \<and> currentBuffer t' = currentBuffer t \<and>
    (\<forall>c. c \<noteq> b \<longrightarrow> bank t' c = bank t c) \<and>
    needGreaseThread ow' = needGreaseThread ow - (if llen (bank t b) = 0 then 0 else 1) \<and>
    needV8 ow' + length (items (v8LogCallbacks ow)) = needV8 ow + length (items (v8LogCallbacks ow')) \<and>
    (\<forall>tb. tb \<noteq> ta \<longrightarrow> cb_banks tb ow' = cb_banks tb ow) \<and>
    (if llen (bank t b) \<noteq> 0 \<and> \<not> nocb \<and> logCallbackSet t \<and>
        length (items (v8LogCallbacks ow)) < capacity (v8LogCallbacks ow)
     then t' = t \<and> items (v8LogCallbacks ow') = items (v8LogCallbacks ow) @ [writeCBData_new ta b] \<and>
       asyncV8LogCallback \<in> pending ow'
     else items (availBuffers t') = items (availBuffers t) @ [b] \<and> v8LogCallbacks ow' = v8LogCallbacks ow)"
proof -
  define e where "e \<longleftrightarrow> llen (bank t b) = 0"
  obtain ow1 where ow1: "(if \<not> e then unrefGreaseInGrease ow else Inr ow) = Inr ow1"
    using unrefGrease_ok refs by (cases e) (auto simp: e_def)
  have o1: "v8LogCallbacks ow1 = v8LogCallbacks ow" "needV8 ow1 = needV8 ow"
    "needGreaseThread ow1 = needGreaseThread ow - (if e then 0 else 1)"
    using ow1 by (auto split: if_splits dest: unrefGrease_frame)
  obtain t2 where gb: "give_back b t = Inr t2" "tgt_inv (cb_banks ta ow) t2" "tstream t2 = tstream t"
    "items (availBuffers t2) = items (availBuffers t) @ [b]" "inflight t2 = inflight t"
    "tkind t2 = tkind t" "items (writeOutBuffers t2) = items (writeOutBuffers t)"
    "currentBuffer t2 = currentBuffer t" "\<forall>c. c \<noteq> b \<longrightarrow> bank t2 c = bank t c" "written t2 = written t"
    using give_back_spec [of "cb_banks ta ow" b "[]" t] inv by auto
  have cbs: "cb_banks x ow1 = cb_banks x ow" for x by (simp add: cb_banks_def o1)
  obtain r q' where add: "tw_addIfRoom (writeCBData_new ta b) (v8LogCallbacks ow) = (r, q')"
    by (cases "tw_addIfRoom (writeCBData_new ta b) (v8LogCallbacks ow)")
  note A = tw_addIfRoom_spec [OF q add]
  have mv: "tw_addMvIfRoom writeCBData_moved (writeCBData_new ta b) (v8LogCallbacks ow1) =
      (r, if r then writeCBData_moved (writeCBData_new ta b) else writeCBData_new ta b, q')"
    using add by (simp add: tw_addMvIfRoom_eq o1)
  have step: "returnBuffer ta b False nocb ow t =
      (if \<not> nocb \<and> logCallbackSet t \<and> \<not> e \<and> r
       then Inr (uv_async_send asyncV8LogCallback (refFromV8 (ow1\<lparr>v8LogCallbacks := q'\<rparr>)), t)
       else Inr (ow1, t2))"
    using ow1 gb(1) mv
    by (simp only: returnBuffer_def Let_def logBuf_isEmpty_def e_def [symmetric] bindR_simps if_False
        split: bool.split prod.split) (simp split: bool.split)
  show ?thesis
  proof (cases "\<not> nocb \<and> logCallbackSet t \<and> \<not> e \<and> r")
    case False
    have run: "returnBuffer ta b False nocb ow t = Inr (ow1, t2)"
      by (rule trans [OF step if_not_P [OF False]])
    then show ?thesis
      using False gb A q o1 cbs by (intro exI [of _ ow1] exI [of _ t2]) (auto simp: e_def simp del: length_items)
  next
    case True
    define ow2 where "ow2 = uv_async_send asyncV8LogCallback (refFromV8 (ow1\<lparr>v8LogCallbacks := q'\<rparr>))"
    have run: "returnBuffer ta b False nocb ow t = Inr (ow2, t)"
      unfolding ow2_def by (rule trans [OF step if_P [OF True]])
    have o2: "v8LogCallbacks ow2 = q'" "needV8 ow2 = Suc (needV8 ow)" "needGreaseThread ow2 = needGreaseThread ow1"
      "asyncV8LogCallback \<in> pending ow2"
      by (simp_all add: ow2_def uv_async_send_def refFromV8_def Let_def o1)
    have c2: "cb_banks x ow2 = cb_banks x ow @ (if x = ta then [b] else [])" for x
      using True A by (auto simp: cb_banks_def o2 map_filter_snoc cb_bank_def writeCBData_new_def)
    show ?thesis
      using True run A inv o1 o2 c2 by (intro exI [of _ ow2] exI [of _ t]) (auto simp: e_def simp del: length_items)
  qed
qed

section \<open>What a target owes\<close>

text \<open>One reference on the logger's loop for each non-empty bank that has not been handed back,
  and one for each overflow in flight.\<close>

definition owed :: "logTarget \<Rightarrow> nat" where
  "owed t = length (filter (\<lambda>b. 0 < llen (bank t b))
      (currentBuffer t # items (writeOutBuffers t) @ map fst (inflight t))) + length (ovInflight t)"

text \<open>\<open>kept\<close>: an operation takes at least the references the target owes after it.\<close>

definition kept :: "'z owner_scheme \<Rightarrow> logTarget \<Rightarrow> 'z owner_scheme \<Rightarrow> logTarget \<Rightarrow> bool" where
  "kept ow t ow' t' \<longleftrightarrow> owed t' + needGreaseThread ow \<le> owed t + needGreaseThread ow'"

lemma kept_refl [simp]: "kept ow t ow t" by (simp add: kept_def)

lemma kept_trans: "kept ow t ow1 t1 \<Longrightarrow> kept ow1 t1 ow' t' \<Longrightarrow> kept ow t ow' t'"
  by (simp add: kept_def)

lemma owed_inflight:
  assumes "inflight t = xs @ (b, n) # ys" "0 < llen (bank t b)"
  shows "0 < owed t"
  using assms by (simp add: owed_def)

lemma filter_length_cong:
  "(\<And>x. x \<in> set xs \<Longrightarrow> P x = Q x) \<Longrightarrow> length (filter P xs) = length (filter Q xs)"
  by (simp cong: filter_cong)

text \<open>The write is taken out of those in flight and the file looked at: the bank is in no other place.\<close>

lemma write_done:
  assumes inv: "tgt_inv cbs t" and i: "i < length (inflight t)"
    and chk: "file_check None (t\<lparr>inflight := take i (inflight t) @ drop (Suc i) (inflight t)\<rparr>) = Inr t1"
  defines "b \<equiv> fst (inflight t ! i)"
  shows "tgt_inv (cbs @ [b]) t1" and "tstream t1 = tstream t"
    and "inflight t1 = take i (inflight t) @ drop (Suc i) (inflight t)" and "bank t1 c = bank t c"
    and "owed t1 + (if llen (bank t1 b) = 0 then 0 else 1) = owed t"
    and "\<forall>c \<in> set (currentBuffer t1 # items (writeOutBuffers t1) @ map fst (inflight t1)). c \<noteq> b"
proof -
  define xs ys n where "xs = take i (inflight t)" and "ys = drop (Suc i) (inflight t)" and "n = snd (inflight t ! i)"
  have fl: "inflight t = xs @ (b, n) # ys"
    using id_take_nth_drop [OF i] by (simp add: xs_def ys_def b_def n_def)
  note chk' = chk [folded xs_def ys_def]
  note D = tgt_invD [OF inv]
  have flds: "writeOutBuffers t1 = writeOutBuffers t" "availBuffers t1 = availBuffers t"
    "currentBuffer t1 = currentBuffer t" "banks t1 = banks t" "bankSize t1 = bankSize t"
    "tdelim t1 = tdelim t" "inflight t1 = xs @ ys" "written t1 = written t"
    using file_check_queues [OF chk'] by simp_all
  have ov: "ovInflight t1 = ovInflight t"
    using chk' by (auto simp: file_check_def bindR_eq_Inr split: targetKind.splits)
  have bk: "bank t1 c = bank t c" for c by (simp add: bank_def flds)
  show "bank t1 c = bank t c" by (rule bk)
  show "tstream t1 = tstream t" by (simp add: tstream_def handed_def text_of_def bk flds cong: map_cong)
  show "inflight t1 = take i (inflight t) @ drop (Suc i) (inflight t)" by (simp add: flds xs_def ys_def)
  have "distinct (places (cbs @ [b]) t1)" "set (places (cbs @ [b]) t1) = set (places cbs t)"
    using D(6) by (auto simp: places_def flds fl)
  then show "tgt_inv (cbs @ [b]) t1"
    unfolding tgt_inv_def using D by (auto simp: flds bk bank_ok_def)
  show "owed t1 + (if llen (bank t1 b) = 0 then 0 else 1) = owed t"
    by (simp add: owed_def ov fl flds bk)
  show "\<forall>c \<in> set (currentBuffer t1 # items (writeOutBuffers t1) @ map fst (inflight t1)). c \<noteq> b"
    using D(6) by (auto simp: places_def fl flds)
qed

lemma owed_returned:
  assumes "inflight t' = inflight t" "items (writeOutBuffers t') = items (writeOutBuffers t)"
    "currentBuffer t' = currentBuffer t" "ovInflight t' = ovInflight t" "\<forall>c. c \<noteq> b \<longrightarrow> bank t' c = bank t c"
    "\<forall>c \<in> set (currentBuffer t # items (writeOutBuffers t) @ map fst (inflight t)). c \<noteq> b"
  shows "owed t' = owed t"
proof -
  have "length (filter (\<lambda>c. 0 < llen (bank t' c)) (currentBuffer t # items (writeOutBuffers t) @ map fst (inflight t))) =
      length (filter (\<lambda>c. 0 < llen (bank t c)) (currentBuffer t # items (writeOutBuffers t) @ map fst (inflight t)))"
    by (rule filter_length_cong) (metis assms(5,6))
  then show ?thesis by (simp add: owed_def assms(1-4) del: filter.simps(2))
qed


lemma refGrease_cnt [simp]: "needGreaseThread (refGreaseInGrease ow) = Suc (needGreaseThread ow)"
  by (simp add: refGreaseInGrease_def startFlushTimer_def Let_def)

lemma owed_frame:
  assumes "currentBuffer t' = currentBuffer t" "items (writeOutBuffers t') = items (writeOutBuffers t)"
    "inflight t' = inflight t" "ovInflight t' = ovInflight t"
    "\<And>b. b \<noteq> currentBuffer t \<Longrightarrow> bank t' b = bank t b"
    and inv: "tgt_inv cbs t"
  shows "owed t' + (if 0 < llen (current t) then 1 else 0) = owed t + (if 0 < llen (current t') then 1 else 0)"
proof -
  have ne: "\<forall>c \<in> set (items (writeOutBuffers t) @ map fst (inflight t)). c \<noteq> currentBuffer t"
    using tgt_invD(6) [OF inv] by (auto simp: places_def)
  have "length (filter (\<lambda>b. 0 < llen (bank t' b)) (items (writeOutBuffers t) @ map fst (inflight t)))
      = length (filter (\<lambda>b. 0 < llen (bank t b)) (items (writeOutBuffers t) @ map fst (inflight t)))"
    by (rule filter_length_cong) (metis ne assms(5))
  then show ?thesis using assms(1-4) by (simp add: owed_def current_def)
qed

lemma set_bank_owed:
  assumes inv: "tgt_inv cbs t"
  shows "owed (set_bank (currentBuffer t) x t) + (if 0 < llen (current t) then 1 else 0) =
    owed t + (if 0 < llen x then 1 else 0)"
proof -
  define t' where "t' = set_bank (currentBuffer t) x t"
  have b: "currentBuffer t < length (banks t)" using tgt_invD(1,8) [OF inv] by simp
  then have cur: "current t' = x" by (simp add: current_def t'_def bank_set_bank)
  have "owed t' + (if 0 < llen (current t) then 1 else 0) = owed t + (if 0 < llen (current t') then 1 else 0)"
    by (rule owed_frame [OF _ _ _ _ _ inv]) (use b in \<open>simp_all add: t'_def bank_set_bank\<close>)
  then show ?thesis unfolding cur by (simp only: t'_def)
qed

lemma copy_line_set:
  "copy_line hb lh s len fb lf t = Inr t' \<Longrightarrow> \<exists>x. t' = set_bank (currentBuffer t) x t"
  by (auto simp: copy_line_def bindR_eq_Inr Let_def)

lemma rotate_bank_owed:
  assumes inv: "tgt_inv cbs t" and run: "rotate_bank t = (r, t')"
  shows "owed t' \<le> owed t \<and> (r \<longrightarrow> llen (current t') = 0)"
proof -
  note R = rotate_bank_spec [OF inv run]
  show ?thesis
  proof (cases r)
    case False
    with R have "owed t' + (if 0 < llen (current t) then 1 else 0) = owed t + (if 0 < llen (current t') then 1 else 0)"
      by (intro owed_frame [OF _ _ _ _ _ inv]) (auto split: if_splits)
    then show ?thesis using R False by (auto split: if_splits)
  next
    case True
    with R have r: "0 < llen (current t)" "llen (current t') = 0" "inflight t' = inflight t"
      "ovInflight t' = ovInflight t" "\<And>b. bank t' b = bank t b"
      "items (writeOutBuffers t') = items (writeOutBuffers t) @ [currentBuffer t]"
      by (auto split: if_splits)
    then have "owed t' = owed t" by (simp add: owed_def current_def)
    with r show ?thesis by simp
  qed
qed


end
