(* ===== verification/Logger.thy ===== *)
theory Logger
  imports Completion
begin

text \<open>
  \<open>GreaseLogger\<close> itself (logger.h, logger.cc): the target table, the entry points
  \<open>log\<close>, \<open>logP\<close>, \<open>logSync\<close> and \<open>logFromRaw\<close> with \<open>_log\<close>, and the logger thread's
  \<open>handleInternalCmd\<close>. Targets are objects at addresses, since the table, the default
  target and queued callbacks refer to them. The lookup table for ids is an association
  list in the order its iterator visits it.
\<close>

section \<open>State\<close>

record logger = owner +
  tgts :: "nat \<rightharpoonup> logTarget"
  nextTgt :: nat
  targets :: "(u32 \<times> nat) list"
  defaultTarget :: "nat option"
  defaultFilter :: Filter
  nextTargetId :: u32
  nextSinkId :: u32
  cmdHandlesClosed :: bool     \<comment> \<open>\<open>uv_close\<close> of the two command handles\<close>

definition find_target :: "u32 \<Rightarrow> 'z logger_scheme \<Rightarrow> nat option" where
  "find_target i st = map_of (targets st) i"

definition getTarget :: "u32 \<Rightarrow> 'z logger_scheme \<Rightarrow> nat option" where
  "getTarget key st = find_target key st"

definition with_target ::
    "nat \<Rightarrow> ('z logger_scheme \<Rightarrow> logTarget \<Rightarrow> ('z logger_scheme \<times> logTarget) res) \<Rightarrow>
       'z logger_scheme \<Rightarrow> 'z logger_scheme res" where
  "with_target a f st =
     bindR (deref (tgts st) a) (\<lambda>t. bindR (f st t) (\<lambda>(st, t).
       Inr (st\<lparr>tgts := (tgts st)(a \<mapsto> t)\<rparr>)))"

section \<open>Logging: the calling thread\<close>

text \<open>"[!! OVERFLOW ENDING]"\<close>

definition OVERFLOW_ENDING :: bytes where
  "OVERFLOW_ENDING =
     [91, 33, 33, 32, 79, 86, 69, 82, 70, 76, 79, 87, 32, 69, 78, 68, 73, 78, 71, 93]"

text \<open>
  \<open>META_WITH_EXTRAS(meta)\<close> is the \<open>extra_logMeta\<close> the meta is embedded in; \<open>ext\<close> is
  what follows the meta in the caller's memory, read as its ignore list.
\<close>

definition set_meta :: "logMeta \<Rightarrow> u32 list \<Rightarrow> singleLog \<Rightarrow> singleLog" where
  "set_meta m ext l =
     (if META_HAS_IGNORES m then l\<lparr>smeta := \<lparr>emeta = m, ignore_list = ext\<rparr>\<rparr>
      else l\<lparr>smeta := (smeta l)\<lparr>emeta := m\<rparr>\<rparr>)"

definition queue_cmd :: "internalCmdReq \<Rightarrow> 'z owner_scheme \<Rightarrow> 'z owner_scheme" where
  "queue_cmd req st =
     (case tw_addMvIfRoom internalCmdReq_moved req (internalCmdQueue st) of
        (True, _, q) \<Rightarrow> uv_async_send asyncInternalCommand (st\<lparr>internalCmdQueue := q\<rparr>)
      | (False, _, _) \<Rightarrow> st)"

definition log_internal ::
    "logMeta \<Rightarrow> u32 list \<Rightarrow> bytes \<Rightarrow> nat \<Rightarrow> 'z owner_scheme \<Rightarrow> (grease_result \<times> 'z owner_scheme) res" where
  "log_internal m ext s len st =
     (if len > bufferSize st
      then let l = singleLog_new (junk st) (min len MAX_LOG_MESSAGE_SIZE)
           in bindR (heapBuf_memcpy s len (Some OVERFLOW_ENDING) (buf l)) (\<lambda>(_, b).
                let (a, st) = new_log (set_meta m ext (l\<lparr>buf := b\<rparr>)) st
                in Inr (GREASE_OK,
                        queue_cmd ((internalCmdReq_new WRITE_TARGET_OVERFLOW 0)\<lparr>icmd_aux := Some a\<rparr>) st))
      else (case tw_remove (masterBufferAvail st) of
              (None, q) \<Rightarrow> Inr (GREASE_OK, st\<lparr>masterBufferAvail := q\<rparr>)
            | (Some a, q) \<Rightarrow>
                let st = st\<lparr>masterBufferAvail := q\<rparr>
                in bindR (deref (logs st) a) (\<lambda>l.
                   bindR (heapBuf_memcpy s len None (buf l)) (\<lambda>(_, b).
                     let st = st\<lparr>logs := (logs st)(a \<mapsto> set_meta m ext (l\<lparr>buf := b\<rparr>))\<rparr>
                     in Inr (GREASE_OK,
                             queue_cmd ((internalCmdReq_new NEW_LOG 0)\<lparr>icmd_aux := Some a\<rparr>) st)))))"

definition log_public ::
    "logMeta \<Rightarrow> u32 list \<Rightarrow> bytes \<Rightarrow> nat \<Rightarrow> 'z owner_scheme \<Rightarrow> (grease_result \<times> 'z owner_scheme) res" where
  "log_public f ext s len st =
     (if len > GREASE_MAX_MESSAGE_SIZE then Inr (GREASE_OVERFLOW, st)
      else case sift st f of
             (True, m) \<Rightarrow> log_internal m ext s len st
           | (False, _) \<Rightarrow> Inr (GREASE_OK, st))"

text \<open>\<open>logP\<close> sifts the caller's own meta and so leaves the cache in it.\<close>

definition logP ::
    "logMeta \<Rightarrow> u32 list \<Rightarrow> bytes \<Rightarrow> nat \<Rightarrow> 'z owner_scheme \<Rightarrow>
       (grease_result \<times> logMeta \<times> 'z owner_scheme) res" where
  "logP f ext s len st =
     (if len > GREASE_MAX_MESSAGE_SIZE then Inr (GREASE_OVERFLOW, f, st)
      else case sift st f of
             (True, m) \<Rightarrow> bindR (log_internal m ext s len st) (\<lambda>(r, st). Inr (r, m, st))
           | (False, m) \<Rightarrow> Inr (GREASE_OK, m, st))"

definition logSync_internal :: "nat \<Rightarrow> grease_result" where
  "logSync_internal len = (if len > GREASE_MAX_MESSAGE_SIZE then GREASE_OVERFLOW else GREASE_OK)"

definition logSync :: "logMeta \<Rightarrow> nat \<Rightarrow> 'z owner_scheme \<Rightarrow> grease_result" where
  "logSync f len st = (if fst (sift st f) then logSync_internal len else GREASE_OK)"

text \<open>
  A raw entry: the meta as it lies in memory, then the text. With extras set, the ignore
  list is read from the bytes after the meta, that is from the text and what follows it.
\<close>

definition logFromRaw :: "bytes \<Rightarrow> nat \<Rightarrow> 'z owner_scheme \<Rightarrow> (grease_result \<times> 'z owner_scheme) res" where
  "logFromRaw base len st =
     (if len \<ge> SIZEOF_LOGMETA
      then let l = len - SIZEOF_LOGMETA
           in if l > 0
              then let m = meta_decode base
                   in bindR (if META_HAS_IGNORES m
                             then bindR (peek 0 SIZEOF_EXTRA_LOGMETA base) (\<lambda>bs. Inr (ignores_decode bs))
                             else Inr no_ignores) (\<lambda>ext.
                      bindR (logP m ext (drop SIZEOF_LOGMETA base) l st) (\<lambda>(r, _, st). Inr (r, st)))
              else Inr (GREASE_OK, st)
      else Inr (GREASE_NO_BUFFER, st))"

section \<open>Dispatching one entry: the logger thread\<close>

text \<open>The loop over \<open>ignore_list\<close>: at most ten entries, 0 ends it.\<close>

fun ignore_scan :: "nat \<Rightarrow> u32 list \<Rightarrow> u32 \<Rightarrow> bool" where
  "ignore_scan 0 is t = False"
| "ignore_scan (Suc n) [] t = False"
| "ignore_scan (Suc n) (i # is) t = (if i = 0 then False else if i = t then True else ignore_scan n is t)"

definition ignores :: "extra_logMeta \<Rightarrow> u32 \<Rightarrow> bool" where
  "ignores e t \<longleftrightarrow> META_HAS_IGNORES (emeta e) \<and> ignore_scan MAX_IGNORE_LIST (ignore_list e) t"

text \<open>\<open>emit\<close> is what is done with one target and filter: write, or flush and write the overflow.\<close>

type_synonym 's emit = "nat \<Rightarrow> Filter \<Rightarrow> 's \<Rightarrow> 's res"

definition dispatch_filter ::
    "'z logger_scheme emit \<Rightarrow> extra_logMeta \<Rightarrow> Filter \<Rightarrow> bool \<times> 'z logger_scheme \<Rightarrow>
       (bool \<times> 'z logger_scheme) res" where
  "dispatch_filter emit e f = (\<lambda>(wrote, st).
     if levelMask f AND level (emeta e) > 0 \<and> \<not> fdisabled f
     then (if targetId f = 0
           then (case defaultTarget st of
                   Some a \<Rightarrow> bindR (emit a f st) (\<lambda>st. Inr (True, st))
                 | None \<Rightarrow> Inr (True, st))
           else if \<not> ignores e (targetId f)
           then (case find_target (targetId f) st of
                   Some a \<Rightarrow> bindR (emit a f st) (\<lambda>st. Inr (True, st))
                 | None \<Rightarrow> Inr (wrote, st))
           else Inr (wrote, st))
     else Inr (wrote, st))"

definition dispatch_list ::
    "'z logger_scheme emit \<Rightarrow> extra_logMeta \<Rightarrow> u64 \<Rightarrow> bool \<times> 'z logger_scheme \<Rightarrow>
       (bool \<times> 'z logger_scheme) res" where
  "dispatch_list emit e p = (\<lambda>(wrote, st).
     if p = 0 then Inr (wrote, st)
     else bindR (deref (flists st) p) (\<lambda>LIST.
       if FilterList_valid LIST (level (emeta e))
       then bindR (scan_slots (flist LIST)) (\<lambda>fs. foldR (dispatch_filter emit e) fs (wrote, st))
       else Inr (wrote, st)))"

text \<open>The body of both cases after the \<open>sift\<close> has said yes.\<close>

definition dispatch ::
    "'z logger_scheme emit \<Rightarrow> extra_logMeta \<Rightarrow> 'z logger_scheme \<Rightarrow> 'z logger_scheme res" where
  "dispatch emit e st =
     bindR (foldR (dispatch_list emit e)
              (map (META_GET_LIST (emeta e)) [0..<GREASE_META_HASHLIST_CACHE_SIZE]) (False, st)) (\<lambda>(wrote, st).
       case defaultTarget st of
         Some a \<Rightarrow> (if \<not> wrote then emit a (defaultFilter st) st else Inr st)
       | None \<Rightarrow> Inr st)"

definition upd_log :: "nat \<Rightarrow> (singleLog \<Rightarrow> singleLog) \<Rightarrow> 'z owner_scheme \<Rightarrow> 'z owner_scheme res" where
  "upd_log a u st = bindR (deref (logs st) a) (\<lambda>l. Inr (st\<lparr>logs := (logs st)(a \<mapsto> u l)\<rparr>))"

text \<open>What a NEW_LOG writes: the log's bytes as they are in the heap.\<close>

definition emit_write :: "int \<times> int \<Rightarrow> nat \<Rightarrow> extra_logMeta \<Rightarrow> 'z logger_scheme emit" where
  "emit_write clk la e a f st =
     bindR (deref (logs st) la) (\<lambda>l.
       with_target a (write_target clk (log_mem l) (used (buf l)) (emeta e) (Some f)) st)"

definition emit_overflow :: "int \<times> int \<Rightarrow> int \<Rightarrow> nat \<Rightarrow> 'z logger_scheme emit" where
  "emit_overflow clk got la a f st =
     bindR (with_target a (flushAll_target a True False) st) (\<lambda>st.
     bindR (log_incRef la st) (\<lambda>st.
       with_target a (writeOverflow a got clk la (Some f)) st))"

definition handle_NEW_LOG :: "int \<times> int \<Rightarrow> nat \<Rightarrow> 'z logger_scheme \<Rightarrow> 'z logger_scheme res" where
  "handle_NEW_LOG clk la st =
     bindR (deref (logs st) la) (\<lambda>l.
       let (ok, m) = sift st (emeta (smeta l)) in
       bindR (upd_log la (\<lambda>l. l\<lparr>smeta := (smeta l)\<lparr>emeta := m\<rparr>\<rparr>) st) (\<lambda>st.
       bindR (if ok then dispatch (emit_write clk la ((smeta l)\<lparr>emeta := m\<rparr>)) ((smeta l)\<lparr>emeta := m\<rparr>) st
              else Inr st) (\<lambda>st.
       bindR (upd_log la singleLog_clear st) (\<lambda>st.
       bindR (tw_add la (masterBufferAvail st)) (\<lambda>q.
         Inr (st\<lparr>masterBufferAvail := q\<rparr>))))))"

definition handle_OVERFLOW :: "int \<times> int \<Rightarrow> int \<Rightarrow> nat \<Rightarrow> 'z logger_scheme \<Rightarrow> 'z logger_scheme res" where
  "handle_OVERFLOW clk got la st =
     bindR (deref (logs st) la) (\<lambda>l.
       let (ok, m) = sift st (emeta (smeta l)) in
       bindR (upd_log la (\<lambda>l. l\<lparr>smeta := (smeta l)\<lparr>emeta := m\<rparr>\<rparr>) st) (\<lambda>st.
       bindR (if ok then dispatch (emit_overflow clk got la) ((smeta l)\<lparr>emeta := m\<rparr>) st
              else Inr st) (\<lambda>st.
         log_decRef la st)))"

section \<open>Flushing every target\<close>

text \<open>The default target is flushed with the default arguments, whatever is asked for.\<close>

definition each_target ::
    "(nat \<Rightarrow> 'z logger_scheme \<Rightarrow> logTarget \<Rightarrow> ('z logger_scheme \<times> logTarget) res) \<Rightarrow>
       'z logger_scheme \<Rightarrow> 'z logger_scheme res" where
  "each_target f st = foldR (\<lambda>(_, a). with_target a (f a)) (targets st) st"

definition flush_default ::
    "(nat \<Rightarrow> 'z logger_scheme \<Rightarrow> logTarget \<Rightarrow> ('z logger_scheme \<times> logTarget) res) \<Rightarrow>
       'z logger_scheme \<Rightarrow> 'z logger_scheme res" where
  "flush_default f st = (case defaultTarget st of Some a \<Rightarrow> with_target a (f a) st | None \<Rightarrow> Inr st)"

definition flushAll :: "bool \<Rightarrow> 'z logger_scheme \<Rightarrow> 'z logger_scheme res" where
  "flushAll nocb st =
     bindR (flush_default (\<lambda>a. flushAll_target a True False) st)
       (each_target (\<lambda>a. flushAll_target a True nocb))"

definition flushAllSync :: "bool \<Rightarrow> bool \<Rightarrow> 'z logger_scheme \<Rightarrow> 'z logger_scheme res" where
  "flushAllSync rot nocb st =
     bindR (flush_default (\<lambda>a. flushAllSync_target a True False) st)
       (each_target (\<lambda>a. flushAllSync_target a rot nocb))"

definition flushTimer_cb :: "'z logger_scheme \<Rightarrow> 'z logger_scheme res" where
  "flushTimer_cb st = flushAll False st"

section \<open>The command loops\<close>

definition handle_ROTATE :: "u32 \<Rightarrow> 'z logger_scheme \<Rightarrow> 'z logger_scheme res" where
  "handle_ROTATE d st =
     (case (if d > 0 then getTarget d st else defaultTarget st) of
        Some a \<Rightarrow> with_target a (flushAll_target a False False) st
      | None \<Rightarrow> Inr st)"

definition handle_SHUTDOWN :: "'z logger_scheme \<Rightarrow> 'z logger_scheme res" where
  "handle_SHUTDOWN st =
     flushAllSync True True
       ((stopFlushTimer st)\<lparr>cmdHandlesClosed := True\<rparr>)"

text \<open>
  One command. \<open>clk\<close> is what \<open>ftime\<close> says while it runs and \<open>got\<close> what \<open>writev\<close> returns
  for an overflow.
\<close>

definition handle_cmd ::
    "int \<times> int \<Rightarrow> int \<Rightarrow> internalCmdReq \<Rightarrow> 'z logger_scheme \<Rightarrow> 'z logger_scheme res" where
  "handle_cmd clk got req st =
     (case icmd req of
        INTERNALNOOP \<Rightarrow> Inr st
      | NEW_LOG \<Rightarrow> (case icmd_aux req of Some a \<Rightarrow> handle_NEW_LOG clk a st | None \<Rightarrow> Inl AssertFailed)
      | TARGET_ROTATE_BUFFER \<Rightarrow> handle_ROTATE (icmd_d req) st
      | WRITE_TARGET_OVERFLOW \<Rightarrow>
          (case icmd_aux req of Some a \<Rightarrow> handle_OVERFLOW clk got a st | None \<Rightarrow> Inl AssertFailed)
      | INTERNAL_SHUTDOWN \<Rightarrow> handle_SHUTDOWN st)"

text \<open>
  \<open>handleInternalCmd\<close>: the loop until the queue is empty. A command may queue more, so the
  loop has fuel; \<open>None\<close> is fuel run out. \<open>env n\<close> is the clock and \<open>writev\<close> result of the
  round that has \<open>n\<close> left.
\<close>

fun handleInternalCmd ::
    "(nat \<Rightarrow> (int \<times> int) \<times> int) \<Rightarrow> nat \<Rightarrow> 'z logger_scheme \<Rightarrow> 'z logger_scheme res option" where
  "handleInternalCmd env 0 st = None"
| "handleInternalCmd env (Suc n) st =
     (case tw_removeMv internalCmdReq_moved (internalCmdQueue st) of
        (None, q) \<Rightarrow> Some (Inr (st\<lparr>internalCmdQueue := q\<rparr>))
      | (Some req, q) \<Rightarrow>
          (case handle_cmd (fst (env n)) (snd (env n)) req (st\<lparr>internalCmdQueue := q\<rparr>) of
             Inl e \<Rightarrow> Some (Inl e)
           | Inr st \<Rightarrow> handleInternalCmd env n st))"

text \<open>\<open>handleExternalCmd\<close> takes every command and does nothing with it.\<close>

function handleExternalCmd :: "'z logger_scheme \<Rightarrow> 'z logger_scheme" where
  "handleExternalCmd st =
     (case tw_removeMv nodeCmdReq_moved (nodeCmdQueue st) of
        (None, q) \<Rightarrow> st\<lparr>nodeCmdQueue := q\<rparr>
      | (Some req, q) \<Rightarrow> handleExternalCmd (st\<lparr>nodeCmdQueue := q\<rparr>))"
  by pat_completeness auto
termination
  by (relation "measure (\<lambda>st. nat (tw_remain (nodeCmdQueue st)))")
    (auto dest!: tw_removeMv_decreases [OF sym])

definition shutdown :: "'z logger_scheme \<Rightarrow> 'z logger_scheme" where
  "shutdown st =
     (let (_, _, q) = tw_addMvIfRoom internalCmdReq_moved (internalCmdReq_new INTERNAL_SHUTDOWN 0)
                        (internalCmdQueue st)
      in uv_async_send asyncInternalCommand (st\<lparr>internalCmdQueue := q\<rparr>))"

section \<open>The V8 thread: log callbacks\<close>

lemma delete_overflow_v8: "delete_overflow w ow = Inr ow' \<Longrightarrow> v8LogCallbacks ow' = v8LogCallbacks ow"
  by (auto simp: delete_overflow_def bindR_eq_Inr)

lemma doV8Callback_v8:
  "doV8Callback d ow t = Inr (ow', t') \<Longrightarrow> v8LogCallbacks ow' = v8LogCallbacks ow"
  by (auto simp: doV8Callback_def bindR_eq_Inr dest: delete_overflow_v8 split: option.splits)

lemma unrefFromV8_inV8_v8: "unrefFromV8_inV8 ow = Inr ow' \<Longrightarrow> v8LogCallbacks ow' = v8LogCallbacks ow"
  by (auto simp: unrefFromV8_inV8_def Let_def split: if_splits)

text \<open>
  One round of \<open>callV8LogCallbacks\<close>: what was left in \<open>data\<close> is overwritten by the next
  element. The result is the new \<open>data\<close>.
\<close>

definition call_one ::
    "writeCBData \<Rightarrow> 'z logger_scheme \<Rightarrow> (writeCBData \<times> 'z logger_scheme) res" where
  "call_one d st =
     (case wt d of
        None \<Rightarrow> Inl BadPointer
      | Some a \<Rightarrow>
          bindR (deref (tgts st) a) (\<lambda>t.
          bindR (if logCallback t \<noteq> None
                 then bindR (with_target a (doV8Callback d) st) (\<lambda>st. Inr (d\<lparr>woverflow := None\<rparr>, st))
                 else Inr (d, st)) (\<lambda>(d, st).
          bindR (unrefFromV8_inV8 st) (\<lambda>st. Inr (d, st)))))"

lemma call_one_v8: "call_one d st = Inr (d', st') \<Longrightarrow> v8LogCallbacks st' = v8LogCallbacks st"
  by (auto simp: call_one_def bindR_eq_Inr with_target_def dest!: doV8Callback_v8 unrefFromV8_inV8_v8
      split: option.splits if_splits)

function v8_loop :: "writeCBData \<Rightarrow> 'z logger_scheme \<Rightarrow> 'z logger_scheme res" where
  "v8_loop data st =
     (case tw_removeMv writeCBData_moved (v8LogCallbacks st) of
        (None, q) \<Rightarrow> writeCBData_delete data (st\<lparr>v8LogCallbacks := q\<rparr>)
      | (Some d, q) \<Rightarrow> bindR (call_one d (st\<lparr>v8LogCallbacks := q\<rparr>)) (\<lambda>(d, st). v8_loop d st))"
  by pat_completeness auto
termination
  by (relation "measure (\<lambda>(d, st). nat (tw_remain (v8LogCallbacks st)))")
    (auto dest!: tw_removeMv_decreases [OF sym] call_one_v8)

declare v8_loop.simps [simp del] handleExternalCmd.simps [simp del]

definition callV8LogCallbacks :: "'z logger_scheme \<Rightarrow> 'z logger_scheme res" where
  "callV8LogCallbacks st = v8_loop writeCBData_empty st"

section \<open>The constructor\<close>

text \<open>
  A hundred master buffers, no target; \<open>nextSinkId\<close> is not initialised (\<open>sink0\<close> is what it
  holds).
\<close>

definition new_master :: "nat \<Rightarrow> nat \<Rightarrow> 'z owner_scheme \<Rightarrow> 'z owner_scheme res" where
  "new_master n _ st =
     (let (a, st) = new_log (singleLog_new (junk st) n) st
      in bindR (tw_add a (masterBufferAvail st)) (\<lambda>q. Inr (st\<lparr>masterBufferAvail := q\<rparr>)))"

definition GreaseLogger_new :: "(nat \<Rightarrow> u8) \<Rightarrow> u32 \<Rightarrow> nat \<Rightarrow> nat \<Rightarrow> logger res" where
  "GreaseLogger_new jk sink0 buffer_size chunk_size =
     foldR (new_master buffer_size) [0..<PRIMARY_BUFFER_ENTRIES]
       (owner.extend (owner_init jk buffer_size chunk_size)
         \<lparr>tgts = Map.empty, nextTgt = 0, targets = [], defaultTarget = None,
          defaultFilter = Filter_empty, nextTargetId = 1, nextSinkId = sink0,
          cmdHandlesClosed = False\<rparr>)"

end
