(* ===== verification/Routing.thy ===== *)
theory Routing
  imports Logger
begin

text \<open>
  Where an entry goes. \<open>route\<close> is the specification of the dispatch loop of NEW_LOG and
  WRITE_TARGET_OVERFLOW: the targets, each with the filter it is written for, in order. The
  entry itself only has to be written to them one after the other.
\<close>

section \<open>Specification\<close>

definition target_of :: "'z logger_scheme \<Rightarrow> extra_logMeta \<Rightarrow> Filter \<Rightarrow> nat option" where
  "target_of st e f =
     (if targetId f = 0 then defaultTarget st
      else if ignores e (targetId f) then None else find_target (targetId f) st)"

text \<open>A filter claims the entry when it matches and its target is the default one, or is known
  and not ignored.\<close>

definition claims :: "'z logger_scheme \<Rightarrow> extra_logMeta \<Rightarrow> Filter \<Rightarrow> bool" where
  "claims st e f \<longleftrightarrow> levelMask f AND level (emeta e) \<noteq> 0 \<and> \<not> fdisabled f \<and>
     (targetId f = 0 \<or> target_of st e f \<noteq> None)"

definition hits :: "'z logger_scheme \<Rightarrow> extra_logMeta \<Rightarrow> Filter list \<Rightarrow> (nat \<times> Filter) list" where
  "hits st e fs = List.map_filter (\<lambda>f. if claims st e f then map_option (\<lambda>a. (a, f)) (target_of st e f) else None) fs"

definition route :: "'z logger_scheme \<Rightarrow> extra_logMeta \<Rightarrow> Filter list \<Rightarrow> (nat \<times> Filter) list" where
  "route st e fs =
     (if \<exists>f \<in> set fs. claims st e f then hits st e fs
      else (case defaultTarget st of Some a \<Rightarrow> [(a, defaultFilter st)] | None \<Rightarrow> []))"

text \<open>The filters an entry is filed under: those of the first table entry in the order of
  \<open>sift\<close>.\<close>

definition entry_filters :: "'z filters_scheme \<Rightarrow> u32 \<Rightarrow> u32 \<Rightarrow> Filter list" where
  "entry_filters st tg og =
     (case chosen (filterHashTable st) tg og of
        None \<Rightarrow> []
      | Some (_, p) \<Rightarrow> (case flists st p of None \<Rightarrow> [] | Some l \<Rightarrow> FilterList_filters l))"

section \<open>The dispatch loop meets it\<close>

text \<open>Writing does not touch the tables the loop reads.\<close>

definition same_tables :: "'z logger_scheme \<Rightarrow> 'z logger_scheme \<Rightarrow> bool" where
  "same_tables st st' \<longleftrightarrow> targets st' = targets st \<and> defaultTarget st' = defaultTarget st \<and>
     defaultFilter st' = defaultFilter st \<and> flists st' = flists st"

definition framed :: "'z logger_scheme emit \<Rightarrow> bool" where
  "framed emit \<longleftrightarrow> (\<forall>a f st st'. emit a f st = Inr st' \<longrightarrow> same_tables st st')"

lemma same_tables_refl [simp]: "same_tables st st"
  by (simp add: same_tables_def)

lemma same_tables_trans: "same_tables a b \<Longrightarrow> same_tables b c \<Longrightarrow> same_tables a c"
  by (simp add: same_tables_def)

lemma same_tables_spec:
  assumes "same_tables st st'"
  shows "target_of st' = target_of st" "claims st' = claims st" "hits st' = hits st"
proof -
  show t: "target_of st' = target_of st"
    using assms by (intro ext) (simp add: target_of_def find_target_def same_tables_def)
  show c: "claims st' = claims st" by (intro ext) (simp add: claims_def t)
  show "hits st' = hits st" by (intro ext) (simp add: hits_def t c cong: if_cong)
qed

definition emit_all :: "'z logger_scheme emit \<Rightarrow> (nat \<times> Filter) list \<Rightarrow> 'z logger_scheme \<Rightarrow> 'z logger_scheme res" where
  "emit_all emit = foldR (\<lambda>(a, f). emit a f)"

lemma emit_all_tables:
  "framed emit \<Longrightarrow> emit_all emit xs st = Inr st' \<Longrightarrow> same_tables st st'"
proof (induction xs arbitrary: st)
  case Nil
  then show ?case by (simp add: emit_all_def)
next
  case (Cons x xs)
  obtain a f where x: "x = (a, f)" by (cases x)
  with Cons.prems obtain s where s: "emit a f st = Inr s" "emit_all emit xs s = Inr st'"
    by (auto simp: emit_all_def bindR_eq_Inr)
  then show ?case
    using Cons.IH [OF Cons.prems(1)] Cons.prems(1) same_tables_trans unfolding framed_def by blast
qed

lemma dispatch_filter_spec:
  "dispatch_filter emit e f (w, st) =
     bindR (emit_all emit (hits st e [f]) st) (\<lambda>s. Inr (w \<or> claims st e f, s))"
proof (cases "claims st e f")
  case False
  then show ?thesis
    by (auto simp: dispatch_filter_def claims_def hits_def map_filter_simps emit_all_def
        target_of_def word_gt_0 split: option.splits if_splits)
next
  case True
  then have c: "levelMask f AND level (emeta e) > 0" "\<not> fdisabled f"
    by (auto simp: claims_def word_gt_0)
  show ?thesis
  proof (cases "target_of st e f")
    case None
    with True c show ?thesis
      by (auto simp: dispatch_filter_def hits_def map_filter_simps emit_all_def target_of_def claims_def)
  next
    case (Some a)
    then have h: "hits st e [f] = [(a, f)]" using True by (simp add: hits_def map_filter_simps)
    have "dispatch_filter emit e f (w, st) = bindR (emit a f st) (\<lambda>s. Inr (True, s))"
      using Some c by (auto simp: dispatch_filter_def target_of_def split: if_splits)
    then show ?thesis using True unfolding h by (cases "emit a f st") (simp_all add: emit_all_def)
  qed
qed

lemma hits_Cons: "hits st e (f # fs) = hits st e [f] @ hits st e fs"
  by (simp add: hits_def map_filter_simps split: option.split)

lemma dispatch_filters_spec:
  assumes "framed emit"
  shows "foldR (dispatch_filter emit e) fs (w, st) =
    bindR (emit_all emit (hits st e fs) st) (\<lambda>s. Inr (w \<or> (\<exists>f \<in> set fs. claims st e f), s))"
proof (induction fs arbitrary: w st)
  case Nil
  then show ?case by (simp add: hits_def map_filter_simps emit_all_def)
next
  case (Cons f fs)
  have split: "emit_all emit (hits st e (f # fs)) st =
      bindR (emit_all emit (hits st e [f]) st) (emit_all emit (hits st e fs))"
    unfolding hits_Cons [of st e f fs] by (simp add: emit_all_def foldR_append)
  show ?case
  proof (cases "emit_all emit (hits st e [f]) st")
    case (Inl err)
    then show ?thesis unfolding split by (simp add: dispatch_filter_spec)
  next
    case (Inr s)
    then have T: "same_tables st s" by (rule emit_all_tables [OF assms])
    show ?thesis
      unfolding split using Inr
      by (simp add: dispatch_filter_spec Cons.IH same_tables_spec [OF T] disj_assoc)
  qed
qed

text \<open>One cached list of the entry: nothing for NULL; the filters of a consistent list, whose
  bloom only says no when none of them claims the entry.\<close>

definition list_filters :: "'z logger_scheme \<Rightarrow> u64 \<Rightarrow> Filter list" where
  "list_filters st p = (if p = 0 then [] else case flists st p of None \<Rightarrow> [] | Some l \<Rightarrow> FilterList_filters l)"

definition scannable :: "'z filters_scheme \<Rightarrow> u64 \<Rightarrow> bool" where
  "scannable st p \<longleftrightarrow> p = 0 \<or> (\<exists>l. list_at st p l \<and> length (FilterList_filters l) < MAX_IDENTICAL_FILTERS)"

lemma scan_ok:
  assumes "FilterList_inv l" "length (FilterList_filters l) < MAX_IDENTICAL_FILTERS"
  shows "scan_slots (flist l) = Inr (FilterList_filters l)"
proof -
  have "\<exists>f \<in> set (flist l). fid f = 0"
  proof (rule ccontr)
    assume "\<not> ?thesis"
    then have "active (flist l) = flist l" by (auto simp: active_def takeWhile_eq_all_conv)
    with assms show False by (simp add: FilterList_inv_def FilterList_filters_def)
  qed
  then show ?thesis by (simp add: scan_slots_ok FilterList_filters_def)
qed

lemma no_claims:
  assumes "FilterList_inv l" "\<not> FilterList_valid l (level (emeta e))"
  shows "\<forall>f \<in> set (FilterList_filters l). \<not> claims st e f" "hits st e (FilterList_filters l) = []"
proof -
  show n: "\<forall>f \<in> set (FilterList_filters l). \<not> claims st e f"
    using assms by (auto simp: FilterList_valid_iff claims_def)
  have "hits st e fs = []" if "\<forall>f \<in> set fs. \<not> claims st e f" for fs
    using that by (induction fs) (simp_all add: hits_def map_filter_simps)
  with n show "hits st e (FilterList_filters l) = []" by blast
qed

lemma dispatch_list_spec:
  assumes "framed emit" "scannable st p"
  shows "dispatch_list emit e p (w, st) =
    bindR (emit_all emit (hits st e (list_filters st p)) st)
      (\<lambda>s. Inr (w \<or> (\<exists>f \<in> set (list_filters st p). claims st e f), s))"
proof (cases "p = 0")
  case True
  then show ?thesis by (simp add: dispatch_list_def list_filters_def hits_def map_filter_simps emit_all_def)
next
  case False
  with assms obtain l where l: "flists st p = Some l" "FilterList_inv l"
    "length (FilterList_filters l) < MAX_IDENTICAL_FILTERS"
    by (auto simp: scannable_def list_at_def)
  have fs: "list_filters st p = FilterList_filters l" using False l by (simp add: list_filters_def)
  show ?thesis
  proof (cases "FilterList_valid l (level (emeta e))")
    case True
    then show ?thesis
      using False l by (simp add: dispatch_list_def deref_def scan_ok fs dispatch_filters_spec [OF assms(1)])
  next
    case no: False
    then show ?thesis
      using False l no_claims [OF l(2) no, where st = st] by (auto simp: dispatch_list_def deref_def fs emit_all_def)
  qed
qed

lemma same_tables_lists:
  "same_tables st s \<Longrightarrow> list_filters s = list_filters st"
  by (intro ext) (simp add: list_filters_def same_tables_def)

definition scannable_keep :: "'z logger_scheme emit \<Rightarrow> bool" where
  "scannable_keep emit \<longleftrightarrow>
     (\<forall>a f st st' p. emit a f st = Inr st' \<longrightarrow> scannable st p \<longrightarrow> scannable st' p)"

lemma emit_all_scannable:
  "scannable_keep emit \<Longrightarrow> emit_all emit xs st = Inr st' \<Longrightarrow> scannable st p \<Longrightarrow> scannable st' p"
proof (induction xs arbitrary: st)
  case Nil
  then show ?case by (simp add: emit_all_def)
next
  case (Cons x xs)
  obtain a f where x: "x = (a, f)" by (cases x)
  with Cons.prems obtain s where s: "emit a f st = Inr s" "emit_all emit xs s = Inr st'"
    by (auto simp: emit_all_def bindR_eq_Inr)
  then show ?case using Cons.IH [OF Cons.prems(1) s(2)] Cons.prems unfolding scannable_keep_def by blast
qed

lemma map_filter_append: "List.map_filter g (xs @ ys) = List.map_filter g xs @ List.map_filter g ys"
  by (induction xs) (simp_all add: map_filter_simps split: option.split)

lemma hits_append: "hits st e (xs @ ys) = hits st e xs @ hits st e ys"
  by (simp add: hits_def map_filter_append)

lemma dispatch_lists_spec:
  assumes fr: "framed emit" and keep: "scannable_keep emit"
  shows "\<forall>p \<in> set ps. scannable st p \<Longrightarrow>
    foldR (dispatch_list emit e) ps (w, st) =
    bindR (emit_all emit (hits st e (concat (map (list_filters st) ps))) st)
      (\<lambda>s. Inr (w \<or> (\<exists>f \<in> set (concat (map (list_filters st) ps)). claims st e f), s))"
proof (induction ps arbitrary: w st)
  case Nil
  then show ?case by (simp add: hits_def map_filter_simps emit_all_def)
next
  case (Cons p ps)
  define xs where "xs = list_filters st p"
  define ys where "ys = concat (map (list_filters st) ps)"
  have p: "scannable st p" using Cons.prems by simp
  have split: "emit_all emit (hits st e (xs @ ys)) st =
      bindR (emit_all emit (hits st e xs) st) (emit_all emit (hits st e ys))"
    by (simp add: hits_append emit_all_def foldR_append)
  show ?case
  proof (cases "emit_all emit (hits st e xs) st")
    case (Inl err)
    then show ?thesis
      using split dispatch_list_spec [OF fr p] by (simp add: xs_def [symmetric] ys_def [symmetric])
  next
    case (Inr s)
    have T: "same_tables st s" by (rule emit_all_tables [OF fr Inr])
    have ps: "\<forall>p \<in> set ps. scannable s p" using Cons.prems emit_all_scannable [OF keep Inr] by simp
    have "foldR (dispatch_list emit e) (p # ps) (w, st) =
        foldR (dispatch_list emit e) ps (w \<or> (\<exists>f \<in> set xs. claims st e f), s)"
      using dispatch_list_spec [OF fr p] Inr by (simp add: xs_def [symmetric])
    also have "\<dots> = bindR (emit_all emit (hits st e ys) s)
        (\<lambda>s'. Inr ((w \<or> (\<exists>f \<in> set xs. claims st e f)) \<or> (\<exists>f \<in> set ys. claims st e f), s'))"
      using Cons.IH [OF ps] by (simp add: ys_def same_tables_lists [OF T] same_tables_spec [OF T])
    finally show ?thesis
      using split Inr by (simp add: xs_def [symmetric] ys_def [symmetric] bex_Un disj_assoc)
  qed
qed

theorem dispatch_spec:
  assumes fr: "framed emit" and keep: "scannable_keep emit"
    and ps: "\<forall>i < GREASE_META_HASHLIST_CACHE_SIZE. scannable st (META_GET_LIST (emeta e) i)"
  shows "dispatch emit e st = emit_all emit
    (route st e (concat (map (\<lambda>i. list_filters st (META_GET_LIST (emeta e) i)) [0..<GREASE_META_HASHLIST_CACHE_SIZE]))) st"
proof -
  define ps where "ps = map (META_GET_LIST (emeta e)) [0..<GREASE_META_HASHLIST_CACHE_SIZE]"
  define fs where "fs = concat (map (list_filters st) ps)"
  have fs': "concat (map (\<lambda>i. list_filters st (META_GET_LIST (emeta e) i)) [0..<GREASE_META_HASHLIST_CACHE_SIZE]) = fs"
    by (simp add: fs_def ps_def comp_def)
  have main: "foldR (dispatch_list emit e) ps (False, st) =
      bindR (emit_all emit (hits st e fs) st) (\<lambda>s. Inr (False \<or> (\<exists>f \<in> set fs. claims st e f), s))"
    unfolding fs_def by (rule dispatch_lists_spec [OF fr keep]) (use ps in \<open>auto simp: ps_def\<close>)
  have none: "hits st e fs = []" if "\<not> (\<exists>f \<in> set fs. claims st e f)"
    using that by (induction fs) (simp_all add: hits_def map_filter_simps)
  show ?thesis
  proof (cases "emit_all emit (hits st e fs) st")
    case (Inl err)
    then show ?thesis using none unfolding fs'
      by (auto simp: dispatch_def ps_def [symmetric] main route_def emit_all_def)
  next
    case (Inr s)
    have T: "same_tables st s" by (rule emit_all_tables [OF fr Inr])
    show ?thesis
    proof (cases "\<exists>f \<in> set fs. claims st e f")
      case True
      with Inr show ?thesis unfolding fs'
        by (auto simp: dispatch_def ps_def [symmetric] main route_def split: option.split)
    next
      case False
      with none Inr have "s = st" by (simp add: emit_all_def)
      with False Inr show ?thesis unfolding fs'
        by (cases "defaultTarget st")
          (auto simp: dispatch_def ps_def [symmetric] main route_def emit_all_def bindR_def split: sum.split)
    qed
  qed
qed

section \<open>What the targets leave alone\<close>

text \<open>
  No target operation changes the filter tables, the labels, the free list of master
  buffers, or anything \<open>GreaseLogger\<close> has beyond the owner part.
\<close>

definition owner_frame :: "'z owner_scheme \<Rightarrow> 'z owner_scheme \<Rightarrow> bool" where
  "owner_frame ow ow' \<longleftrightarrow> flists ow' = flists ow \<and> filterHashTable ow' = filterHashTable ow \<and>
     nextFilterId ow' = nextFilterId ow \<and> levelFilterOutMask ow' = levelFilterOutMask ow \<and>
     defaultFilterOut ow' = defaultFilterOut ow \<and> masterBufferAvail ow' = masterBufferAvail ow \<and>
     tagLabels ow' = tagLabels ow \<and> originLabels ow' = originLabels ow \<and>
     levelLabels ow' = levelLabels ow \<and> bufferSize ow' = bufferSize ow \<and> junk ow' = junk ow \<and>
     owner.more ow' = owner.more ow"

named_theorems frames \<open>operations that keep the frame\<close>

lemma owner_frame_refl [simp]: "owner_frame ow ow"
  by (simp add: owner_frame_def)

lemma owner_frame_trans: "owner_frame a b \<Longrightarrow> owner_frame b c \<Longrightarrow> owner_frame a c"
  by (simp add: owner_frame_def)

lemma owner_frame_simps [simp]:
  "owner_frame ow (uv_async_send h ow)" "owner_frame ow (refGreaseInGrease ow)"
  "owner_frame ow (refFromV8 ow)" "owner_frame ow (snd (new_log l ow))" "owner_frame ow (delete_log a ow)"
  "owner_frame ow (ow\<lparr>internalCmdQueue := q\<rparr>)" "owner_frame ow (ow\<lparr>v8LogCallbacks := q'\<rparr>)"
  "owner_frame ow (ow\<lparr>header_buffer := hb, footer_buffer := fb\<rparr>)" "owner_frame ow (ow\<lparr>logs := h'\<rparr>)"
  by (simp_all add: owner_frame_def uv_async_send_def refGreaseInGrease_def startFlushTimer_def
      refFromV8_def new_log_def delete_log_def Let_def)

lemma unrefGrease_owner_frame [frames]: "unrefGreaseInGrease ow = Inr ow' \<Longrightarrow> owner_frame ow ow'"
  by (auto simp: unrefGreaseInGrease_def stopFlushTimer_def owner_frame_def Let_def split: if_splits)

lemma delete_overflow_frame [frames]: "delete_overflow w ow = Inr ow' \<Longrightarrow> owner_frame ow ow'"
  by (auto simp: delete_overflow_def bindR_eq_Inr)

lemma writeCBData_delete_frame [frames]: "writeCBData_delete d ow = Inr ow' \<Longrightarrow> owner_frame ow ow'"
  by (auto simp: writeCBData_delete_def dest: delete_overflow_frame split: option.splits)

lemma doV8Callback_frame [frames]: "doV8Callback d ow t = Inr (ow', t') \<Longrightarrow> owner_frame ow ow'"
  by (auto simp: doV8Callback_def bindR_eq_Inr dest: delete_overflow_frame split: option.splits)

lemma owner_frame_push [simp]:
  "owner_frame ow (uv_async_send h (refFromV8 (ow\<lparr>v8LogCallbacks := q\<rparr>)))"
  "owner_frame ow (uv_async_send h (ow\<lparr>v8LogCallbacks := q\<rparr>))"
  "owner_frame ow (uv_async_send h (ow\<lparr>internalCmdQueue := q'\<rparr>))"
  by (simp_all add: owner_frame_def uv_async_send_def refFromV8_def Let_def)

lemma returnBuffer_frame [frames]:
  assumes "returnBuffer ta b sync nocb ow t = Inr (ow', t')"
  shows "owner_frame ow ow'"
proof -
  from assms obtain ow1 where 1: "(if \<not> logBuf_isEmpty (bank t b) then unrefGreaseInGrease ow else Inr ow) = Inr ow1"
    by (auto simp: returnBuffer_def bindR_eq_Inr Let_def)
  then have "owner_frame ow ow1" by (auto split: if_splits dest: unrefGrease_owner_frame)
  moreover have "owner_frame ow1 ow'"
    using assms 1 by (auto simp: returnBuffer_def bindR_eq_Inr Let_def
        split: if_splits prod.splits bool.splits dest: doV8Callback_frame)
  ultimately show ?thesis by (rule owner_frame_trans)
qed

lemma returnBuffer_overflow_frame [frames]:
  assumes "returnBuffer_overflow ta w sync nocb ow t = Inr (ow', t')"
  shows "owner_frame ow ow'"
proof -
  from assms obtain ow1 where 1: "unrefGreaseInGrease ow = Inr ow1"
    by (auto simp: returnBuffer_overflow_def bindR_eq_Inr)
  then have "owner_frame ow ow1" by (rule unrefGrease_owner_frame)
  moreover have "owner_frame ow1 ow'"
    using assms 1
    by (auto simp: returnBuffer_overflow_def bindR_eq_Inr Let_def split: if_splits prod.splits
        dest!: doV8Callback_frame writeCBData_delete_frame delete_overflow_frame
        intro: owner_frame_trans [OF owner_frame_push(1)] owner_frame_trans [OF owner_frame_simps(7)])
  ultimately show ?thesis by (rule owner_frame_trans)
qed

lemma owner_frame_cmd:
  "owner_frame ow ow1 \<Longrightarrow> owner_frame ow (ow1\<lparr>internalCmdQueue := q\<rparr>)"
  "owner_frame ow ow1 \<Longrightarrow> owner_frame ow (refGreaseInGrease ow1)"
  "owner_frame ow ow1 \<Longrightarrow> owner_frame ow (uv_async_send h ow1)"
  "owner_frame ow ow1 \<Longrightarrow> owner_frame ow (delete_log a ow1)"
  by (rule owner_frame_trans, assumption, simp)+

lemma new_log_frame: "new_log l ow = (a, ow') \<Longrightarrow> owner_frame ow ow'"
  using owner_frame_simps(4) [of ow l] by simp

lemma write_target_frame [frames]:
  assumes run: "write_target clk s len m fil ow t = Inr (ow', t')"
  shows "owner_frame ow ow'"
  using run
proof (cases rule: write_target_cases)
  case queued
  then show ?thesis by (auto intro: owner_frame_cmd new_log_frame)
next
  case lost
  then show ?thesis by (auto intro: owner_frame_cmd new_log_frame)
qed (simp_all add: owner_frame_cmd)

text \<open>The logs that exist stay; a message too long for the bank becomes one more.\<close>

lemma write_target_logs:
  assumes run: "write_target clk s len m fil ow t = Inr (ow', t')" and a: "a \<noteq> nextLog ow"
  shows "logs ow' a = logs ow a"
  using run
  by (cases rule: write_target_cases)
    (use a in \<open>auto simp: new_log_def delete_log_def uv_async_send_def refGreaseInGrease_def startFlushTimer_def Let_def\<close>)

lemma flush_bank_frame [frames]: "flush_bank ta b nocb ow t = Inr (ow', t') \<Longrightarrow> owner_frame ow ow'"
  by (auto simp: flush_bank_def Let_def dest: returnBuffer_frame split: targetKind.splits)

lemma drain_frame [frames]: "drain ta nocb ow t = Inr (ow', t') \<Longrightarrow> owner_frame ow ow'"
  by (rule drain_rel [where T = "\<lambda>a t b u. owner_frame a b"]) (auto intro: owner_frame_trans flush_bank_frame)

lemma flushAll_target_frame [frames]:
  "flushAll_target ta rot nocb ow t = Inr (ow', t') \<Longrightarrow> owner_frame ow ow'"
  by (auto simp: flushAll_target_def dest: drain_frame)

lemma writeAsyncOverflow_frame [frames]:
  assumes "writeAsyncOverflow ta got w nocb ow t = Inr (ow', t')"
  shows "owner_frame ow ow'"
proof (cases "tkind t")
  case TTY
  with assms show ?thesis by (auto simp: writeAsyncOverflow_def bindR_eq_Inr)
next
  case (FILE ft)
  with assms obtain t1 where "returnBuffer_overflow ta w False nocb ow t1 = Inr (ow', t')"
    by (auto simp: writeAsyncOverflow_def bindR_eq_Inr Let_def)
  then show ?thesis by (rule returnBuffer_overflow_frame)
next
  case CALLBACK
  obtain r d q where add: "tw_addMvIfRoom writeCBData_moved (newAsOverflow ta w) (v8LogCallbacks ow) = (r, d, q)"
    by (cases "tw_addMvIfRoom writeCBData_moved (newAsOverflow ta w) (v8LogCallbacks ow)")
  have "delete_overflow w ow = Inr ow' \<or> ow' = ow \<or>
      writeCBData_delete d (uv_async_send asyncV8LogCallback (ow\<lparr>v8LogCallbacks := q\<rparr>)) = Inr ow'"
    using assms CALLBACK by (auto simp: writeAsyncOverflow_def add bindR_eq_Inr split: if_splits)
  then show ?thesis
    by (auto dest!: delete_overflow_frame writeCBData_delete_frame
        intro: owner_frame_trans [OF owner_frame_push(2)])
qed

lemma add_or_delete_frame [frames]:
  "add_or_delete k l w ow = Inr (w', ow') \<Longrightarrow> owner_frame ow ow'"
  by (auto simp: add_or_delete_def bindR_eq_Inr new_log_def delete_log_def owner_frame_def Let_def
      split: if_splits)

lemma writeOverflow_frame [frames]:
  assumes "writeOverflow ta got clk a fil ow t = Inr (ow', t')"
  shows "owner_frame ow ow'"
proof (cases "tdisabled t")
  case True
  with assms show ?thesis by (simp add: writeOverflow_def)
next
  case False
  with assms obtain k1 l1 w1 ow1 w2 k3 l3 w3 ow3 k4 l4 w4 ow4 where
    "add_or_delete k1 l1 overflow_new ow = Inr (w1, ow1)" "add_or_delete k3 l3 w2 ow1 = Inr (w3, ow3)"
    "add_or_delete k4 l4 w3 ow3 = Inr (w4, ow4)"
    "writeAsyncOverflow ta got w4 False (refGreaseInGrease ow4) t = Inr (ow', t')"
    by (auto simp: writeOverflow_def bindR_eq_Inr Let_def)
  then show ?thesis
    by (meson add_or_delete_frame writeAsyncOverflow_frame owner_frame_simps(2) owner_frame_trans)
qed

lemma owner_frame_tables:
  fixes st st' :: "'z logger_scheme"
  assumes "owner_frame st st'"
  shows "same_tables st st'" "tgts st' = tgts st" "scannable st p \<longleftrightarrow> scannable st' p"
    "nextTgt st' = nextTgt st" "cmdHandlesClosed st' = cmdHandlesClosed st"
proof -
  have "owner.more st' = owner.more st" using assms by (simp add: owner_frame_def)
  then have "targets st' = targets st \<and> defaultTarget st' = defaultTarget st \<and>
      defaultFilter st' = defaultFilter st \<and> tgts st' = tgts st \<and> nextTgt st' = nextTgt st \<and>
      cmdHandlesClosed st' = cmdHandlesClosed st"
    by (cases st, cases st') simp
  then show "same_tables st st'" "tgts st' = tgts st" "nextTgt st' = nextTgt st"
    "cmdHandlesClosed st' = cmdHandlesClosed st"
    using assms by (auto simp: same_tables_def owner_frame_def)
  show "scannable st p \<longleftrightarrow> scannable st' p"
    using assms by (simp add: scannable_def list_at_def owner_frame_def)
qed

text \<open>The two instances of \<open>emit\<close>.\<close>

definition keeps_tables :: "'z logger_scheme \<Rightarrow> 'z logger_scheme \<Rightarrow> bool" where
  "keeps_tables st st' \<longleftrightarrow> same_tables st st' \<and> (\<forall>p. scannable st p \<longrightarrow> scannable st' p)"

lemma with_target_tables:
  assumes "\<And>ow t ow' t'. g ow t = Inr (ow', t') \<Longrightarrow> owner_frame ow ow'" "with_target a g st = Inr st'"
  shows "keeps_tables st st'"
proof -
  obtain s t t' where "g st t = Inr (s, t')" and st': "st' = s\<lparr>tgts := (tgts s)(a \<mapsto> t')\<rparr>"
    using assms(2) by (auto simp: with_target_def bindR_eq_Inr)
  with assms(1) have F: "owner_frame st s" by blast
  show ?thesis
    using owner_frame_tables [OF F] by (auto simp: keeps_tables_def st' same_tables_def scannable_def list_at_def)
qed

lemma emit_write_framed: "framed (emit_write clk la e)" "scannable_keep (emit_write clk la e)"
proof -
  have "keeps_tables st st'" if "emit_write clk la e a f st = Inr st'" for a f and st st' :: "'z logger_scheme"
    using that by (auto simp: emit_write_def bindR_eq_Inr elim!: with_target_tables [rotated]
        dest: write_target_frame)
  then show "framed (emit_write clk la e :: 'z logger_scheme emit)"
    "scannable_keep (emit_write clk la e :: 'z logger_scheme emit)"
    unfolding framed_def scannable_keep_def keeps_tables_def by blast+
qed

lemma emit_overflow_framed: "framed (emit_overflow clk got la)" "scannable_keep (emit_overflow clk got la)"
proof -
  have "keeps_tables st st'" if "emit_overflow clk got la a f st = Inr st'" for a f and st st' :: "'z logger_scheme"
  proof -
    from that obtain s1 s2 where 1: "with_target a (flushAll_target a True False) st = Inr s1"
      and 2: "log_incRef la s1 = Inr s2" and 3: "with_target a (writeOverflow a got clk la (Some f)) s2 = Inr st'"
      by (auto simp: emit_overflow_def bindR_eq_Inr)
    have "keeps_tables st s1" by (rule with_target_tables [OF _ 1]) (rule flushAll_target_frame)
    moreover have "owner_frame s1 s2" using 2 by (auto simp: log_incRef_def bindR_eq_Inr)
    moreover have "keeps_tables s2 st'" by (rule with_target_tables [OF _ 3]) (rule writeOverflow_frame)
    ultimately show ?thesis
      using owner_frame_tables [of s1 s2] unfolding keeps_tables_def by (blast intro: same_tables_trans)
  qed
  then show "framed (emit_overflow clk got la :: 'z logger_scheme emit)"
    "scannable_keep (emit_overflow clk got la :: 'z logger_scheme emit)"
    unfolding framed_def scannable_keep_def keeps_tables_def by blast+
qed

end
