(* ===== verification/Dispatch.thy ===== *)
theory Dispatch
  imports Routing
begin

text \<open>
  The life of an entry between the calling thread and its targets: \<open>_log\<close> takes a master
  buffer and queues it, NEW_LOG writes it along its route and puts the buffer back.
\<close>

section \<open>A sifted entry stays sifted\<close>

definition fresh_meta :: "logMeta \<Rightarrow> bool" where
  "fresh_meta m \<longleftrightarrow> \<not> META_HAS_CACHE m \<and> wf_meta m \<and> cached_lists m = [0, 0, 0, 0]"

lemma fresh_default_meta [simp]: "fresh_meta (default_meta t l)"
  by (simp add: fresh_meta_def) (simp add: default_meta_def)

lemma sift_again:
  assumes "\<not> META_HAS_CACHE m0" "sift st m0 = (True, m)"
  shows "sift st m = (True, m)"
proof -
  have lev: "levelFilterOutMask st AND level m0 = 0"
    using assms(2) sift_level_out [of st m0] by (cases "levelFilterOutMask st AND level m0 = 0") auto
  note k = sift_keeps [OF assms(2)]
  show ?thesis
  proof (cases "META_HAS_CACHE m")
    case True
    with lev k show ?thesis by (simp add: sift_cached)
  next
    case False
    have h: "cached_hash m = getHashes (tag m0) (origin m0)"
      using assms lev by (auto simp: sift_fresh Let_def META_SET_LIST_def split: option.splits prod.splits)
    then have "m\<lparr>cached_hash := getHashes (tag m) (origin m)\<rparr> = m" using k by simp
    with False lev k assms(2) show ?thesis
      by (auto simp: sift_fresh [OF assms(1)] sift_fresh [of m] Let_def META_SET_LIST_def
          split: option.splits prod.splits)
  qed
qed

text \<open>The lists a fresh entry gets from \<open>sift\<close>, as its filters.\<close>

lemma sifted_filters:
  fixes st :: "'z logger_scheme"
  assumes inv: "filters_inv st" and fresh: "fresh_meta m0" and s: "sift st m0 = (True, m)"
  shows "concat (map (\<lambda>i. list_filters st (META_GET_LIST m i)) [0..<GREASE_META_HASHLIST_CACHE_SIZE]) =
      entry_filters st (tag m0) (origin m0)"
    and "length (entry_filters st (tag m0) (origin m0)) < MAX_IDENTICAL_FILTERS \<Longrightarrow>
      i < GREASE_META_HASHLIST_CACHE_SIZE \<Longrightarrow> scannable st (META_GET_LIST m i)"
proof -
  have lev: "levelFilterOutMask st AND level m0 = 0"
    using s sift_level_out [of st m0] by (cases "levelFilterOutMask st AND level m0 = 0") auto
  define m1 where "m1 = m0\<lparr>cached_hash := getHashes (tag m0) (origin m0)\<rparr>"
  have l1: "cached_lists m1 = [0, 0, 0, 0]" using fresh by (simp add: m1_def fresh_meta_def)
  have four: "[0..<GREASE_META_HASHLIST_CACHE_SIZE] = [0, 1, 2, 3]"
    by (simp add: GREASE_META_HASHLIST_CACHE_SIZE_def upt_rec)
  have nil: "list_filters st 0 = []" by (simp add: list_filters_def)
  have zero: "scannable st 0" by (simp add: scannable_def)
  have sf: "sift st m0 = (case chosen (filterHashTable st) (tag m0) (origin m0) of
      Some (i, l) \<Rightarrow> (True, META_SET_LIST m1 i l) | None \<Rightarrow> (\<not> defaultFilterOut st, m1))"
    using fresh lev by (simp add: sift_fresh fresh_meta_def Let_def m1_def split: option.split)
  have "concat (map (\<lambda>i. list_filters st (META_GET_LIST m i)) [0..<GREASE_META_HASHLIST_CACHE_SIZE]) =
      entry_filters st (tag m0) (origin m0) \<and>
    (length (entry_filters st (tag m0) (origin m0)) < MAX_IDENTICAL_FILTERS \<longrightarrow>
     (\<forall>i < GREASE_META_HASHLIST_CACHE_SIZE. scannable st (META_GET_LIST m i)))"
  proof (cases "chosen (filterHashTable st) (tag m0) (origin m0)")
    case None
    with s sf have m: "m = m1" by simp
    have "\<forall>i < 4. META_GET_LIST m i = 0"
      unfolding m META_GET_LIST_def l1 by (auto simp: numeral_eq_Suc less_Suc_eq)
    with None nil zero show ?thesis
      by (simp add: entry_filters_def four GREASE_META_HASHLIST_CACHE_SIZE_def)
  next
    case (Some ip)
    obtain j p where ip: "ip = (j, p)" by (cases ip)
    have m: "m = META_SET_LIST m1 j p" using s sf Some ip by simp
    have tab: "\<exists>h. filterHashTable st h = Some p" and j: "j = 0 \<or> j = 1 \<or> j = 2 \<or> j = 3"
      using Some ip by (auto simp: chosen_def split: option.splits)
    then obtain l where l: "list_at st p l" using inv filters_invD by blast
    then have ef: "entry_filters st (tag m0) (origin m0) = FilterList_filters l"
        "list_filters st p = FilterList_filters l"
      by (auto simp: entry_filters_def list_filters_def Some ip list_at_def)
    have get: "META_GET_LIST m i = (if i = j then p else 0)" if "i < 4" for i
      using that j by (auto simp: m META_GET_LIST_def META_SET_LIST_def l1 nth_list_update
          numeral_eq_Suc less_Suc_eq)
    have "concat (map (\<lambda>i. list_filters st (META_GET_LIST m i)) [0, 1, 2, 3]) = FilterList_filters l"
      using j by (auto simp: get nil ef(2))
    moreover have "scannable st (META_GET_LIST m i)"
      if "i < 4" "length (FilterList_filters l) < MAX_IDENTICAL_FILTERS" for i
      using that l zero by (auto simp: get scannable_def)
    ultimately show ?thesis
      unfolding ef(1) four by (simp add: GREASE_META_HASHLIST_CACHE_SIZE_def)
  qed
  then show "concat (map (\<lambda>i. list_filters st (META_GET_LIST m i)) [0..<GREASE_META_HASHLIST_CACHE_SIZE]) =
      entry_filters st (tag m0) (origin m0)"
    and "length (entry_filters st (tag m0) (origin m0)) < MAX_IDENTICAL_FILTERS \<Longrightarrow>
      i < GREASE_META_HASHLIST_CACHE_SIZE \<Longrightarrow> scannable st (META_GET_LIST m i)"
    by auto
qed

lemma dispatch_sifted:
  fixes st :: "'z logger_scheme"
  assumes fr: "framed emit" "scannable_keep emit"
    and inv: "filters_inv st" and fresh: "fresh_meta m0" and s: "sift st m0 = (True, emeta e)"
    and few: "length (entry_filters st (tag m0) (origin m0)) < MAX_IDENTICAL_FILTERS"
  shows "dispatch emit e st = emit_all emit (route st e (entry_filters st (tag m0) (origin m0))) st"
  using dispatch_spec [OF fr, of st e] sifted_filters [OF inv fresh s] few by simp

section \<open>NEW_LOG\<close>

definition give_master :: "nat \<Rightarrow> 'z owner_scheme \<Rightarrow> 'z owner_scheme res" where
  "give_master la st =
     bindR (upd_log la singleLog_clear st) (\<lambda>st.
     bindR (tw_add la (masterBufferAvail st)) (\<lambda>q. Inr (st\<lparr>masterBufferAvail := q\<rparr>)))"

lemma NEW_LOG_eq:
  fixes st :: "'z logger_scheme"
  assumes inv: "filters_inv st" and l: "logs st la = Some l"
    and fresh: "fresh_meta m0" and s: "sift st m0 = (True, emeta (smeta l))"
    and few: "length (entry_filters st (tag m0) (origin m0)) < MAX_IDENTICAL_FILTERS"
  shows "handle_NEW_LOG clk la st =
    bindR (emit_all (emit_write clk la (smeta l))
             (route st (smeta l) (entry_filters st (tag m0) (origin m0))) st) (give_master la)"
proof -
  have again: "sift st (emeta (smeta l)) = (True, emeta (smeta l))"
    using sift_again [OF _ s] fresh by (simp add: fresh_meta_def)
  have same: "(logs st)(la \<mapsto> l) = logs st" using l by auto
  have "upd_log la (\<lambda>l'. l'\<lparr>smeta := (smeta l')\<lparr>emeta := emeta (smeta l)\<rparr>\<rparr>) st = Inr st"
    using l by (simp add: upd_log_def deref_def same)
  then show ?thesis
    using dispatch_sifted [OF emit_write_framed inv fresh s few] l
    by (simp add: handle_NEW_LOG_def deref_def again give_master_def [abs_def] Let_def)
qed

lemma OVERFLOW_eq:
  fixes st :: "'z logger_scheme"
  assumes inv: "filters_inv st" and l: "logs st la = Some l"
    and fresh: "fresh_meta m0" and s: "sift st m0 = (True, emeta (smeta l))"
    and few: "length (entry_filters st (tag m0) (origin m0)) < MAX_IDENTICAL_FILTERS"
  shows "handle_OVERFLOW clk got la st =
    bindR (emit_all (emit_overflow clk got la)
             (route st (smeta l) (entry_filters st (tag m0) (origin m0))) st) (log_decRef la)"
proof -
  have again: "sift st (emeta (smeta l)) = (True, emeta (smeta l))"
    using sift_again [OF _ s] fresh by (simp add: fresh_meta_def)
  have same: "(logs st)(la \<mapsto> l) = logs st" using l by auto
  have "upd_log la (\<lambda>l'. l'\<lparr>smeta := (smeta l')\<lparr>emeta := emeta (smeta l)\<rparr>\<rparr>) st = Inr st"
    using l by (simp add: upd_log_def deref_def same)
  then show ?thesis
    using dispatch_sifted [OF emit_overflow_framed inv fresh s few] l
    by (simp add: handle_OVERFLOW_def deref_def again Let_def)
qed

text \<open>C2 An entry that was sifted when it was logged is written, in filter order, exactly to the
  targets of its route: for every filter of the list it is filed under that has its level and is not
  disabled, the default target or the filter's known and not ignored target; to the default target
  with the default filter when no filter claims it. Then its buffer is free again.\<close>

theorem NEW_LOG_routes:
  fixes st :: "'z logger_scheme"
  assumes "filters_inv st" "logs st la = Some l"
    and "fresh_meta m0" "sift st m0 = (True, emeta (smeta l))"
    and "length (entry_filters st (tag m0) (origin m0)) < MAX_IDENTICAL_FILTERS"
  shows "handle_NEW_LOG clk la st =
    bindR (emit_all (emit_write clk la (smeta l))
             (route st (smeta l) (entry_filters st (tag m0) (origin m0))) st) (give_master la)"
  by (rule NEW_LOG_eq [OF assms])


text \<open>A list whose sixteen slots are all taken is scanned past its end.\<close>

lemma full_list_no_zero:
  assumes "FilterList_inv l" "length (FilterList_filters l) = MAX_IDENTICAL_FILTERS"
  shows "scan_slots (flist l) = Inl OutOfBounds"
proof -
  have "length (takeWhile (\<lambda>f. fid f \<noteq> 0) (flist l)) = length (flist l)"
    using assms by (simp add: FilterList_inv_def FilterList_filters_def active_def)
  then have "takeWhile (\<lambda>f. fid f \<noteq> 0) (flist l) = flist l"
    by (metis takeWhile_eq_take take_all_iff order_refl)
  then have "\<forall>f \<in> set (flist l). fid f \<noteq> 0" by (simp add: takeWhile_eq_all_conv)
  then show ?thesis by (rule scan_slots_fault)
qed

text \<open>C30 With sixteen filters for the entry's list, which \<open>addFilter\<close> accepts, the dispatch loop
  reads past the array as soon as the list's bloom has the level.\<close>

theorem NEW_LOG_full_list_overruns:
  fixes st :: "'z logger_scheme"
  assumes l: "logs st la = Some l" and s: "sift st (emeta (smeta l)) = (True, emeta (smeta l))"
    and p: "META_GET_LIST (emeta (smeta l)) 0 = p" "list_at st p fl"
    and full: "length (FilterList_filters fl) = MAX_IDENTICAL_FILTERS"
    and lev: "FilterList_valid fl (level (emeta (smeta l)))"
  shows "handle_NEW_LOG clk la st = Inl OutOfBounds"
proof -
  have same: "(logs st)(la \<mapsto> l) = logs st" using l by auto
  have up: "upd_log la (\<lambda>l'. l'\<lparr>smeta := (smeta l')\<lparr>emeta := emeta (smeta l)\<rparr>\<rparr>) st = Inr st"
    using l by (simp add: upd_log_def deref_def same)
  have four: "[0..<GREASE_META_HASHLIST_CACHE_SIZE] = [0, 1, 2, 3]"
    by (simp add: GREASE_META_HASHLIST_CACHE_SIZE_def upt_rec)
  have "dispatch_list emit (smeta l) p (False, st) = Inl OutOfBounds" for emit
    using p(2) lev full_list_no_zero [OF _ full] by (auto simp: dispatch_list_def list_at_def deref_def)
  then have "dispatch emit (smeta l) st = Inl OutOfBounds" for emit
    by (simp add: dispatch_def four p(1))
  then show ?thesis using l s up by (simp add: handle_NEW_LOG_def deref_def Let_def)
qed

section \<open>Targets that are not on the route\<close>

lemma emit_write_other:
  "emit_write clk la e a f st = Inr st' \<Longrightarrow> b \<noteq> a \<Longrightarrow> tgts st' b = tgts st b"
  by (auto simp: emit_write_def with_target_def bindR_eq_Inr dest!: write_target_frame owner_frame_tables(2))

lemma emit_all_other:
  "emit_all (emit_write clk la e) xs st = Inr st' \<Longrightarrow> b \<notin> fst ` set xs \<Longrightarrow> tgts st' b = tgts st b"
proof (induction xs arbitrary: st)
  case Nil
  then show ?case by (simp add: emit_all_def)
next
  case (Cons x xs)
  obtain a f where x: "x = (a, f)" by (cases x)
  with Cons.prems obtain s where s: "emit_write clk la e a f st = Inr s" "emit_all (emit_write clk la e) xs s = Inr st'"
    by (auto simp: emit_all_def bindR_eq_Inr)
  with Cons x show ?case using emit_write_other [OF s(1), of b] by auto
qed

text \<open>A target in the entry's ignore list never gets it: unless the default target is that same
  object, or another id names it, NEW_LOG leaves it as it was.\<close>

theorem NEW_LOG_spares_ignored:
  fixes st :: "'z logger_scheme"
  assumes "filters_inv st" "logs st la = Some l"
    and "fresh_meta m0" "sift st m0 = (True, emeta (smeta l))"
    and "length (entry_filters st (tag m0) (origin m0)) < MAX_IDENTICAL_FILTERS"
    and ign: "ignores (smeta l) i" and a: "find_target i st = Some a"
    and uniq: "\<forall>j. find_target j st = Some a \<longrightarrow> j = i" and def: "defaultTarget st \<noteq> Some a"
    and run: "handle_NEW_LOG clk la st = Inr st'"
  shows "tgts st' a = tgts st a"
proof -
  define fs where "fs = entry_filters st (tag m0) (origin m0)"
  have "a \<notin> fst ` set (hits st e gs)" if "e = smeta l" for e gs
    using ign uniq def
    by (induction gs) (auto simp: hits_def map_filter_simps target_of_def that split: option.splits if_splits)
  then have no: "a \<notin> fst ` set (route st (smeta l) fs)"
    using def by (auto simp: route_def split: option.splits)
  obtain s where s: "emit_all (emit_write clk la (smeta l)) (route st (smeta l) fs) st = Inr s"
    and g: "give_master la s = Inr st'"
    using run unfolding NEW_LOG_eq [OF assms(1-5)] fs_def by (auto simp: bindR_eq_Inr)
  have "tgts st' = tgts s" using g by (auto simp: give_master_def upd_log_def bindR_eq_Inr)
  with emit_all_other [OF s no] show ?thesis by simp
qed

section \<open>_log: master buffers and the command queue\<close>

text \<open>Where the master buffers are: free, or queued with an entry.\<close>

definition queued_logs :: "internalCmdReq list \<Rightarrow> nat list" where
  "queued_logs rs = List.map_filter (\<lambda>r. if icmd r = NEW_LOG then icmd_aux r else None) rs"

definition masters :: "'z owner_scheme \<Rightarrow> nat list" where
  "masters st = items (masterBufferAvail st) @ queued_logs (items (internalCmdQueue st))"

definition masters_ok :: "'z owner_scheme \<Rightarrow> bool" where
  "masters_ok st \<longleftrightarrow> circular_inv (masterBufferAvail st) \<and> circular_inv (internalCmdQueue st) \<and>
     distinct (masters st) \<and> length (masters st) \<le> capacity (masterBufferAvail st) \<and>
     (\<forall>a \<in> set (masters st). \<exists>l mem. logs st a = Some l \<and> hbase (buf l) = Some mem \<and>
        length mem = bufferSize st \<and> hlen (buf l) = bufferSize st)"

lemma queued_logs_append: "queued_logs (xs @ ys) = queued_logs xs @ queued_logs ys"
  by (simp add: queued_logs_def map_filter_append)

lemma queue_cmd_spec:
  assumes "circular_inv (internalCmdQueue st)"
  shows "\<exists>q. queue_cmd req st = (if length (items (internalCmdQueue st)) < capacity (internalCmdQueue st)
      then uv_async_send asyncInternalCommand (st\<lparr>internalCmdQueue := q\<rparr>) else st) \<and>
    circular_inv q \<and> capacity q = capacity (internalCmdQueue st) \<and>
    (length (items (internalCmdQueue st)) < capacity (internalCmdQueue st) \<longrightarrow>
       items q = items (internalCmdQueue st) @ [req])"
proof -
  obtain b q where add: "tw_addIfRoom req (internalCmdQueue st) = (b, q)"
    by (cases "tw_addIfRoom req (internalCmdQueue st)")
  show ?thesis
    using tw_addIfRoom_spec [OF assms add]
    by (intro exI [of _ q])
      (auto simp: queue_cmd_def tw_addMvIfRoom_eq add internalCmdReq_moved_def simp del: length_items)
qed

text \<open>The message and meta a log holds for NEW_LOG.\<close>

definition holds_entry :: "logMeta \<Rightarrow> u32 list \<Rightarrow> bytes \<Rightarrow> singleLog \<Rightarrow> bool" where
  "holds_entry m ext s l \<longleftrightarrow> heapBuf_text (buf l) = s \<and> used (buf l) = length s \<and>
     emeta (smeta l) = m \<and> (META_HAS_IGNORES m \<longrightarrow> ignore_list (smeta l) = ext)"

text \<open>With a master buffer at hand, \<open>log_internal\<close> fills it and posts its command.\<close>

lemma log_internal_takes:
  assumes ok: "masters_ok st" and len: "len \<le> bufferSize st" "len \<le> length s"
    and avail: "items (masterBufferAvail st) = a # as"
  shows "\<exists>q l. log_internal m ext s len st = Inr (GREASE_OK, queue_cmd ((internalCmdReq_new NEW_LOG 0)\<lparr>icmd_aux := Some a\<rparr>)
      (st\<lparr>masterBufferAvail := q, logs := (logs st)(a \<mapsto> l)\<rparr>)) \<and>
    circular_inv q \<and> items q = as \<and> capacity q = capacity (masterBufferAvail st) \<and> holds_entry m ext (take len s) l \<and>
    hlen (buf l) = bufferSize st \<and> (\<exists>mem. hbase (buf l) = Some mem \<and> length mem = bufferSize st)"
proof -
  note O = ok [unfolded masters_ok_def]
  obtain x q where rm: "tw_remove (masterBufferAvail st) = (x, q)" by (cases "tw_remove (masterBufferAvail st)")
  have R: "x = Some a" "circular_inv q" "items q = as" "capacity q = capacity (masterBufferAvail st)"
    using tw_remove_spec [OF _ rm] O avail by fastforce+
  have "a \<in> set (masters st)" by (simp add: masters_def avail)
  then obtain l mem where l: "logs st a = Some l" "hbase (buf l) = Some mem" "length mem = bufferSize st"
    "hlen (buf l) = bufferSize st" using O by blast
  have wf: "heapBuf_wf (buf l)" using l by (simp add: heapBuf_wf_def)
  obtain b' where b': "heapBuf_memcpy s len None (buf l) = Inr (len, b')" "heapBuf_wf b'"
    "hlen b' = bufferSize st" "used b' = len" "heapBuf_text b' = take len s"
    using heapBuf_memcpy_plain [OF wf l(2), of len s] len l(4) by (auto simp: min_def)
  have base: "\<exists>mem. hbase b' = Some mem \<and> length mem = bufferSize st"
    using b'(1-3) l by (auto simp: heapBuf_memcpy_def heapBuf_wf_def bindR_eq_Inr Let_def)
  define l' where "l' = set_meta m ext (l\<lparr>buf := b'\<rparr>)"
  have l': "holds_entry m ext (take len s) l'" "buf l' = b'"
    using b' len by (auto simp: l'_def set_meta_def holds_entry_def)
  have "log_internal m ext s len st = Inr (GREASE_OK, queue_cmd ((internalCmdReq_new NEW_LOG 0)\<lparr>icmd_aux := Some a\<rparr>)
      (st\<lparr>masterBufferAvail := q, logs := (logs st)(a \<mapsto> l')\<rparr>))"
    using len l b'(1) by (simp add: log_internal_def rm R(1) deref_def l'_def)
  then show ?thesis using R l' base b'(3) by blast
qed

lemma log_internal_fits:
  assumes ok: "masters_ok st" and len: "len \<le> bufferSize st" "len \<le> length s"
  shows "\<exists>st'. log_internal m ext s len st = Inr (GREASE_OK, st') \<and> masters_ok st' \<and>
    (case items (masterBufferAvail st) of
       [] \<Rightarrow> masters st' = masters st \<and> internalCmdQueue st' = internalCmdQueue st \<and> logs st' = logs st
     | a # as \<Rightarrow> items (masterBufferAvail st') = as \<and>
         (\<exists>l. logs st' a = Some l \<and> holds_entry m ext (take len s) l) \<and>
         (\<forall>b. b \<noteq> a \<longrightarrow> logs st' b = logs st b) \<and>
         (if length (items (internalCmdQueue st)) < capacity (internalCmdQueue st)
          then asyncInternalCommand \<in> pending st' \<and> set (masters st') = set (masters st) \<and>
            items (internalCmdQueue st') = items (internalCmdQueue st) @
              [(internalCmdReq_new NEW_LOG 0)\<lparr>icmd_aux := Some a\<rparr>]
          else internalCmdQueue st' = internalCmdQueue st \<and> a \<notin> set (masters st')))"
proof (cases "items (masterBufferAvail st)")
  case Nil
  obtain q where "tw_remove (masterBufferAvail st) = (None, q)" "q = masterBufferAvail st"
    using tw_remove_spec [of "masterBufferAvail st"] ok Nil
    by (cases "tw_remove (masterBufferAvail st)") (fastforce simp: masters_ok_def)
  then have "log_internal m ext s len st = Inr (GREASE_OK, st)"
    using len by (simp add: log_internal_def)
  then show ?thesis using Nil ok by simp
next
  case (Cons a as)
  note O = ok [unfolded masters_ok_def]
  define req where "req = (internalCmdReq_new NEW_LOG 0)\<lparr>icmd_aux := Some a\<rparr>"
  obtain q l' where run: "log_internal m ext s len st = Inr (GREASE_OK, queue_cmd req
      (st\<lparr>masterBufferAvail := q, logs := (logs st)(a \<mapsto> l')\<rparr>))"
    and q: "circular_inv q" "items q = as" "capacity q = capacity (masterBufferAvail st)"
    and l': "holds_entry m ext (take len s) l'" "hlen (buf l') = bufferSize st"
      "\<exists>mem. hbase (buf l') = Some mem \<and> length mem = bufferSize st"
    using log_internal_takes [OF ok len Cons] unfolding req_def by metis
  define st1 where "st1 = st\<lparr>masterBufferAvail := q, logs := (logs st)(a \<mapsto> l')\<rparr>"
  note run = run [folded st1_def]
  have flds: "internalCmdQueue st1 = internalCmdQueue st" "masterBufferAvail st1 = q"
    "bufferSize st1 = bufferSize st" "logs st1 = (logs st)(a \<mapsto> l')" by (simp_all add: st1_def)
  have qc: "circular_inv (internalCmdQueue st1)" using O flds by simp
  obtain q' where Q: "queue_cmd req st1 = (if length (items (internalCmdQueue st1)) < capacity (internalCmdQueue st1)
      then uv_async_send asyncInternalCommand (st1\<lparr>internalCmdQueue := q'\<rparr>) else st1)"
    "circular_inv q'" "capacity q' = capacity (internalCmdQueue st1)"
    "length (items (internalCmdQueue st1)) < capacity (internalCmdQueue st1) \<longrightarrow>
       items q' = items (internalCmdQueue st1) @ [req]"
    using queue_cmd_spec [OF qc] by blast
  have buffers: "\<exists>l mem. ((logs st)(a \<mapsto> l')) c = Some l \<and> hbase (buf l) = Some mem \<and>
      length mem = bufferSize st \<and> hlen (buf l) = bufferSize st" if "c \<in> set (masters st)" for c
    using that O l'(2,3) by (cases "c = a") auto
  show ?thesis
  proof (cases "length (items (internalCmdQueue st)) < capacity (internalCmdQueue st)")
    case True
    define st' where "st' = uv_async_send asyncInternalCommand (st1\<lparr>internalCmdQueue := q'\<rparr>)"
    have r: "log_internal m ext s len st = Inr (GREASE_OK, st')" using run Q True flds by (simp add: st'_def)
    have it: "items (internalCmdQueue st') = items (internalCmdQueue st) @ [req]"
      "items (masterBufferAvail st') = as" "logs st' = (logs st)(a \<mapsto> l')" "bufferSize st' = bufferSize st"
      "asyncInternalCommand \<in> pending st'" "internalCmdQueue st' = q'" "masterBufferAvail st' = q"
      using Q True flds q by (simp_all add: st'_def uv_async_send_def)
    have ms: "masters st' = as @ queued_logs (items (internalCmdQueue st)) @ [a]"
      unfolding masters_def it(1,2) queued_logs_append
      by (simp add: queued_logs_def req_def internalCmdReq_new_def map_filter_simps)
    have m0: "masters st = a # as @ queued_logs (items (internalCmdQueue st))" by (simp add: masters_def Cons)
    have "masters_ok st'"
      unfolding masters_ok_def ms it(3,4,6,7) using O q Q(2) buffers unfolding m0 by auto
    then show ?thesis using r it l' Cons True ms m0 by (auto simp: req_def)
  next
    case False
    have r: "log_internal m ext s len st = Inr (GREASE_OK, st1)" using run Q(1) False flds by simp
    have ms: "masters st1 = as @ queued_logs (items (internalCmdQueue st))" by (simp add: masters_def flds q)
    have m0: "masters st = a # as @ queued_logs (items (internalCmdQueue st))" by (simp add: masters_def Cons)
    have "masters_ok st1"
      unfolding masters_ok_def ms flds using O q buffers unfolding m0 by auto
    moreover have "a \<notin> set (masters st1)" using O unfolding ms m0 by simp
    ultimately show ?thesis using r flds l' Cons False q by auto
  qed
qed

text \<open>C17 \<open>_log\<close> of a message that fits copies it, with its meta and ignore list, into the oldest free
  master buffer and queues it with a wake-up of the logger thread; with no free buffer the message is
  dropped and nothing changes. When the command queue is full the message is dropped too, and the
  buffer it was put in is neither free nor queued any more: one master buffer is lost for good.\<close>

theorem log_internal_queues:
  assumes ok: "masters_ok st" and len: "len \<le> bufferSize st" "len \<le> length s"
  shows "\<exists>st'. log_internal m ext s len st = Inr (GREASE_OK, st') \<and> masters_ok st' \<and>
    (case items (masterBufferAvail st) of
       [] \<Rightarrow> masters st' = masters st \<and> internalCmdQueue st' = internalCmdQueue st \<and> logs st' = logs st
     | a # as \<Rightarrow> items (masterBufferAvail st') = as \<and>
         (\<exists>l. logs st' a = Some l \<and> holds_entry m ext (take len s) l) \<and>
         (\<forall>b. b \<noteq> a \<longrightarrow> logs st' b = logs st b) \<and>
         (if length (items (internalCmdQueue st)) < capacity (internalCmdQueue st)
          then asyncInternalCommand \<in> pending st' \<and> set (masters st') = set (masters st) \<and>
            items (internalCmdQueue st') = items (internalCmdQueue st) @
              [(internalCmdReq_new NEW_LOG 0)\<lparr>icmd_aux := Some a\<rparr>]
          else internalCmdQueue st' = internalCmdQueue st \<and> a \<notin> set (masters st')))"
  by (rule log_internal_fits [OF assms])

text \<open>The entry points keep the buffers and only the level mask, the default filter-out and the
  length decide: too long gives \<open>GREASE_OVERFLOW\<close>, an entry \<open>sift\<close> refuses gives \<open>GREASE_OK\<close>, in both
  cases with nothing queued; every other entry goes to \<open>_log\<close> with the meta \<open>sift\<close> completed.\<close>

theorem log_public_cases:
  assumes ok: "masters_ok st" and len: "len \<le> length s"
  shows "if len > GREASE_MAX_MESSAGE_SIZE then log_public f ext s len st = Inr (GREASE_OVERFLOW, st)
    else if \<not> fst (sift st f) then log_public f ext s len st = Inr (GREASE_OK, st)
    else log_public f ext s len st = log_internal (snd (sift st f)) ext s len st \<and>
      (len \<le> bufferSize st \<longrightarrow> (\<exists>st'. log_public f ext s len st = Inr (GREASE_OK, st') \<and> masters_ok st'))"
  using log_internal_fits [OF ok _ len, of "snd (sift st f)" ext]
  by (cases "sift st f") (auto simp: log_public_def split: bool.split)

end
