(* ===== verification/Examples.thy ===== *)
theory Examples
  imports Dispatch
begin

text \<open>
  Concrete states: the logger as constructed, a target with its banks, and the witnesses
  that show the properties of the components can hold on them.
\<close>

section \<open>A fresh owner and a fresh target\<close>

definition demo_ow :: owner where
  "demo_ow = owner_init (\<lambda>_. 0) 300 100"

text \<open>The delimiter is a newline.\<close>

definition demo_delim :: delim_data where
  "demo_delim = \<lparr>delim = \<lparr>hbase = Some [10], hlen = 1, used = 1, rcb = False\<rparr>, delim_output = heapBuf_empty\<rparr>"

definition demo_tgt :: "nat \<Rightarrow> targetKind \<Rightarrow> logTarget" where
  "demo_tgt n k = projr (logTarget_new (\<lambda>_. 0) n 1 demo_delim k)"

definition flying :: "nat \<Rightarrow> targetKind \<Rightarrow> logTarget" where
  "flying n k = (let t = demo_tgt n k in
     t\<lparr>banks := (banks t)[0 := (bank t 0)\<lparr>llen := 3\<rparr>], availBuffers := snd (tw_remove (availBuffers t)),
       currentBuffer := 1, inflight := [(0, False)]\<rparr>)"

lemma flying_inv: "tgt_inv [] (flying 4 TTY)"
  by code_simp

section \<open>Writing and flushing\<close>

lemma demo_tgt_inv: "tgt_inv [] (demo_tgt 140 TTY)"
  by code_simp

text \<open>A target without formats adds no header and no footer.\<close>

definition plain :: "logTarget \<Rightarrow> bool" where
  "plain t \<longleftrightarrow> logLabel_length (tpreFormat t) = 0 \<and> logLabel_length (timeFormat t) = 0 \<and>
     logLabel_length (levelFormat t) = 0 \<and> logLabel_length (tagFormat t) = 0 \<and>
     logLabel_length (originFormat t) = 0 \<and> logLabel_length (preMsgFormat t) = 0 \<and>
     logLabel_length (tpostFormat t) = 0"

lemma plain_header:
  assumes "plain t" "case fil of Some f \<Rightarrow> logLabel_isEmpty (preFormat f) \<and>
      logLabel_isEmpty (postFormatPreMsg f) \<and> logLabel_isEmpty (postFormat f) | None \<Rightarrow> True"
    and "remain < 2 ^ 64"
  shows "putsHeader clk mem remain m fil ow t = Inr (0, mem)"
    and "putsFooter mem remain fil t = Inr (0, mem)"
  using assms size_t_sub_le [of remain remain]
  by (auto simp: plain_def putsHeader_def putsFooter_def split: option.splits)

lemma demo_plain: "plain (demo_tgt 140 TTY)"
  by code_simp

lemma demo_header:
  "putsHeader clk (header_buffer demo_ow) GREASE_MAX_PREFIX_HEADER m None demo_ow (demo_tgt 140 TTY) =
     Inr (0, replicate GREASE_MAX_PREFIX_HEADER 0)"
  "putsFooter (footer_buffer demo_ow) (size_t_sub GREASE_MAX_PREFIX_HEADER 0) None (demo_tgt 140 TTY) =
     Inr (0, replicate GREASE_MAX_PREFIX_HEADER 0)"
  using size_t_sub_le [of 0 GREASE_MAX_PREFIX_HEADER]
  by (simp_all add: plain_header [OF demo_plain] demo_ow_def GREASE_MAX_PREFIX_HEADER_def)

lemma demo_write:
  "\<not> tdisabled (demo_tgt 140 TTY)" "(2::nat) + GREASE_MAX_PREFIX_HEADER \<le> bankSize (demo_tgt 140 TTY)"
  "logBuf_remain (current (demo_tgt 140 TTY)) \<ge> int (2 + 0 + 0)" "tstream (demo_tgt 140 TTY) = []"
  "delim_bytes (tdelim (demo_tgt 140 TTY)) = [10]"
  "0 + 2 + 0 + length (delim_bytes (tdelim (demo_tgt 140 TTY))) \<le> bankSize (demo_tgt 140 TTY)"
  by code_simp+

lemma demo_cmdq: "circular_inv (internalCmdQueue demo_ow)"
  by (simp add: demo_ow_def)

lemma write_target_stream_witness:
  "\<exists>ow' t'. write_target (0, 0) [65, 66] 2 (default_meta 5 1) None demo_ow (demo_tgt 140 TTY) = Inr (ow', t') \<and>
     tgt_inv [] t' \<and> tstream t' = [65, 66, 10]"
  using write_target_stream [OF demo_tgt_inv demo_write(1,2) _ demo_header _ _ demo_write(6) demo_cmdq,
      of "[65, 66]" "(0, 0)" "default_meta 5 1"] demo_write(3-5)
  by (auto simp: line_def)


text \<open>A target whose first bank holds three bytes and is queued for write-out.\<close>

definition queued :: "nat \<Rightarrow> targetKind \<Rightarrow> logTarget" where
  "queued n k = (let t = demo_tgt n k in
     t\<lparr>banks := (banks t)[0 := (bank t 0)\<lparr>llen := 3\<rparr>], availBuffers := snd (tw_remove (availBuffers t)),
       currentBuffer := 1, writeOutBuffers := snd (tw_addIfRoom 0 (writeOutBuffers t))\<rparr>)"

lemma queued_facts:
  "tgt_inv [] (queued 4 TTY)" "device_ready (queued 4 TTY)" "items (writeOutBuffers (queued 4 TTY)) = [0]"
  "llen (current (queued 4 TTY)) = 0" "tstream (queued 4 TTY) = [0, 0, 0]"
  by code_simp+

lemma tkind_kept: "tkind (queued n k) = tkind (demo_tgt n k)" "tkind (flying n k) = tkind (demo_tgt n k)"
  by (simp_all add: queued_def flying_def Let_def)

lemma demo_tgt_kind: "tkind (demo_tgt n k) = k"
  using logTarget_new_inv [of demo_delim "\<lambda>_. 0" n 1 k]
  by (auto simp: demo_tgt_def demo_delim_def heapBuf_wf_def)

lemma flushAll_hands_over_witness:
  "\<exists>t'. flushAll_target 0 True False demo_ow (queued 4 TTY) = Inr (demo_ow, t') \<and> tgt_inv [] t' \<and>
     concat (written t') = [0, 0, 0]"
  using flushAll_hands_over [OF queued_facts(1,2), of 0 False demo_ow] queued_facts(4,5) by auto


lemma flying_facts:
  "0 < length (inflight (flying 4 TTY))" "owed (flying 4 TTY) = 1"
  "file_check None ((flying 4 TTY)\<lparr>inflight := take 0 (inflight (flying 4 TTY)) @
     drop (Suc 0) (inflight (flying 4 TTY))\<rparr>) =
     Inr ((flying 4 TTY)\<lparr>inflight := take 0 (inflight (flying 4 TTY)) @ drop (Suc 0) (inflight (flying 4 TTY))\<rparr>)"
  "inflight (flying 4 TTY) = [(0, False)]" "tstream (flying 4 TTY) = []"
proof -
  have k: "tkind (flying 4 TTY) = TTY" by (simp add: tkind_kept demo_tgt_kind)
  show "0 < length (inflight (flying 4 TTY))" "owed (flying 4 TTY) = 1"
    "inflight (flying 4 TTY) = [(0, False)]" "tstream (flying 4 TTY) = []" by code_simp+
  show "file_check None ((flying 4 TTY)\<lparr>inflight := take 0 (inflight (flying 4 TTY)) @
     drop (Suc 0) (inflight (flying 4 TTY))\<rparr>) =
     Inr ((flying 4 TTY)\<lparr>inflight := take 0 (inflight (flying 4 TTY)) @ drop (Suc 0) (inflight (flying 4 TTY))\<rparr>)"
    by (simp add: file_check_def k)
qed


section \<open>A logger with one message in hand\<close>

text \<open>
  Terminal targets at 0 (the default) and 1 (id 3), the filter list \<open>fl\<close> filed under tag 5
  and origin 1, and the message "AB" with its sifted meta in the buffer at 7. \<open>igs\<close> is the
  ignore list.
\<close>

definition demo_meta :: "u32 \<Rightarrow> logMeta" where
  "demo_meta ex = (default_meta 5 1)\<lparr>origin := 1, extras := ex\<rparr>"

definition demo_tables :: "FilterList \<Rightarrow> logger" where
  "demo_tables fl = (owner.extend demo_ow
     \<lparr>tgts = [0 \<mapsto> demo_tgt 140 TTY, 1 \<mapsto> demo_tgt 140 TTY], nextTgt = 2, targets = [(3, 1)],
      defaultTarget = Some 0, defaultFilter = Filter_empty, nextTargetId = 4, nextSinkId = 0,
      cmdHandlesClosed = False\<rparr>)
     \<lparr>filterHashTable := [filterhash 5 1 \<mapsto> 16], flists := [16 \<mapsto> fl], nextFilterId := 20\<rparr>"

definition demo_sifted :: "u32 \<Rightarrow> logMeta" where
  "demo_sifted ex =
     META_SET_LIST ((demo_meta ex)\<lparr>cached_hash := getHashes 5 1\<rparr>) 0 16"

definition demo_log :: "u32 \<Rightarrow> u32 list \<Rightarrow> singleLog" where
  "demo_log ex igs =
     (singleLog_new (\<lambda>_. 0) 2)\<lparr>smeta := \<lparr>emeta = demo_sifted ex, ignore_list = igs\<rparr>,
       buf := \<lparr>hbase = Some [65, 66], hlen = 2, used = 2, rcb = False\<rparr>\<rparr>"

definition demo_lg :: "FilterList \<Rightarrow> u32 \<Rightarrow> u32 list \<Rightarrow> logger" where
  "demo_lg fl ex igs = (demo_tables fl)\<lparr>logs := [7 \<mapsto> demo_log ex igs]\<rparr>"

text \<open>The list: the first \<open>n\<close> filters send every level to target 3.\<close>

definition demo_list :: "nat \<Rightarrow> FilterList" where
  "demo_list n = \<lparr>flist = map (\<lambda>i. Filter_new (of_nat (i + 1)) ALL_LEVELS 3) [0..<n] @
     replicate (MAX_IDENTICAL_FILTERS - n) Filter_empty, bloom = (if n = 0 then 0 else ALL_LEVELS), filterOut = False\<rparr>"

lemma demo_lg_simps [simp]:
  "logs (demo_lg fl ex igs) = [7 \<mapsto> demo_log ex igs]" "flists (demo_lg fl ex igs) = [16 \<mapsto> fl]"
  "filterHashTable (demo_lg fl ex igs) = [filterhash 5 1 \<mapsto> 16]" "nextFilterId (demo_lg fl ex igs) = 20"
  "targets (demo_lg fl ex igs) = [(3, 1)]" "defaultTarget (demo_lg fl ex igs) = Some 0"
  "defaultFilter (demo_lg fl ex igs) = Filter_empty" "levelFilterOutMask (demo_lg fl ex igs) = 0"
  "tgts (demo_lg fl ex igs) = [0 \<mapsto> demo_tgt 140 TTY, 1 \<mapsto> demo_tgt 140 TTY]"
  by (simp_all add: demo_lg_def demo_tables_def demo_ow_def owner_init_def owner.defs filters.defs no_filters_def)

lemma demo_log_simps [simp]:
  "emeta (smeta (demo_log ex igs)) = demo_sifted ex" "ignore_list (smeta (demo_log ex igs)) = igs"
  by (simp_all add: demo_log_def)

lemma demo_meta_fresh: "fresh_meta (demo_meta ex)"
  by (simp add: fresh_meta_def demo_meta_def default_meta_def META_HAS_CACHE_def wf_meta_def)

lemma demo_sift: "sift (demo_lg fl ex igs) (demo_meta ex) = (True, demo_sifted ex)"
  using sift_fresh [of "demo_meta ex" "demo_lg fl ex igs"] demo_meta_fresh [of ex]
  by (simp add: fresh_meta_def demo_meta_def default_meta_def chosen_def demo_sifted_def Let_def)

lemma demo_lists:
  "list_at (demo_lg (demo_list n) ex igs) 16 (demo_list n)" if "n = 1 \<or> n = 16"
  using that unfolding list_at_def demo_lg_simps
  by (elim disjE; intro conjI; simp) code_simp+

lemma demo_filters: "filters_inv (demo_lg (demo_list 1) ex igs)"
  using demo_lists [of 1 ex igs] by (auto simp: filters_inv_def split: if_splits)

lemma demo_few: "length (entry_filters (demo_lg (demo_list 1) ex igs) (tag (demo_meta ex)) (origin (demo_meta ex)))
    < MAX_IDENTICAL_FILTERS"
proof -
  have "length (FilterList_filters (demo_list 1)) < MAX_IDENTICAL_FILTERS" by code_simp
  then show ?thesis
    by (simp add: entry_filters_def chosen_def demo_meta_def default_meta_def)
qed

lemma demo_at_7: "logs (demo_lg fl ex igs) 7 = Some (demo_log ex igs)"
  by simp

lemma demo_sift_log:
  "sift (demo_lg fl ex igs) (demo_meta ex) = (True, emeta (smeta (demo_log ex igs)))"
  by (simp add: demo_sift)

lemma demo_entry: "entry_filters (demo_lg (demo_list 1) ex igs) (tag (demo_meta ex)) (origin (demo_meta ex)) =
    [Filter_new 1 ALL_LEVELS 3]"
  "entry_filters (demo_lg (demo_list 1) ex igs) 5 1 = [Filter_new 1 ALL_LEVELS 3]"
proof -
  have "FilterList_filters (demo_list 1) = [Filter_new 1 ALL_LEVELS 3]" by code_simp
  then show "entry_filters (demo_lg (demo_list 1) ex igs) 5 1 = [Filter_new 1 ALL_LEVELS 3]"
    by (simp add: entry_filters_def chosen_def)
  then show "entry_filters (demo_lg (demo_list 1) ex igs) (tag (demo_meta ex)) (origin (demo_meta ex)) =
    [Filter_new 1 ALL_LEVELS 3]" by (simp add: demo_meta_def default_meta_def)
qed

lemma demo_mask: "ALL_LEVELS AND level (demo_sifted ex) \<noteq> 0" "extras (demo_sifted ex) = ex"
  by (simp_all add: ALL_LEVELS_def demo_sifted_def META_SET_LIST_def demo_meta_def default_meta_def)

lemma demo_ignored:
  "ignores (smeta (demo_log 1 (3 # igs))) 3" "\<not> ignores (smeta (demo_log 0 igs)) 3"
proof -
  have "ignore_scan (Suc 9) (3 # igs) 3" by (simp only: ignore_scan.simps) simp
  then have "ignore_scan MAX_IGNORE_LIST (3 # igs) 3" by (simp add: MAX_IGNORE_LIST_def)
  then show "ignores (smeta (demo_log 1 (3 # igs))) 3" "\<not> ignores (smeta (demo_log 0 igs)) 3"
    by (simp_all add: ignores_def META_HAS_IGNORES_def demo_mask)
qed

lemma Filter_new_simps [simp]:
  "levelMask (Filter_new i l t) = l" "targetId (Filter_new i l t) = t" "\<not> fdisabled (Filter_new i l t)"
  by (simp_all add: Filter_new_def Filter_empty_def)

lemma demo_route:
  "route (demo_lg (demo_list 1) 0 igs) (smeta (demo_log 0 igs)) [Filter_new 1 ALL_LEVELS 3] =
     [(1, Filter_new 1 ALL_LEVELS 3)]"
  "route (demo_lg (demo_list 1) 1 (3 # igs)) (smeta (demo_log 1 (3 # igs))) [Filter_new 1 ALL_LEVELS 3] =
     [(0, Filter_empty)]"
  using demo_mask(1) demo_ignored
  by (simp_all add: route_def hits_def claims_def target_of_def find_target_def map_filter_simps)

lemma NEW_LOG_routes_witness:
  "handle_NEW_LOG (0, 0) 7 (demo_lg (demo_list 1) 0 []) =
     bindR (emit_write (0, 0) 7 (smeta (demo_log 0 [])) 1 (Filter_new 1 ALL_LEVELS 3) (demo_lg (demo_list 1) 0 []))
       (give_master 7)"
  using NEW_LOG_routes [OF demo_filters [of 0 "[]"] demo_at_7 demo_meta_fresh demo_sift_log demo_few,
      of "(0, 0)"]
  unfolding demo_entry demo_route emit_all_def by (simp add: bindR_def split: sum.splits)


lemma NEW_LOG_full_list_overruns_witness:
  "length (FilterList_filters (demo_list 16)) = MAX_IDENTICAL_FILTERS \<and>
   handle_NEW_LOG (0, 0) 7 (demo_lg (demo_list 16) 0 []) = Inl OutOfBounds"
proof -
  have full: "length (FilterList_filters (demo_list 16)) = MAX_IDENTICAL_FILTERS"
    and val: "FilterList_valid (demo_list 16) (level (demo_sifted 0))" by code_simp+
  have s: "sift (demo_lg (demo_list 16) 0 []) (demo_sifted 0) = (True, demo_sifted 0)"
    by (rule sift_again [OF _ demo_sift]) (use demo_meta_fresh in \<open>simp add: fresh_meta_def\<close>)
  have p: "META_GET_LIST (demo_sifted 0) 0 = 16"
    by (simp add: demo_sifted_def META_SET_LIST_def META_GET_LIST_def demo_meta_def default_meta_def)
  show ?thesis
    using NEW_LOG_full_list_overruns [OF demo_at_7 _ _ demo_lists full, of 0 "[]"] s p val full by simp
qed

text \<open>The buffers of a logger: two masters, the command queue with two places.\<close>

definition demo_masters :: owner where
  "demo_masters = demo_ow\<lparr>logs := [7 \<mapsto> singleLog_new (\<lambda>_. 0) 300, 8 \<mapsto> singleLog_new (\<lambda>_. 0) 300],
     masterBufferAvail := snd (tw_addIfRoom 8 (snd (tw_addIfRoom 7 (new_circular 2 0)))),
     internalCmdQueue := new_circular 2 (internalCmdReq_new INTERNALNOOP 0)\<rparr>"

lemma demo_queues:
  "circular_inv (snd (tw_addIfRoom (8::nat) (snd (tw_addIfRoom 7 (new_circular 2 0)))))"
  "items (snd (tw_addIfRoom (8::nat) (snd (tw_addIfRoom 7 (new_circular 2 0))))) = [7, 8]"
  "capacity (snd (tw_addIfRoom (8::nat) (snd (tw_addIfRoom 7 (new_circular 2 0))))) = 2"
  "circular_inv (new_circular 2 x)" "items (new_circular 2 x) = []" "capacity (new_circular 2 x) = 2"
  by (code_simp+)

lemma demo_masters_ok: "masters_ok demo_masters"
  by (simp add: masters_ok_def masters_def demo_masters_def demo_queues queued_logs_def map_filter_simps
      singleLog_new_def heapBuf_new_def demo_ow_def del: length_items)

lemma log_internal_queues_witness:
  "\<exists>st'. log_internal (demo_sifted 0) [] [65, 66] 2 demo_masters = Inr (GREASE_OK, st') \<and> masters_ok st' \<and>
     items (masterBufferAvail st') = [8] \<and> asyncInternalCommand \<in> pending st' \<and>
     (\<exists>l. logs st' 7 = Some l \<and> heapBuf_text (buf l) = [65, 66])"
  using log_internal_queues [OF demo_masters_ok, of 2 "[65, 66]" "demo_sifted 0" "[]"]
  by (auto simp: demo_masters_def demo_queues demo_ow_def holds_entry_def simp del: length_items)

lemma log_public_cases_witness:
  "log_public (default_meta 5 1) [] (replicate 70000 65) 70000 demo_masters = Inr (GREASE_OVERFLOW, demo_masters) \<and>
   (\<exists>st'. log_public (default_meta 5 1) [] [65, 66] 2 demo_masters = Inr (GREASE_OK, st') \<and> masters_ok st')"
proof
  show "log_public (default_meta 5 1) [] (replicate 70000 65) 70000 demo_masters = Inr (GREASE_OVERFLOW, demo_masters)"
    using log_public_cases [OF demo_masters_ok, of 70000 "replicate 70000 65" "default_meta 5 1" "[]"]
    by (simp add: GREASE_MAX_MESSAGE_SIZE_def)
  have "fst (sift demo_masters (default_meta 5 1)) = True" "(2 \<le> bufferSize demo_masters) = True"
    by (simp_all add: sift_fresh demo_masters_def demo_ow_def owner_init_def filters.defs no_filters_def Let_def
        split: option.split)
  note D = this
  have "(2 > GREASE_MAX_MESSAGE_SIZE) = False" by (simp add: GREASE_MAX_MESSAGE_SIZE_def)
  note L = log_public_cases [OF demo_masters_ok, of 2 "[65, 66]" "default_meta 5 1" "[]",
      unfolded this D simp_thms if_False]
  have "2 \<le> length [65, 66 :: u8]" by simp
  from L [OF this] show "\<exists>st'. log_public (default_meta 5 1) [] [65, 66] 2 demo_masters = Inr (GREASE_OK, st') \<and> masters_ok st'"
    by blast
qed

lemma demo_lg_owner [simp]:
  "header_buffer (demo_lg fl ex igs) = header_buffer demo_ow" "footer_buffer (demo_lg fl ex igs) = footer_buffer demo_ow"
  "internalCmdQueue (demo_lg fl ex igs) = internalCmdQueue demo_ow"
  "masterBufferAvail (demo_lg fl ex igs) = masterBufferAvail demo_ow" "nextLog (demo_lg fl ex igs) = 0"
  by (simp_all add: demo_ow_def owner_init_def filters.defs demo_lg_def demo_tables_def owner.defs)

lemma demo_lg_runs: "\<exists>st'. handle_NEW_LOG (0, 0) 7 (demo_lg (demo_list 1) 1 [3]) = Inr st'"
proof -
  define st where "st = demo_lg (demo_list 1) 1 [3]"
  have e: "logLabel_isEmpty (preFormat Filter_empty)" "logLabel_isEmpty (postFormatPreMsg Filter_empty)"
    "logLabel_isEmpty (postFormat Filter_empty)" by code_simp+
  then have hdr: "putsHeader (0, 0) (header_buffer st) GREASE_MAX_PREFIX_HEADER (demo_sifted 1) (Some Filter_empty) st
      (demo_tgt 140 TTY) = Inr (0, replicate GREASE_MAX_PREFIX_HEADER 0)"
    and ftr: "putsFooter (footer_buffer st) (size_t_sub GREASE_MAX_PREFIX_HEADER 0) (Some Filter_empty)
      (demo_tgt 140 TTY) = Inr (0, replicate GREASE_MAX_PREFIX_HEADER 0)"
    using size_t_sub_le [of 0 GREASE_MAX_PREFIX_HEADER]
    by (simp_all add: plain_header [OF demo_plain] demo_ow_def st_def GREASE_MAX_PREFIX_HEADER_def)
  have q: "circular_inv (internalCmdQueue st)" by (simp add: st_def demo_cmdq)
  obtain ow' t' where w: "write_target (0, 0) [65, 66] 2 (demo_sifted 1) (Some Filter_empty) st (demo_tgt 140 TTY) = Inr (ow', t')"
    using write_target_line [OF demo_tgt_inv demo_write(1,2) _ hdr ftr _ _ demo_write(6) q, of "[65, 66]"] by auto
  have fr: "owner_frame st ow'" using w by (rule write_target_frame)
  define st1 where "st1 = ow'\<lparr>tgts := (tgts ow')(0 \<mapsto> t')\<rparr>"
  have emit: "emit_write (0, 0) 7 (smeta (demo_log 1 [3])) 0 Filter_empty st = Inr st1"
    using w by (simp add: emit_write_def with_target_def deref_def st_def [symmetric] st1_def)
      (simp add: st_def demo_log_def log_mem_def deref_def demo_sifted_def)
  have "logs st1 7 = logs st 7" "masterBufferAvail st1 = masterBufferAvail st"
    using fr write_target_logs [OF w, of 7]
    by (simp_all add: st1_def owner_frame_def) (simp add: st_def)
  moreover have "\<exists>q. tw_add 7 (masterBufferAvail demo_ow) = Inr q"
    using tw_add_room [of "masterBufferAvail demo_ow" 7] by (auto simp: demo_ow_def queue_sizes)
  ultimately have "\<exists>st'. give_master 7 st1 = Inr st'"
    by (auto simp: give_master_def upd_log_def deref_def st_def)
  then show ?thesis
    using NEW_LOG_eq [OF demo_filters [of 1 "[3]"] demo_at_7 demo_meta_fresh demo_sift_log demo_few, of "(0, 0)"] emit
    unfolding demo_entry demo_route emit_all_def st_def by simp
qed

lemma NEW_LOG_spares_ignored_witness:
  "\<exists>st'. handle_NEW_LOG (0, 0) 7 (demo_lg (demo_list 1) 1 [3]) = Inr st' \<and> tgts st' 1 = Some (demo_tgt 140 TTY)"
proof -
  obtain st' where run: "handle_NEW_LOG (0, 0) 7 (demo_lg (demo_list 1) 1 [3]) = Inr st'"
    using demo_lg_runs by blast
  from NEW_LOG_spares_ignored [OF demo_filters [of 1 "[3]"] demo_at_7 demo_meta_fresh demo_sift_log demo_few,
      of 3 1, OF demo_ignored(1) _ _ _ run] run
  show ?thesis by (auto simp: find_target_def)
qed

end
