(* ===== verification/ErrCommon.thy ===== *)
theory ErrCommon
  imports Prelude
begin

text \<open>
  Error constants and error objects (error-common.cc, error-common.h, local_strdup.c).
  \<open>DefineConstants\<close> sets, for every errno name the system header has, a property name to
  code and one code to name. What \<open>errno.h\<close> defines is the parameter \<open>hdr\<close>, what
  \<open>strerror_r\<close> says is \<open>strerr\<close>. Texts are the characters before the NUL.
\<close>

section \<open>The exported constants\<close>

datatype const_val = ConstNum u32 | ConstStr string

type_synonym props = "string \<rightharpoonup> const_val"

type_synonym errno_h = "string \<rightharpoonup> nat"

definition digit :: "nat \<Rightarrow> char" where
  "digit d = char_of (48 + d)"

text \<open>\<open>xstr(constant)\<close>: the constant's value as the preprocessor writes it.\<close>

fun xstr :: "nat \<Rightarrow> string" where
  "xstr n = (if n < 10 then [digit n] else xstr (n div 10) @ [digit (n mod 10)])"

declare xstr.simps [simp del]

text \<open>\<open>ForceSet\<close> replaces the value of a property, a read-only one too.\<close>

definition define_constant_wrev :: "string \<Rightarrow> nat \<Rightarrow> props \<Rightarrow> props" where
  "define_constant_wrev n v t = t(n \<mapsto> ConstNum (word_of_nat v), xstr v \<mapsto> ConstStr n)"

text \<open>
  The source as a list: the name each \<open>#ifdef\<close> tests with the name that is then defined.
\<close>

definition guarded :: "string \<Rightarrow> string \<times> string" where
  "guarded n = (n, n)"

definition constants_1 :: "(string \<times> string) list" where
  "constants_1 =
     map guarded [''E2BIG'', ''EACCES'', ''EADDRINUSE'', ''EADDRNOTAVAIL'', ''EAFNOSUPPORT'',
            ''EAGAIN'', ''EALREADY'', ''EBADF'', ''EBADMSG'', ''EBUSY'', ''ECANCELED'', ''ECHILD'',
            ''ECONNABORTED'', ''ECONNREFUSED'', ''ECONNRESET'', ''EDEADLK'', ''EDESTADDRREQ'',
            ''EDOM'', ''EDQUOT'', ''EEXIST'', ''EFAULT'', ''EFBIG'', ''EHOSTUNREACH'', ''EIDRM'',
            ''EILSEQ'', ''EINPROGRESS'', ''EINTR'', ''EINVAL'', ''EIO'', ''EISCONN'', ''EISDIR'',
            ''ELOOP'', ''EMFILE'', ''EMLINK'', ''EMSGSIZE'', ''EMULTIHOP'', ''ENAMETOOLONG'']"

definition constants_2 :: "(string \<times> string) list" where
  "constants_2 =
     map guarded [''ENETDOWN'', ''ENETRESET'', ''ENETUNREACH'', ''ENFILE'', ''ENOBUFS'',
            ''ENODATA'', ''ENODEV'', ''ENOENT'', ''ENOEXEC'', ''ENOLCK'', ''ENOLINK'', ''ENOMEM'',
            ''ENOMSG'', ''ENOPROTOOPT'', ''ENOSPC'', ''ENOSR'', ''ENOSTR'', ''ENOSYS'',
            ''ENOTCONN'', ''ENOTDIR'', ''ENOTEMPTY'', ''ENOTSOCK'', ''ENOTSUP'', ''ENOTTY'',
            ''ENXIO'', ''EOPNOTSUPP'', ''EOVERFLOW'', ''EPERM'', ''EPIPE'', ''EPROTO'',
            ''EPROTONOSUPPORT'', ''EPROTOTYPE'', ''ERANGE'', ''EROFS'', ''ESPIPE'', ''ESRCH'',
            ''ESTALE'']"

definition constants_3 :: "(string \<times> string) list" where
  "constants_3 =
     map guarded [''ETIME'', ''ETIMEDOUT'', ''ETXTBSY'', ''EWOULDBLOCK'', ''EXDEV'', ''ENOBUFS'',
            ''ENODEV'', ''ENOTDIR'', ''EISDIR'', ''EINVAL'', ''ENFILE'', ''EMFILE'', ''ENOTTY'',
            ''ETXTBSY'', ''EFBIG'', ''ENOSPC'', ''ESPIPE'', ''EROFS'', ''EMLINK'', ''EPIPE'',
            ''EDOM'', ''ERANGE'', ''EDEADLK'', ''ENAMETOOLONG'', ''ENOLCK'', ''ENOSYS'',
            ''ENOTEMPTY'', ''ELOOP'', ''ENOMSG'', ''EIDRM'']"

definition constants_4 :: "(string \<times> string) list" where
  "constants_4 =
     map guarded [''ECHRNG''] @
     [(''EL2NSYNC'', ''ECHRNG'')] @
     map guarded [''EL3HLT'', ''EL3RST'', ''ELNRNG'', ''EUNATCH'', ''ENOCSI'', ''EL2HLT'',
            ''EBADE'', ''EBADR'', ''EXFULL'', ''ENOANO'', ''EBADRQC'', ''EBADSLT'', ''EDEADLOCK'',
            ''EBFONT'', ''ENOSTR'', ''ENODATA'', ''ETIME'', ''ENOSR'', ''ENONET'', ''ENOPKG'',
            ''EREMOTE'', ''ENOLINK'', ''EADV'', ''ESRMNT'', ''ECOMM'', ''EPROTO'', ''EMULTIHOP'']"

definition constants_5 :: "(string \<times> string) list" where
  "constants_5 =
     map guarded [''EDOTDOT'', ''EBADMSG'', ''EOVERFLOW'', ''ENOTUNIQ'', ''EBADFD'', ''EREMCHG'',
            ''ELIBACC'', ''ELIBBAD'', ''ELIBSCN'', ''ELIBMAX'', ''ELIBEXEC'', ''EILSEQ'',
            ''ERESTART'', ''ESTRPIPE'', ''EUSERS'', ''ENOTSOCK'', ''EDESTADDRREQ'', ''EMSGSIZE'',
            ''EPROTOTYPE'', ''ENOPROTOOPT'', ''EPROTONOSUPPORT'', ''ESOCKTNOSUPPORT'',
            ''EOPNOTSUPP'', ''EPFNOSUPPORT'', ''EAFNOSUPPORT'', ''EADDRINUSE'', ''EADDRNOTAVAIL'',
            ''ENETDOWN'', ''ENETUNREACH'', ''ENETRESET'']"

definition constants_6 :: "(string \<times> string) list" where
  "constants_6 =
     map guarded [''ECONNABORTED'', ''ECONNRESET'', ''EISCONN'', ''ENOTCONN'', ''ESHUTDOWN'',
            ''ETOOMANYREFS'', ''ETIMEDOUT'', ''ECONNREFUSED'', ''EHOSTDOWN'', ''EHOSTUNREACH'',
            ''EALREADY'', ''EINPROGRESS'', ''ESTALE'', ''EUCLEAN'', ''ENOTNAM'', ''ENAVAIL'',
            ''EISNAM'', ''EREMOTEIO'', ''EDQUOT'', ''ENOMEDIUM'', ''EMEDIUMTYPE'']"

definition err_constants :: "(string \<times> string) list" where
  "err_constants =
     constants_1 @ constants_2 @ constants_3 @ constants_4 @ constants_5 @ constants_6"

text \<open>A name used though the header lacks it does not compile: \<open>None\<close>.\<close>

fun define_all :: "errno_h \<Rightarrow> (string \<times> string) list \<Rightarrow> props \<Rightarrow> props option" where
  "define_all hdr [] t = Some t"
| "define_all hdr ((g, n) # cs) t =
     (case hdr g of
        None \<Rightarrow> define_all hdr cs t
      | Some _ \<Rightarrow>
          (case hdr n of
             None \<Rightarrow> None
           | Some v \<Rightarrow> define_all hdr cs (define_constant_wrev n v t)))"

definition DefineConstants :: "errno_h \<Rightarrow> props \<Rightarrow> props option" where
  "DefineConstants hdr target = define_all hdr err_constants target"

section \<open>Error texts\<close>

definition ERRCMN_CUSTOM_ERROR_CUTOFF :: int where "ERRCMN_CUSTOM_ERROR_CUTOFF = 4000"
definition GREASE_UNKNOWN_FAILURE :: int where "GREASE_UNKNOWN_FAILURE = 4001"
definition GREASE_UNKNOWN_TTY :: int where "GREASE_UNKNOWN_TTY = 4002"
definition GREASE_UNKNOWN_NO_PATH :: int where "GREASE_UNKNOWN_NO_PATH = 4003"
definition MAX_STRDUP :: nat where "MAX_STRDUP = 4096"
definition max_error_buf :: nat where "max_error_buf = 255"

record custom_errno =
  clabel :: string
  code :: int

definition custom_errs :: "custom_errno list" where
  "custom_errs =
     [\<lparr>clabel = ''Unknown TTY.'', code = GREASE_UNKNOWN_TTY\<rparr>,
      \<lparr>clabel = ''Unknown failure.'', code = GREASE_UNKNOWN_FAILURE\<rparr>,
      \<lparr>clabel = ''Call needs path.'', code = GREASE_UNKNOWN_NO_PATH\<rparr>]"

text \<open>A pointer and an \<open>int\<close>, padded to 16 bytes.\<close>

definition SIZEOF_CUSTOM_ERRNO :: nat where "SIZEOF_CUSTOM_ERRNO = 16"

text \<open>The loop counts down from \<open>sizeof(custom_errs)\<close>, a number of bytes.\<close>

fun custom_loop :: "nat \<Rightarrow> int \<Rightarrow> string option res" where
  "custom_loop 0 e = Inr None"
| "custom_loop (Suc n) e =
     (if n < length custom_errs
      then (if code (custom_errs ! n) = e then Inr (Some (clabel (custom_errs ! n))) else custom_loop n e)
      else Inl OutOfBounds)"

definition get_custom_err_str :: "int \<Rightarrow> string option res" where
  "get_custom_err_str e = custom_loop (length custom_errs * SIZEOF_CUSTOM_ERRNO) e"

text \<open>\<open>strerror_r\<close> keeps the NUL inside the buffer.\<close>

definition get_error_str :: "(int \<Rightarrow> string) \<Rightarrow> int \<Rightarrow> string" where
  "get_error_str strerr e = take (max_error_buf - 1) (strerr e)"

definition local_strdup_safe :: "string \<Rightarrow> string" where
  "local_strdup_safe s = (if length s > MAX_STRDUP then take MAX_STRDUP s else s)"

section \<open>err_ev\<close>

record err_ev =
  errstr :: "string option"
  errno :: int

definition err_ev_new :: err_ev where
  "err_ev_new = \<lparr>errstr = None, errno = 0\<rparr>"

definition setError :: "(int \<Rightarrow> string) \<Rightarrow> int \<Rightarrow> string option \<Rightarrow> err_ev \<Rightarrow> err_ev res" where
  "setError strerr e m ev =
     (let ev = ev\<lparr>errno := e\<rparr>
      in case m of
           None \<Rightarrow>
             (if e < ERRCMN_CUSTOM_ERROR_CUTOFF
              then Inr (ev\<lparr>errstr := Some (get_error_str strerr e)\<rparr>)
              else bindR (get_custom_err_str e) (\<lambda>custom.
                     case custom of
                       Some c \<Rightarrow> Inr (ev\<lparr>errstr := Some (local_strdup_safe c)\<rparr>)
                     | None \<Rightarrow> Inr (ev\<lparr>errstr := Some (local_strdup_safe ''Unknown Error.'')\<rparr>)))
         | Some m \<Rightarrow> Inr (ev\<lparr>errstr := Some (local_strdup_safe m)\<rparr>))"

definition err_ev_of :: "(int \<Rightarrow> string) \<Rightarrow> int \<Rightarrow> err_ev res" where
  "err_ev_of strerr e = setError strerr e None err_ev_new"

text \<open>Move assignment: the new value and the emptied source.\<close>

definition err_ev_move :: "err_ev \<Rightarrow> err_ev \<times> err_ev" where
  "err_ev_move ev = (ev, ev\<lparr>errstr := None, errno := 0\<rparr>)"

definition err_ev_clear :: "err_ev \<Rightarrow> err_ev" where
  "err_ev_clear ev = ev\<lparr>errstr := None, errno := 0\<rparr>"

definition hasErr :: "err_ev \<Rightarrow> bool" where
  "hasErr ev \<longleftrightarrow> errno ev \<noteq> 0"

section \<open>JavaScript error objects\<close>

text \<open>
  Undefined, an empty handle, a plain object and an \<open>Error\<close>, the last two with the properties
  that are set.
\<close>

datatype js_error = JsUndefined | JsEmpty | JsPlain "string option" "u32 option" | JsError string "u32 option"

definition with_prefix :: "string option \<Rightarrow> string \<Rightarrow> string" where
  "with_prefix prefix s = (case prefix of Some p \<Rightarrow> p @ s | None \<Rightarrow> s)"

definition errno_to_JS :: "(int \<Rightarrow> string) \<Rightarrow> int \<Rightarrow> string option \<Rightarrow> js_error" where
  "errno_to_JS strerr e prefix =
     (if e \<noteq> 0
      then JsPlain (if e < ERRCMN_CUSTOM_ERROR_CUTOFF then Some (with_prefix prefix (get_error_str strerr e)) else None)
             (Some (word_of_int e))
      else JsPlain None None)"

definition errno_to_JSError :: "(int \<Rightarrow> string) \<Rightarrow> int \<Rightarrow> string option \<Rightarrow> js_error res" where
  "errno_to_JSError strerr e prefix =
     (if e \<noteq> 0
      then bindR (if e < ERRCMN_CUSTOM_ERROR_CUTOFF then Inr (Some (get_error_str strerr e))
                  else get_custom_err_str e) (\<lambda>s.
             case s of
               Some s \<Rightarrow> Inr (JsError (with_prefix prefix s) (Some (word_of_int e)))
             | None \<Rightarrow> Inr (JsError ''Error'' (Some (word_of_int e))))
      else Inr JsEmpty)"

definition err_ev_to_JS :: "err_ev \<Rightarrow> string option \<Rightarrow> js_error" where
  "err_ev_to_JS ev prefix =
     (if hasErr ev
      then JsError (case (prefix, errstr ev) of (Some p, Some s) \<Rightarrow> p @ s | _ \<Rightarrow> ''Error'')
             (Some (word_of_int (errno ev)))
      else JsUndefined)"

section \<open>Names and codes\<close>

definition undigits :: "string \<Rightarrow> nat" where
  "undigits s = foldl (\<lambda>a c. 10 * a + (of_char c - 48)) 0 s"

lemma undigits_xstr: "undigits (xstr n) = n"
proof (induction n rule: xstr.induct)
  case (1 n)
  have d: "of_char (digit d) - 48 = d" if "d < 10" for d :: nat
    using that by (simp add: digit_def)
  show ?case
  proof (cases "n < 10")
    case True
    then show ?thesis by (simp add: xstr.simps [of n] undigits_def d)
  next
    case False
    with 1 have "undigits (xstr (n div 10)) = n div 10" by simp
    with False show ?thesis by (simp add: xstr.simps [of n] undigits_def d)
  qed
qed

lemma xstr_inj: "xstr m = xstr n \<longleftrightarrow> m = n"
  by (metis undigits_xstr)

text \<open>Every constant's name starts with an E, so no reverse key is a name.\<close>

lemma xstr_hd: "xstr n \<noteq> CHR ''E'' # s"
proof -
  have dig: "digit d \<noteq> CHR ''E''" if "d < 10" for d :: nat
  proof
    assume "digit d = CHR ''E''"
    then have "of_char (digit d) = (of_char CHR ''E'' :: nat)" by simp
    with that show False by (simp add: digit_def)
  qed
  have "xstr n \<noteq> [] \<and> hd (xstr n) \<noteq> CHR ''E''"
  proof (induction n rule: xstr.induct)
    case (1 n)
    then show ?case by (cases "n < 10") (simp_all add: xstr.simps [of n] dig hd_append)
  qed
  then show ?thesis by (cases "xstr n") auto
qed

text \<open>The names that get defined, in source order, and the one a code is named after: the last.\<close>

definition defined_names :: "errno_h \<Rightarrow> (string \<times> string) list \<Rightarrow> string list" where
  "defined_names hdr cs = map snd (filter (\<lambda>(g, n). hdr g \<noteq> None) cs)"

definition name_of_code :: "errno_h \<Rightarrow> (string \<times> string) list \<Rightarrow> nat \<Rightarrow> string option" where
  "name_of_code hdr cs v = find (\<lambda>n. hdr n = Some v) (rev (defined_names hdr cs))"

definition compiles :: "errno_h \<Rightarrow> (string \<times> string) list \<Rightarrow> bool" where
  "compiles hdr cs \<longleftrightarrow> (\<forall>(g, n) \<in> set cs. hdr g \<noteq> None \<longrightarrow> hdr n \<noteq> None)"

definition e_names :: "(string \<times> string) list \<Rightarrow> bool" where
  "e_names cs \<longleftrightarrow> (\<forall>(g, n) \<in> set cs. n \<noteq> [] \<and> hd n = CHR ''E'')"

lemma e_name_xstr: "n \<noteq> [] \<Longrightarrow> hd n = CHR ''E'' \<Longrightarrow> xstr v \<noteq> n"
  using xstr_hd [of v "tl n"] by (cases n) auto

lemma find_append: "find P (xs @ ys) = (case find P xs of None \<Rightarrow> find P ys | Some x \<Rightarrow> Some x)"
  by (induction xs) auto

lemma find_rev: "find P (rev xs) = (if filter P xs = [] then None else Some (last (filter P xs)))"
  by (induction xs rule: rev_induct) auto

lemma last_filter: "filter P xs \<noteq> [] \<Longrightarrow> P (last (filter P xs))"
  using last_in_set [of "filter P xs"] by simp

lemma define_all_spec:
  assumes "compiles hdr cs" "e_names cs"
  shows "\<exists>t'. define_all hdr cs t = Some t' \<and>
    (\<forall>n. n \<noteq> [] \<and> hd n = CHR ''E'' \<longrightarrow> t' n =
       (if n \<in> set (defined_names hdr cs) then map_option (ConstNum \<circ> word_of_nat) (hdr n) else t n)) \<and>
    (\<forall>v. t' (xstr v) =
       (case name_of_code hdr cs v of Some n \<Rightarrow> Some (ConstStr n) | None \<Rightarrow> t (xstr v)))"
  using assms
proof (induction cs arbitrary: t)
  case Nil
  then show ?case by (simp add: defined_names_def name_of_code_def)
next
  case (Cons c cs)
  obtain g n where c: "c = (g, n)" by (cases c)
  have cs: "compiles hdr cs" "e_names cs" and n: "n \<noteq> []" "hd n = CHR ''E''"
    using Cons.prems by (simp_all add: compiles_def e_names_def c)
  show ?case
  proof (cases "hdr g")
    case None
    then have "defined_names hdr (c # cs) = defined_names hdr cs" by (simp add: defined_names_def c)
    with Cons.IH [OF cs, of t] None show ?thesis by (simp add: c name_of_code_def)
  next
    case (Some w)
    then obtain v where v: "hdr n = Some v" using Cons.prems by (auto simp: compiles_def c)
    have dn: "defined_names hdr (c # cs) = n # defined_names hdr cs"
      using Some by (simp add: defined_names_def c)
    then have nc: "name_of_code hdr (c # cs) u =
        (case name_of_code hdr cs u of Some m \<Rightarrow> Some m | None \<Rightarrow> if u = v then Some n else None)" for u
      by (simp add: name_of_code_def find_append v split: option.split)
    obtain t' where t': "define_all hdr cs (define_constant_wrev n v t) = Some t'"
      and names: "\<And>m. m \<noteq> [] \<Longrightarrow> hd m = CHR ''E'' \<Longrightarrow> t' m = (if m \<in> set (defined_names hdr cs)
         then map_option (ConstNum \<circ> word_of_nat) (hdr m) else define_constant_wrev n v t m)"
      and codes: "\<And>u. t' (xstr u) = (case name_of_code hdr cs u of Some m \<Rightarrow> Some (ConstStr m)
         | None \<Rightarrow> define_constant_wrev n v t (xstr u))"
      using Cons.IH [OF cs, of "define_constant_wrev n v t"] by blast
    show ?thesis
    proof (intro exI conjI allI impI)
      show "define_all hdr (c # cs) t = Some t'" using Some v t' by (simp add: c)
      fix m :: string and u :: nat
      show "t' m = (if m \<in> set (defined_names hdr (c # cs))
          then map_option (ConstNum \<circ> word_of_nat) (hdr m) else t m)" if "m \<noteq> [] \<and> hd m = CHR ''E''"
        using that names [of m] v e_name_xstr [of m v] unfolding dn by (auto simp: define_constant_wrev_def)
      show "t' (xstr u) = (case name_of_code hdr (c # cs) u of Some m \<Rightarrow> Some (ConstStr m) | None \<Rightarrow> t (xstr u))"
        using codes [of u] e_name_xstr [OF n] unfolding nc
        by (auto simp: define_constant_wrev_def xstr_inj split: option.split)
    qed
  qed
qed

text \<open>What the header must have for the file to compile: ECHRNG wherever it has EL2NSYNC.\<close>

lemma err_constants_guards:
  "(g, n) \<in> set err_constants \<Longrightarrow> g = n \<or> g = ''EL2NSYNC'' \<and> n = ''ECHRNG''"
proof -
  have "\<forall>(g, n) \<in> set err_constants. g = n \<or> g = ''EL2NSYNC'' \<and> n = ''ECHRNG''" by code_simp
  from bspec [OF this, of "(g, n)"]
  show "(g, n) \<in> set err_constants \<Longrightarrow> g = n \<or> g = ''EL2NSYNC'' \<and> n = ''ECHRNG''" by simp
qed

lemma err_constants_names: "e_names err_constants"
  by code_simp

lemma err_constants_compile:
  assumes "hdr ''EL2NSYNC'' \<noteq> None \<longrightarrow> hdr ''ECHRNG'' \<noteq> None"
  shows "compiles hdr err_constants"
  unfolding compiles_def
proof (clarsimp)
  fix g n v
  assume "(g, n) \<in> set err_constants" "hdr g = Some v"
  then show "\<exists>w. hdr n = Some w" using assms err_constants_guards [of g n] by auto
qed


text \<open>The block guarded by EL2NSYNC defines ECHRNG a second time: whatever the header says,
  EL2NSYNC keeps the value the target object had, and so does its code when no other name has it.\<close>

theorem EL2NSYNC_not_exported:
  assumes hdr: "hdr ''EL2NSYNC'' = Some v" "hdr ''ECHRNG'' \<noteq> None"
    and own: "\<forall>n. hdr n = Some v \<longrightarrow> n = ''EL2NSYNC''"
  shows "\<exists>t'. DefineConstants hdr t = Some t' \<and> t' ''EL2NSYNC'' = t ''EL2NSYNC'' \<and>
    t' (xstr v) = t (xstr v)"
proof -
  obtain t' where t': "DefineConstants hdr t = Some t'"
    and names: "\<And>m. m \<noteq> [] \<Longrightarrow> hd m = CHR ''E'' \<Longrightarrow> t' m = (if m \<in> set (defined_names hdr err_constants)
         then map_option (ConstNum \<circ> word_of_nat) (hdr m) else t m)"
    and codes: "\<And>u. t' (xstr u) = (case name_of_code hdr err_constants u of Some m \<Rightarrow> Some (ConstStr m)
         | None \<Rightarrow> t (xstr u))"
    using define_all_spec [OF err_constants_compile err_constants_names, of hdr t] hdr
    unfolding DefineConstants_def by auto
  have "''EL2NSYNC'' \<notin> snd ` set err_constants" by code_simp
  then have no: "''EL2NSYNC'' \<notin> set (defined_names hdr err_constants)" by (auto simp: defined_names_def)
  then have "name_of_code hdr err_constants v = None"
    using own by (auto simp: name_of_code_def find_None_iff)
  with no t' names [of "''EL2NSYNC''"] codes [of v] show ?thesis by (intro exI [of _ t']) simp
qed

section \<open>Error objects\<close>

text \<open>Every lookup of a custom error text reads outside \<open>custom_errs\<close>: the loop takes the
  size in bytes for the number of entries. So \<open>setError\<close> of a code from 4000 on without a text, the
  constructor from such a code and \<open>errno_to_JSError\<close> of it never give an error object.\<close>

theorem custom_errors_overrun:
  assumes "ERRCMN_CUSTOM_ERROR_CUTOFF \<le> e"
  shows "get_custom_err_str e = Inl OutOfBounds \<and> setError strerr e None ev = Inl OutOfBounds \<and>
    err_ev_of strerr e = Inl OutOfBounds \<and> errno_to_JSError strerr e prefix = Inl OutOfBounds"
proof -
  have "length custom_errs * SIZEOF_CUSTOM_ERRNO = Suc 47" "\<not> 47 < length custom_errs"
    by (simp_all add: custom_errs_def SIZEOF_CUSTOM_ERRNO_def)
  then have g: "get_custom_err_str e = Inl OutOfBounds"
    unfolding get_custom_err_str_def by (simp only: custom_loop.simps if_False)
  then have s: "setError strerr e None ev = Inl OutOfBounds" for ev
    using assms by (simp add: setError_def)
  show ?thesis
    using assms g s by (simp add: err_ev_of_def errno_to_JSError_def ERRCMN_CUSTOM_ERROR_CUTOFF_def)
qed

text \<open>C34 An error set with a text of at most 4096 characters, or with a system code, reaches
  JavaScript as an \<open>Error\<close> with the prefix and the whole text (of a system code: its first 254
  characters) and the code as \<open>errno\<close>; a moved-from or cleared error gives undefined.\<close>

theorem setError_to_JS:
  assumes "e \<noteq> 0" "case m of Some s \<Rightarrow> length s \<le> MAX_STRDUP | None \<Rightarrow> e < ERRCMN_CUSTOM_ERROR_CUTOFF"
  shows "\<exists>ev'. setError strerr e m ev = Inr ev' \<and>
    err_ev_to_JS ev' (Some p) =
      JsError (p @ (case m of Some s \<Rightarrow> s | None \<Rightarrow> take 254 (strerr e))) (Some (word_of_int e)) \<and>
    err_ev_to_JS (fst (err_ev_move ev')) (Some p) = err_ev_to_JS ev' (Some p) \<and>
    err_ev_to_JS (snd (err_ev_move ev')) (Some p) = JsUndefined \<and>
    err_ev_to_JS (err_ev_clear ev') (Some p) = JsUndefined"
  using assms
  by (auto simp: setError_def err_ev_to_JS_def hasErr_def err_ev_move_def err_ev_clear_def
      local_strdup_safe_def get_error_str_def max_error_buf_def Let_def split: option.splits)

section \<open>Instances\<close>

text \<open>Three names of a Linux header, two of them for the same code, and one it lacks.\<close>

definition demo_hdr :: errno_h where
  "demo_hdr = [''EPERM'' \<mapsto> 1, ''EAGAIN'' \<mapsto> 11, ''EWOULDBLOCK'' \<mapsto> 11]"


lemma EL2NSYNC_not_exported_witness:
  "\<exists>t'. DefineConstants [''ECHRNG'' \<mapsto> 44, ''EL2NSYNC'' \<mapsto> 45] Map.empty = Some t' \<and>
     t' ''EL2NSYNC'' = None \<and> t' ''45'' = None"
proof -
  have "xstr 45 = ''45''" by code_simp
  then show ?thesis
    using EL2NSYNC_not_exported [of "[''ECHRNG'' \<mapsto> 44, ''EL2NSYNC'' \<mapsto> 45]" 45 Map.empty]
    by (auto split: if_splits)
qed

lemma custom_errors_overrun_witness:
  "errno_to_JSError (\<lambda>_. ''?'') GREASE_UNKNOWN_TTY None = Inl OutOfBounds"
  using custom_errors_overrun [of GREASE_UNKNOWN_TTY]
  by (simp add: ERRCMN_CUSTOM_ERROR_CUTOFF_def GREASE_UNKNOWN_TTY_def)

lemma setError_to_JS_witness:
  "\<exists>ev'. setError (\<lambda>_. ''Operation not permitted'') 1 None err_ev_new = Inr ev' \<and>
     err_ev_to_JS ev' (Some ''open: '') = JsError ''open: Operation not permitted'' (Some 1)"
  using setError_to_JS [of 1 None "\<lambda>_. ''Operation not permitted''" err_ev_new "''open: ''"]
  by (auto simp: ERRCMN_CUSTOM_ERROR_CUTOFF_def)

end
