(* ===== verification/Wire.thy ===== *)
theory Wire
  imports Buffers
begin

text \<open>
  What travels between a client and a sink (grease_client.h, grease_client.c): the header of
  a message, the ping and its answer, the raw form that \<open>_grease_logToRaw\<close> builds in a
  buffer, and the datagram \<open>grease_logToSink\<close> hands to \<open>sendmsg\<close>. Integers lie in memory
  little-endian.
\<close>

section \<open>The macros of the header\<close>

definition GREASE_TOTAL_MSG_SIZE :: "nat \<Rightarrow> nat" where
  "GREASE_TOTAL_MSG_SIZE len = len + GREASE_CLIENT_HEADER_SIZE"

definition GREASE_RAWBUF_MIN_SIZE :: nat where "GREASE_RAWBUF_MIN_SIZE = SIZEOF_LOGMETA"

text \<open>The length of \<open>sun_path\<close> in \<open>struct sockaddr_un\<close>.\<close>

definition SUN_PATH_SIZE :: nat where "SUN_PATH_SIZE = 108"

text \<open>\<open>memcmp\<close> of four bytes at an offset with a constant.\<close>

definition mem_is :: "u32 \<Rightarrow> nat \<Rightarrow> bytes \<Rightarrow> bool res" where
  "mem_is c off mem = bindR (peek off SIZEOF_SINK_LOG_PREAMBLE mem) (\<lambda>b. Inr (b = le_encode 4 c))"

definition IS_SINK_PREAMBLE :: "nat \<Rightarrow> bytes \<Rightarrow> bool res" where
  "IS_SINK_PREAMBLE = mem_is SINK_LOG_PREAMBLE"

definition IS_SINK_PING :: "nat \<Rightarrow> bytes \<Rightarrow> bool res" where
  "IS_SINK_PING = mem_is SINK_LOG_PING"

definition IS_SINK_PING_ACK :: "nat \<Rightarrow> bytes \<Rightarrow> bool res" where
  "IS_SINK_PING_ACK = mem_is SINK_LOG_PING_ACK"

definition GET_SIZE_FROM_PREAMBLE :: "nat \<Rightarrow> bytes \<Rightarrow> u32 res" where
  "GET_SIZE_FROM_PREAMBLE off mem = bindR (peek (off + 4) 4 mem) (\<lambda>b. Inr (le_decode b))"

definition SET_SIZE_IN_HEADER :: "bytes \<Rightarrow> u32 \<Rightarrow> bytes res" where
  "SET_SIZE_IN_HEADER mem d = poke 4 (le_encode 4 d) mem"

section \<open>The datagram of a message\<close>

text \<open>Header, meta and text, as the three buffers of the message lie one after the other.\<close>

definition frame_header :: "u32 \<Rightarrow> bytes" where
  "frame_header n = le_encode 4 SINK_LOG_PREAMBLE @ le_encode 4 n"

definition frame :: "logMeta \<Rightarrow> bytes \<Rightarrow> bytes" where
  "frame m s = frame_header (word_of_nat (length s + SIZEOF_LOGMETA)) @ meta_encode m @ s"

definition ping :: bytes where
  "ping = le_encode 4 SINK_LOG_PING"

lemma length_frame_header [simp]: "length (frame_header n) = GREASE_CLIENT_HEADER_SIZE"
  by (simp add: frame_header_def size_consts)

lemma length_frame: "wf_meta m \<Longrightarrow> length (frame m s) = GREASE_CLIENT_HEADER_SIZE + SIZEOF_LOGMETA + length s"
  by (simp add: frame_def)

lemma length_ping [simp]: "length ping = GREASE_CLIENT_PING_SIZE"
  by (simp add: ping_def size_consts)

lemma preamble_not_ping: "le_encode 4 SINK_LOG_PREAMBLE \<noteq> le_encode 4 SINK_LOG_PING"
  by code_simp

text \<open>Reading the header of a frame that lies at \<open>off\<close>.\<close>

lemma mem_is_at:
  assumes "length pre = off"
  shows "mem_is c off (pre @ le_encode 4 d @ rest) = Inr (le_encode 4 d = le_encode 4 c)"
  using assms by (simp add: mem_is_def peek_def size_consts)

lemma frame_header_read:
  assumes "length pre = off"
  shows "IS_SINK_PREAMBLE off (pre @ frame_header n @ rest) = Inr True"
    and "IS_SINK_PING off (pre @ frame_header n @ rest) = Inr False"
    and "GET_SIZE_FROM_PREAMBLE off (pre @ frame_header n @ rest) = Inr n"
  using assms preamble_not_ping mem_is_at [OF assms, of _ SINK_LOG_PREAMBLE "le_encode 4 n @ rest"]
  by (simp_all add: IS_SINK_PREAMBLE_def IS_SINK_PING_def GET_SIZE_FROM_PREAMBLE_def frame_header_def peek_def
      le_decode_encode)

section \<open>The raw form\<close>

text \<open>
  \<open>_grease_logToRaw\<close>: \<open>tobuf\<close> is the caller's block of memory, \<open>buflen\<close> the size it says
  it has. The result is the code, the block and the new \<open>*buflen\<close>. The default origin is
  stored \<open>w\<close> metas past the buffer's start, since the cast binds tighter than the sum.
\<close>

definition logToRaw ::
    "u32 \<Rightarrow> logMeta option \<Rightarrow> bytes option \<Rightarrow> nat \<Rightarrow> bytes option \<Rightarrow> nat \<Rightarrow>
       (grease_result \<times> bytes option \<times> nat) res" where
  "logToRaw origin0 f s len tobuf buflen =
     (case tobuf of
        None \<Rightarrow> Inr (GREASE_NO_BUFFER, None, buflen)
      | Some mem \<Rightarrow>
          if buflen < GREASE_RAWBUF_MIN_SIZE + len then Inr (GREASE_NO_BUFFER, Some mem, buflen)
          else bindR (poke 0 (le_encode 4 SINK_LOG_PREAMBLE) mem) (\<lambda>mem.
               let w = SIZEOF_SINK_LOG_PREAMBLE;
                   l = len + 4 + SIZEOF_SINK_LOG_PREAMBLE
               in bindR (poke w (le_encode 4 (word_of_nat l :: u32)) mem) (\<lambda>mem.
               let w = w + 4
               in bindR (poke w (meta_encode (case f of Some m \<Rightarrow> m | None \<Rightarrow> noMetaData)) mem) (\<lambda>mem.
                  bindR (poke (w * SIZEOF_LOGMETA + 8) (le_encode 4 origin0) mem) (\<lambda>mem.
               let w = w + SIZEOF_LOGMETA
               in bindR (case s of
                           Some s \<Rightarrow> (if len > 0 then bindR (peek 0 len s) (\<lambda>d. poke w d mem) else Inr mem)
                         | None \<Rightarrow> Inr mem) (\<lambda>mem.
                    Inr (GREASE_OK, Some mem, len)))))))"

text \<open>\<open>_grease_logToRaw\<close> with a buffer of the size it accepts as smallest writes outside it: the
  check leaves out the header, and the default origin is stored 648 bytes into the buffer.\<close>

theorem logToRaw_overruns:
  assumes "length mem = SIZEOF_LOGMETA + len" "SIZEOF_LOGMETA + len < 652" "wf_meta m"
  shows "logToRaw og (Some m) s len (Some mem) (length mem) = Inl OutOfBounds"
proof -
  have "\<exists>mem'. poke 0 (le_encode 4 SINK_LOG_PREAMBLE) mem = Inr mem' \<and> length mem' = length mem"
    using assms by (simp add: poke_def SIZEOF_LOGMETA_def)
  then obtain m1 where m1: "poke 0 (le_encode 4 SINK_LOG_PREAMBLE) mem = Inr m1" "length m1 = length mem" by blast
  obtain m2 where m2: "poke 4 (le_encode 4 (word_of_nat (len + 4 + 4) :: u32)) m1 = Inr m2" "length m2 = length mem"
    using assms m1(2) by (simp add: poke_def SIZEOF_LOGMETA_def)
  show ?thesis
  proof (cases "8 + SIZEOF_LOGMETA \<le> length mem")
    case True
    then obtain m3 where m3: "poke 8 (meta_encode m) m2 = Inr m3" "length m3 = length mem"
      using assms m2(2) by (auto simp: poke_def)
    then have "poke (8 * SIZEOF_LOGMETA + 8) (le_encode 4 og) m3 = Inl OutOfBounds"
      using assms by (simp add: poke_def SIZEOF_LOGMETA_def)
    with m1 m2 m3 assms show ?thesis
      by (simp add: logToRaw_def GREASE_RAWBUF_MIN_SIZE_def SIZEOF_SINK_LOG_PREAMBLE_def Let_def del: of_nat_add)
  next
    case False
    then have "poke 8 (meta_encode m) m2 = Inl OutOfBounds" using assms m2(2) by (simp add: poke_def)
    with m1 m2 assms show ?thesis
      by (simp add: logToRaw_def GREASE_RAWBUF_MIN_SIZE_def SIZEOF_SINK_LOG_PREAMBLE_def Let_def del: of_nat_add)
  qed
qed

lemma logToRaw_overruns_witness:
  "logToRaw 7 (Some meta_info) (Some [65, 66]) 2 (Some (replicate 82 0)) 82 = Inl OutOfBounds"
  using logToRaw_overruns [of "replicate 82 0" 2 meta_info 7 "Some [65, 66]"]
  by (simp add: SIZEOF_LOGMETA_def meta_info_def)

end
