(* ===== verification/Listener.thy ===== *)
theory Listener
  imports Wire Dispatch
begin

text \<open>
  The Unix datagram sink (\<open>UnixDgramSink\<close> in logger.h): binding its socket and the
  \<open>listener_work\<close> thread, which takes a datagram at a time apart into messages and passes
  each to \<open>logFromRaw\<close>. What the system calls return are arguments. The loop over one
  datagram gives the events it causes, in order: an answered ping, or a call of
  \<open>logFromRaw\<close> with the memory it points into.
\<close>

section \<open>Binding\<close>

definition PIPE_WAIT :: nat where "PIPE_WAIT = 1"
definition PIPE_WAKEUP :: nat where "PIPE_WAKEUP = 0"

record dgram_sink =
  spath :: "bytes option"
  sid :: u32
  stop_thread :: bool
  socket_fd :: int
  wakeup_pipe :: "int \<times> int"
  ready :: bool

definition dgram_sink_new :: "bytes option \<Rightarrow> u32 \<Rightarrow> dgram_sink" where
  "dgram_sink_new p i =
     \<lparr>spath = (case p of Some s \<Rightarrow> (if length s > 0 then Some s else None) | None \<Rightarrow> None), sid = i,
      stop_thread = False, socket_fd = 0, wakeup_pipe = (-1, -1), ready = False\<rparr>"

text \<open>What \<open>socket\<close> returns, the two ends \<open>pipe\<close> makes (or none), and whether \<open>bind\<close> succeeds.\<close>

definition sink_bind :: "int \<Rightarrow> (int \<times> int) option \<Rightarrow> bool \<Rightarrow> dgram_sink \<Rightarrow> (bool \<times> dgram_sink) res" where
  "sink_bind fd fds bound sk =
     (case spath sk of
        None \<Rightarrow> Inr (ready sk, sk)
      | Some p \<Rightarrow>
          let sk = sk\<lparr>socket_fd := fd\<rparr>
          in if fd < 0 then Inr (ready sk, sk)
             else (case fds of
                     None \<Rightarrow> Inr (ready sk, sk)
                   | Some w \<Rightarrow>
                       let sk = sk\<lparr>wakeup_pipe := w\<rparr>
                       in if SUN_PATH_SIZE < length p + 1 then Inl OutOfBounds
                          else let sk = (if bound then sk\<lparr>ready := True\<rparr> else sk)
                               in Inr (ready sk, sk)))"

section \<open>One datagram\<close>

definition nbuffers :: nat where "nbuffers = 10"

datatype lstate = NEED_PREAMBLE | IN_PREAMBLE | IN_LOG

record listener =
  lst :: lstate
  header_temp :: bytes
  header_temp_walk :: int
  temp_entry :: bytes        \<comment> \<open>\<open>temp_buffer_entry\<close>, a block of GREASE_MAX_MESSAGE_SIZE\<close>
  temp_walk :: int
  walk :: int
  walk_buf :: int
  remain :: int
  remain_in_buf :: int
  iov_n :: nat
  entry_size :: u32
  nfds :: int                \<comment> \<open>\<open>n\<close>, the first argument of \<open>select\<close>\<close>

datatype event = PingAck | RawEntry bytes nat

text \<open>\<open>SD_WALK(N)\<close> writes its argument four times, and each time it is read again.\<close>

definition sd_walk :: "(listener \<Rightarrow> int) \<Rightarrow> listener \<Rightarrow> listener" where
  "sd_walk N s =
     (let s = s\<lparr>walk := walk s + N s\<rparr>;
          s = s\<lparr>walk_buf := walk_buf s + N s\<rparr>;
          s = s\<lparr>remain := remain s - N s\<rparr>
      in s\<lparr>remain_in_buf := remain_in_buf s - N s\<rparr>)"

text \<open>With the unsigned \<open>entry_size\<close> the sums are unsigned and converted back.\<close>

definition to_u32 :: "int \<Rightarrow> u32" where
  "to_u32 i = word_of_int i"

definition sd_walk_entry :: "listener \<Rightarrow> listener" where
  "sd_walk_entry s =
     (let n = entry_size s
      in s\<lparr>walk := sint (to_u32 (walk s) + n), walk_buf := sint (to_u32 (walk_buf s) + n),
           remain := sint (to_u32 (remain s) - n), remain_in_buf := sint (to_u32 (remain_in_buf s) - n)\<rparr>)"

text \<open>\<open>memcpy\<close> of a signed count: a negative one is a huge size.\<close>

definition copy_n :: "int \<Rightarrow> bytes \<Rightarrow> nat \<Rightarrow> bytes \<Rightarrow> nat \<Rightarrow> bytes res" where
  "copy_n n src soff dst doff =
     (if n < 0 then Inl OutOfBounds
      else bindR (peek soff (nat n) src) (\<lambda>d. poke doff d dst))"

definition in_need_preamble :: "bytes \<Rightarrow> listener \<Rightarrow> (event list \<times> listener) res" where
  "in_need_preamble cur s =
     (let p = nat (walk_buf s)
      in if remain s \<ge> int GREASE_CLIENT_PING_SIZE
         then bindR (IS_SINK_PING p cur) (\<lambda>isping.
              if isping
              then Inr ([PingAck], sd_walk (\<lambda>_. int GREASE_CLIENT_HEADER_SIZE) s)
              else bindR (IS_SINK_PREAMBLE p cur) (\<lambda>ispre.
                   bindR (if ispre
                          then bindR (GET_SIZE_FROM_PREAMBLE p cur) (\<lambda>n. Inr (s\<lparr>lst := IN_LOG, entry_size := n\<rparr>))
                          else Inr (s\<lparr>lst := NEED_PREAMBLE\<rparr>)) (\<lambda>s.
                   Inr ([], sd_walk (\<lambda>_. int GREASE_CLIENT_HEADER_SIZE) s))))
         else bindR (copy_n (remain s) cur p (header_temp s) (nat (header_temp_walk s))) (\<lambda>h.
              let s = sd_walk remain (s\<lparr>header_temp := h\<rparr>)
              in Inr ([], s\<lparr>remain := 0, lst := IN_PREAMBLE\<rparr>)))"

definition in_in_preamble :: "bytes \<Rightarrow> listener \<Rightarrow> (event list \<times> listener) res" where
  "in_in_preamble cur s =
     (let nibble = int GREASE_CLIENT_HEADER_SIZE - header_temp_walk s;
          s = (if remain_in_buf s < nibble then s\<lparr>nfds := remain_in_buf s\<rparr> else s)
      in bindR (copy_n nibble cur (nat (walk_buf s)) (header_temp s) (nat (header_temp_walk s))) (\<lambda>h.
         let s = sd_walk (\<lambda>_. nibble) (s\<lparr>header_temp := h\<rparr>)
         in if header_temp_walk s \<ge> int GREASE_CLIENT_HEADER_SIZE
            then bindR (IS_SINK_PREAMBLE 0 h) (\<lambda>ispre.
                 if ispre
                 then bindR (GET_SIZE_FROM_PREAMBLE 0 h) (\<lambda>n.
                        Inr ([], s\<lparr>entry_size := n, header_temp_walk := 0, lst := IN_LOG\<rparr>))
                 else Inr ([], s\<lparr>lst := NEED_PREAMBLE\<rparr>))
            else Inr ([], s)))"

definition in_in_log :: "bytes \<Rightarrow> listener \<Rightarrow> (event list \<times> listener) res" where
  "in_in_log cur s =
     (let p = nat (walk_buf s)
      in if temp_walk s = 0
         then (if to_u32 (remain_in_buf s) \<ge> entry_size s
               then Inr ([RawEntry (drop p cur) (unat (entry_size s))], (sd_walk_entry s)\<lparr>lst := NEED_PREAMBLE\<rparr>)
               else bindR (copy_n (remain_in_buf s) cur p (temp_entry s) 0) (\<lambda>t.
                    Inr ([], sd_walk remain_in_buf (s\<lparr>temp_entry := t, temp_walk := remain_in_buf s\<rparr>))))
         else let need = sint (entry_size s - to_u32 (temp_walk s))
              in bindR (copy_n need cur p (temp_entry s) (nat (temp_walk s))) (\<lambda>t.
                 let s = s\<lparr>temp_entry := t\<rparr>
                 in if need \<le> remain_in_buf s
                    then Inr ([RawEntry t (unat (entry_size s))],
                              sd_walk (\<lambda>_. need) (s\<lparr>lst := NEED_PREAMBLE, temp_walk := 0\<rparr>))
                    else Inr ([], sd_walk (\<lambda>_. need) (s\<lparr>temp_walk := temp_walk s + need\<rparr>))))"

text \<open>
  One turn of the loop, \<open>None\<close> where it breaks off for lack of buffers. \<open>rbs\<close> is the size
  of a buffer, \<open>cnt\<close> what \<open>recvmsg\<close> returned.
\<close>

definition listen_turn ::
    "nat \<Rightarrow> int \<Rightarrow> bytes list \<Rightarrow> listener \<Rightarrow> (event list \<times> listener) option res" where
  "listen_turn rbs cnt bufs s =
     (let new = (walk_buf s \<ge> cnt);
          s = (if new then s\<lparr>walk_buf := 0, iov_n := iov_n s + 1\<rparr> else s)
      in if new \<and> iov_n s \<ge> nbuffers then Inr None
         else let s = (if new
                       then s\<lparr>remain_in_buf := (if remain s > int rbs then int rbs else remain s)\<rparr> else s);
                  cur = bufs ! iov_n s
              in bindR (case lst s of
                          NEED_PREAMBLE \<Rightarrow> in_need_preamble cur s
                        | IN_PREAMBLE \<Rightarrow> in_in_preamble cur s
                        | IN_LOG \<Rightarrow> in_in_log cur s) (\<lambda>r. Inr (Some r)))"

text \<open>The loop, with fuel; \<open>None\<close> when it runs out.\<close>

fun listen_loop ::
    "nat \<Rightarrow> nat \<Rightarrow> int \<Rightarrow> bytes list \<Rightarrow> listener \<Rightarrow> (event list \<times> listener) res option" where
  "listen_loop 0 rbs cnt bufs s = None"
| "listen_loop (Suc n) rbs cnt bufs s =
     (if walk s < cnt
      then (case listen_turn rbs cnt bufs s of
              Inl e \<Rightarrow> Some (Inl e)
            | Inr None \<Rightarrow> Some (Inr ([], s))
            | Inr (Some (ev, s')) \<Rightarrow>
                map_option (\<lambda>r. bindR r (\<lambda>(evs, t). Inr (ev @ evs, t))) (listen_loop n rbs cnt bufs s'))
      else Some (Inr ([], s)))"

text \<open>The ten buffers after \<open>recvmsg\<close>: cleared, then filled one after the other.\<close>

definition scatter :: "nat \<Rightarrow> bytes \<Rightarrow> bytes list" where
  "scatter rbs dg =
     map (\<lambda>i. let c = take rbs (drop (i * rbs) dg) in c @ replicate (rbs - length c) 0) [0..<nbuffers]"

definition recv_cnt :: "nat \<Rightarrow> bytes \<Rightarrow> int" where
  "recv_cnt rbs dg = int (min (length dg) (nbuffers * rbs))"

definition listener_start :: "nat \<Rightarrow> int \<Rightarrow> bytes \<Rightarrow> bytes \<Rightarrow> int \<Rightarrow> listener" where
  "listener_start rbs cnt hdr tmp n =
     \<lparr>lst = NEED_PREAMBLE, header_temp = hdr, header_temp_walk = 0, temp_entry = tmp, temp_walk = 0,
      walk = 0, walk_buf = 0, remain = cnt, remain_in_buf = (if cnt > int rbs then int rbs else cnt),
      iov_n = 0, entry_size = 0, nfds = n\<rparr>"

definition listen_datagram ::
    "nat \<Rightarrow> nat \<Rightarrow> bytes \<Rightarrow> bytes \<Rightarrow> int \<Rightarrow> bytes \<Rightarrow> (event list \<times> listener) res option" where
  "listen_datagram fuel rbs hdr tmp n dg =
     listen_loop fuel rbs (recv_cnt rbs dg) (scatter rbs dg) (listener_start rbs (recv_cnt rbs dg) hdr tmp n)"

section \<open>What a datagram means\<close>

text \<open>
  The specification, for a datagram that fits the first buffer with \<open>k\<close> zero bytes behind it:
  \<open>rest\<close> is what is left of it. A header is eight bytes; something that is not one is
  skipped in steps of eight; an entry that is cut off ends the datagram without an event.
\<close>

function datagram_events :: "nat \<Rightarrow> bytes \<Rightarrow> event list res" where
  "datagram_events k rest =
     (if length rest < GREASE_CLIENT_PING_SIZE then Inr []
      else if take 4 rest = le_encode 4 SINK_LOG_PING
      then bindR (datagram_events k (drop GREASE_CLIENT_HEADER_SIZE rest)) (\<lambda>es. Inr (PingAck # es))
      else if take 4 rest \<noteq> le_encode 4 SINK_LOG_PREAMBLE
      then datagram_events k (drop GREASE_CLIENT_HEADER_SIZE rest)
      else let n = unat (field32 (rest @ replicate k 0) 4);
               body = drop GREASE_CLIENT_HEADER_SIZE rest
           in if body = [] then Inr []
              else if n \<le> length body
              then bindR (datagram_events k (drop n body)) (\<lambda>es. Inr (RawEntry (body @ replicate k 0) n # es))
              else if length body \<le> GREASE_MAX_MESSAGE_SIZE then Inr [] else Inl OutOfBounds)"
  by pat_completeness auto
termination
  by (relation "measure (\<lambda>(k, rest). length rest)")
    (auto simp: GREASE_CLIENT_HEADER_SIZE_def GREASE_CLIENT_PING_SIZE_def SIZEOF_SINK_LOG_PREAMBLE_def)

declare datagram_events.simps [simp del]

definition at :: "bytes \<Rightarrow> nat \<Rightarrow> listener \<Rightarrow> bool" where
  "at dg w s \<longleftrightarrow> walk s = int w \<and> walk_buf s = int w \<and> remain s = int (length dg) - int w \<and>
     remain_in_buf s = int (length dg) - int w \<and> iov_n s = 0 \<and> temp_walk s = 0 \<and> header_temp_walk s = 0 \<and>
     length (header_temp s) = GREASE_CLIENT_HEADER_SIZE \<and> length (temp_entry s) = GREASE_MAX_MESSAGE_SIZE"

lemma at_sd_walk: "at dg w s \<Longrightarrow> at dg (w + n) (sd_walk (\<lambda>_. int n) s)"
  by (simp add: at_def sd_walk_def Let_def)

lemma at_upd [simp]: "at dg w (s\<lparr>lst := l\<rparr>) = at dg w s" "at dg w (s\<lparr>entry_size := n\<rparr>) = at dg w s"
  by (simp_all add: at_def)

lemma sd_walk_lst [simp]: "lst (sd_walk N s) = lst s" "entry_size (sd_walk N s) = entry_size s"
  "lst (sd_walk_entry s) = lst s"
  by (simp_all add: sd_walk_def sd_walk_entry_def Let_def)

lemma sint_u32: "- (2 ^ 31) \<le> i \<Longrightarrow> i < 2 ^ 31 \<Longrightarrow> sint (word_of_int i :: u32) = i"
  by (transfer, subst signed_take_bit_int_eq_self) simp_all

lemma to_u32_ops: "to_u32 i + n = word_of_int (i + uint n)" "to_u32 i - n = word_of_int (i - uint n)"
  by (simp_all add: to_u32_def)

lemma at_sd_walk_entry:
  assumes "at dg w s" "w + unat (entry_size s) \<le> length dg" "length dg < 2 ^ 31"
  shows "at dg (w + unat (entry_size s)) (sd_walk_entry s)"
proof -
  define n where "n = unat (entry_size s)"
  have u: "uint (entry_size s) = int n" by (simp add: n_def)
  have n: "w + n \<le> length dg" using assms(2) by (simp add: n_def)
  have "sint (word_of_int (int w + int n) :: u32) = int w + int n"
    by (rule sint_u32) (use n assms(3) in simp_all)
  moreover have "sint (word_of_int (int (length dg) - int w - int n) :: u32) = int (length dg) - int w - int n"
    by (rule sint_u32) (use n assms(3) in simp_all)
  ultimately show ?thesis
    using assms(1) unfolding at_def sd_walk_entry_def Let_def to_u32_ops u n_def [symmetric] by simp
qed

section \<open>The loop meets it\<close>

text \<open>The first buffer, and reading it at the walk position.\<close>

lemma scatter_first:
  assumes "length dg \<le> rbs" "0 < rbs"
  shows "scatter rbs dg ! 0 = dg @ replicate (rbs - length dg) 0" "recv_cnt rbs dg = int (length dg)"
  using assms by (simp_all add: scatter_def nbuffers_def recv_cnt_def Let_def)

lemma peek_at:
  "peek (w + j) n (dg @ zs) = peek j n (drop w dg @ zs)" if "w \<le> length dg"
  using that by (auto simp: peek_def add.commute)

lemma mem_is_drop:
  assumes "w \<le> length dg" "4 \<le> length (drop w dg)"
  shows "mem_is c w (dg @ zs) = Inr (take 4 (drop w dg) = le_encode 4 c)"
  using peek_at [OF assms(1), of 0 4 zs] assms(2)
  by (simp add: mem_is_def SIZEOF_SINK_LOG_PREAMBLE_def peek_def)

text \<open>One turn at a position inside the datagram, by what it finds there.\<close>

definition one_buffer :: "nat \<Rightarrow> bytes \<Rightarrow> bytes list \<Rightarrow> nat \<Rightarrow> bool" where
  "one_buffer rbs dg bufs k \<longleftrightarrow> length dg + GREASE_CLIENT_HEADER_SIZE \<le> rbs \<and> length dg < 2 ^ 31 \<and>
     bufs ! 0 = dg @ replicate k 0 \<and> k = rbs - length dg"

lemma one_bufferD:
  assumes "one_buffer rbs dg bufs k"
  shows "length dg + GREASE_CLIENT_HEADER_SIZE \<le> rbs" "length dg < 2 ^ 31" "bufs ! 0 = dg @ replicate k 0"
    "k = rbs - length dg"
  using assms by (simp_all add: one_buffer_def)

lemma turn_cur:
  assumes "at dg w s" "w < length dg"
  shows "listen_turn rbs (int (length dg)) bufs s =
    bindR (case lst s of NEED_PREAMBLE \<Rightarrow> in_need_preamble (bufs ! 0) s
           | IN_PREAMBLE \<Rightarrow> in_in_preamble (bufs ! 0) s
           | IN_LOG \<Rightarrow> in_in_log (bufs ! 0) s) (\<lambda>r. Inr (Some r))"
  using assms by (cases "lst s") (simp_all add: listen_turn_def at_def Let_def)

lemma at_room:
  assumes "at dg w s" "4 \<le> length (drop w dg)"
  shows "int GREASE_CLIENT_PING_SIZE \<le> remain s" "nat (walk_buf s) = w"
  using assms by (simp_all add: at_def GREASE_CLIENT_PING_SIZE_def)

lemma turn_ping:
  assumes one: "one_buffer rbs dg bufs k" and "at dg w s" "w < length dg" "lst s = NEED_PREAMBLE" "4 \<le> length (drop w dg)"
    "take 4 (drop w dg) = le_encode 4 SINK_LOG_PING"
  shows "listen_turn rbs (int (length dg)) bufs s =
    Inr (Some ([PingAck], sd_walk (\<lambda>_. int GREASE_CLIENT_HEADER_SIZE) s))"
  using assms mem_is_drop [of w dg SINK_LOG_PING "replicate k 0"]
    at_room [of dg w s] one_bufferD(3) [OF one]
  by (simp add: turn_cur in_need_preamble_def IS_SINK_PING_def Let_def)

lemma turn_skip:
  assumes one: "one_buffer rbs dg bufs k" and "at dg w s" "w < length dg" "lst s = NEED_PREAMBLE" "4 \<le> length (drop w dg)"
    "take 4 (drop w dg) \<noteq> le_encode 4 SINK_LOG_PING" "take 4 (drop w dg) \<noteq> le_encode 4 SINK_LOG_PREAMBLE"
  shows "listen_turn rbs (int (length dg)) bufs s =
    Inr (Some ([], sd_walk (\<lambda>_. int GREASE_CLIENT_HEADER_SIZE) s))"
proof -
  have e: "sd_walk N (s\<lparr>lst := NEED_PREAMBLE\<rparr>) = sd_walk N s" for N using assms(4) by (cases s) simp
  show ?thesis
    using assms mem_is_drop [of w dg _ "replicate k 0"] at_room [of dg w s] one_bufferD(3) [OF one]
    by (simp add: e turn_cur in_need_preamble_def IS_SINK_PING_def IS_SINK_PREAMBLE_def Let_def)
qed

lemma turn_preamble:
  assumes one: "one_buffer rbs dg bufs k" and "at dg w s" "w < length dg" "lst s = NEED_PREAMBLE" "4 \<le> length (drop w dg)"
    "take 4 (drop w dg) = le_encode 4 SINK_LOG_PREAMBLE"
  shows "listen_turn rbs (int (length dg)) bufs s =
    Inr (Some ([], sd_walk (\<lambda>_. int GREASE_CLIENT_HEADER_SIZE)
      (s\<lparr>lst := IN_LOG, entry_size := field32 (drop w dg @ replicate k 0) 4\<rparr>)))"
proof -
  have "peek (w + 4) 4 (dg @ replicate k 0) = Inr (take 4 (drop 4 (drop w dg @ replicate k 0)))"
    using peek_at [of w dg 4 4 "replicate k 0"] assms(3,5) one_bufferD [OF one] one_bufferD(4) [OF one]
    by (simp add: peek_def GREASE_CLIENT_HEADER_SIZE_def SIZEOF_SINK_LOG_PREAMBLE_def)
  then have "GET_SIZE_FROM_PREAMBLE w (dg @ replicate k 0) = Inr (field32 (drop w dg @ replicate k 0) 4)"
    by (simp add: GET_SIZE_FROM_PREAMBLE_def field32_def)
  then show ?thesis
    using assms mem_is_drop [of w dg _ "replicate k 0"] preamble_not_ping
      at_room [of dg w s] one_bufferD(3) [OF one]
    by (simp add: turn_cur in_need_preamble_def IS_SINK_PING_def IS_SINK_PREAMBLE_def Let_def)
qed

lemma turn_short:
  assumes one: "one_buffer rbs dg bufs k" and "at dg w s" "w < length dg" "lst s = NEED_PREAMBLE" "length (drop w dg) < 4"
  shows "\<exists>s'. listen_turn rbs (int (length dg)) bufs s = Inr (Some ([], s')) \<and> walk s' = int (length dg)"
proof -
  have r: "\<not> int GREASE_CLIENT_PING_SIZE \<le> remain s" "remain s = int (length (drop w dg))"
    using assms by (simp_all add: at_def GREASE_CLIENT_PING_SIZE_def)
  have "\<exists>h. copy_n (remain s) (bufs ! 0) w (header_temp s) 0 = Inr h"
    using assms one_bufferD [OF one] by (auto simp: copy_n_def at_def peek_def poke_def size_consts)
  then obtain h where "copy_n (remain s) (bufs ! 0) w (header_temp s) 0 = Inr h" by blast
  then show ?thesis
    using assms r by (simp add: turn_cur in_need_preamble_def at_def sd_walk_def Let_def)
qed

lemma to_u32_le: "i < 2 ^ 31 \<Longrightarrow> n \<le> to_u32 (int i) \<longleftrightarrow> unat n \<le> i"
  by (simp add: to_u32_def word_le_nat_alt unat_of_nat take_bit_nat_eq_self)

lemma turn_entry:
  assumes one: "one_buffer rbs dg bufs k" and "at dg w s" "w < length dg" "lst s = IN_LOG" "unat (entry_size s) \<le> length (drop w dg)"
  shows "listen_turn rbs (int (length dg)) bufs s =
    Inr (Some ([RawEntry (drop w dg @ replicate k 0) (unat (entry_size s))], (sd_walk_entry s)\<lparr>lst := NEED_PREAMBLE\<rparr>))"
proof -
  have "to_u32 (remain_in_buf s) \<ge> entry_size s"
    using assms one_bufferD(2) [OF one] to_u32_le [of "length (drop w dg)" "entry_size s"]
    by (simp add: at_def of_nat_diff)
  then show ?thesis using assms by (simp add: turn_cur in_in_log_def at_def one_bufferD(3) [OF one] Let_def)
qed

lemma turn_cut:
  assumes one: "one_buffer rbs dg bufs k" and "at dg w s" "w < length dg" "lst s = IN_LOG" "length (drop w dg) < unat (entry_size s)"
  shows "if length (drop w dg) \<le> GREASE_MAX_MESSAGE_SIZE
    then \<exists>s'. listen_turn rbs (int (length dg)) bufs s = Inr (Some ([], s')) \<and> walk s' = int (length dg)
    else listen_turn rbs (int (length dg)) bufs s = Inl OutOfBounds"
proof -
  have no: "\<not> to_u32 (remain_in_buf s) \<ge> entry_size s"
    using assms one_bufferD(2) [OF one] to_u32_le [of "length (drop w dg)" "entry_size s"]
    by (simp add: at_def of_nat_diff)
  have r: "remain_in_buf s = int (length (drop w dg))" "nat (walk_buf s) = w" "temp_walk s = 0"
    using assms by (simp_all add: at_def)
  have p: "peek w (length (drop w dg)) (bufs ! 0) = Inr (drop w dg)"
    using assms(3) one_bufferD(3) [OF one] by (simp add: peek_def)
  show ?thesis
  proof (cases "length (drop w dg) \<le> GREASE_MAX_MESSAGE_SIZE")
    case True
    then have "\<exists>t. poke 0 (drop w dg) (temp_entry s) = Inr t" using assms(2) by (simp add: poke_def at_def)
    then obtain t where "copy_n (remain_in_buf s) (bufs ! 0) w (temp_entry s) 0 = Inr t"
      using r p by (auto simp: copy_n_def)
    then show ?thesis
      using True assms no r by (simp add: turn_cur in_in_log_def sd_walk_def Let_def) (simp add: at_def)
  next
    case False
    then have "poke 0 (drop w dg) (temp_entry s) = Inl OutOfBounds" using assms(2) by (simp add: poke_def at_def)
    then have "copy_n (remain_in_buf s) (bufs ! 0) w (temp_entry s) 0 = Inl OutOfBounds"
      using r p by (simp add: copy_n_def)
    then show ?thesis using False assms no r by (simp add: turn_cur in_in_log_def Let_def)
  qed
qed

text \<open>The events of the loop, from a position on.\<close>

definition loop_events :: "nat \<Rightarrow> nat \<Rightarrow> bytes \<Rightarrow> bytes list \<Rightarrow> listener \<Rightarrow> event list res option" where
  "loop_events n rbs dg bufs s =
     map_option (\<lambda>r. bindR r (\<lambda>(es, _). Inr es)) (listen_loop n rbs (int (length dg)) bufs s)"

lemma loop_events_turn:
  assumes "walk s < int (length dg)"
  shows "listen_turn rbs (int (length dg)) bufs s = Inr (Some (ev, s')) \<Longrightarrow>
      loop_events (Suc n) rbs dg bufs s = map_option (\<lambda>r. bindR r (\<lambda>es. Inr (ev @ es))) (loop_events n rbs dg bufs s')"
    and "listen_turn rbs (int (length dg)) bufs s = Inl e \<Longrightarrow> loop_events (Suc n) rbs dg bufs s = Some (Inl e)"
  using assms by (simp_all add: loop_events_def option.map_comp comp_def bindR_def split: sum.split)
    (auto intro!: option.map_cong0 split: sum.splits)

lemma loop_events_end: "int (length dg) \<le> walk s \<Longrightarrow> loop_events (Suc n) rbs dg bufs s = Some (Inr [])"
  by (simp add: loop_events_def)

lemma datagram_events_drop:
  "datagram_events k (drop w dg) =
     (let rest = drop w dg
      in if length rest < 4 then Inr []
         else if take 4 rest = le_encode 4 SINK_LOG_PING
         then bindR (datagram_events k (drop (w + 8) dg)) (\<lambda>es. Inr (PingAck # es))
         else if take 4 rest \<noteq> le_encode 4 SINK_LOG_PREAMBLE then datagram_events k (drop (w + 8) dg)
         else let n = unat (field32 (rest @ replicate k 0) 4); body = drop (w + 8) dg
              in if body = [] then Inr []
                 else if n \<le> length body
                 then bindR (datagram_events k (drop (w + 8 + n) dg)) (\<lambda>es. Inr (RawEntry (body @ replicate k 0) n # es))
                 else if length body \<le> GREASE_MAX_MESSAGE_SIZE then Inr [] else Inl OutOfBounds)"
proof -
  have d: "drop 8 (drop w dg) = drop (w + 8) dg" "drop n (drop (w + 8) dg) = drop (w + 8 + n) dg" for n
    by (simp_all add: add.commute add.left_commute)
  have sz: "GREASE_CLIENT_PING_SIZE = 4" "GREASE_CLIENT_HEADER_SIZE = 8"
    by (simp_all add: size_consts)
  show ?thesis
    unfolding Let_def datagram_events.simps [of k "drop w dg"] sz d by (rule refl)
qed

text \<open>The entry behind a preamble: one turn, and the loop that follows it.\<close>

lemma loop_in_log:
  assumes one: "one_buffer rbs dg bufs k" and s: "at dg w s" "lst s = IN_LOG"
    and fuel: "w < length dg \<Longrightarrow> m \<noteq> 0"
    and rest: "\<And>s'. w < length dg \<Longrightarrow> at dg (w + unat (entry_size s)) s' \<Longrightarrow> lst s' = NEED_PREAMBLE \<Longrightarrow>
      loop_events m rbs dg bufs s' = Some (datagram_events k (drop (w + unat (entry_size s)) dg))"
  shows "loop_events (Suc m) rbs dg bufs s = Some
    (if drop w dg = [] then Inr []
     else if unat (entry_size s) \<le> length (drop w dg)
     then bindR (datagram_events k (drop (w + unat (entry_size s)) dg))
       (\<lambda>es. Inr (RawEntry (drop w dg @ replicate k 0) (unat (entry_size s)) # es))
     else if length (drop w dg) \<le> GREASE_MAX_MESSAGE_SIZE then Inr [] else Inl OutOfBounds)"
proof (cases "w < length dg")
  case False
  then show ?thesis using s(1) by (simp add: at_def loop_events_end)
next
  case True
  then obtain m' where m: "m = Suc m'" using fuel by (cases m) auto
  have lt: "walk s < int (length dg)" using s(1) True by (simp add: at_def)
  show ?thesis
  proof (cases "unat (entry_size s) \<le> length (drop w dg)")
    case False
    then show ?thesis using turn_cut [OF one s(1) True s(2)] True unfolding m
      by (auto simp: loop_events_turn [OF lt] loop_events_end split: if_splits)
  next
    case ok: True
    have "at dg (w + unat (entry_size s)) ((sd_walk_entry s)\<lparr>lst := NEED_PREAMBLE\<rparr>)"
      using at_sd_walk_entry [OF s(1)] ok True one_bufferD(2) [OF one] by simp
    then show ?thesis using rest [OF True] turn_entry [OF one s(1) True s(2) ok] ok True
      by (simp add: loop_events_turn [OF lt])
  qed
qed

lemma loop_meets_spec:
  assumes one: "one_buffer rbs dg bufs k" and "at dg w s" "lst s = NEED_PREAMBLE"
    and "2 * (length dg - w) + 2 \<le> fuel"
  shows "loop_events fuel rbs dg bufs s = Some (datagram_events k (drop w dg))"
  using assms(2-)
proof (induction "length dg - w" arbitrary: w s fuel rule: less_induct)
  case less
  note spec = datagram_events_drop [of k w dg, unfolded Let_def]
  obtain m where fuel: "fuel = Suc (Suc m)" using less.prems(3) by (cases fuel; cases "fuel - 1") auto
  have ws: "walk s = int w" using less.prems(1) by (simp add: at_def)
  have eight: "GREASE_CLIENT_HEADER_SIZE = 8" by (simp add: size_consts)
  show ?case
  proof (cases "w < length dg")
    case False
    then show ?thesis using ws loop_events_end [of dg s "Suc m"] by (simp add: fuel datagram_events.simps size_consts)
  next
    case inside: True
    then have lt: "walk s < int (length dg)" using ws by simp
    note turn = loop_events_turn [OF lt]
    have m2: "2 * (length dg - (w + 8)) + 2 \<le> Suc m" using less.prems(3) inside by (simp add: fuel)
    have next8: "loop_events (Suc m) rbs dg bufs (sd_walk (\<lambda>_. int 8) s) = Some (datagram_events k (drop (w + 8) dg))"
      using less.hyps [of "w + 8" "sd_walk (\<lambda>_. int 8) s" "Suc m"] inside less.prems(1,2) m2 at_sd_walk [of dg w s 8]
      by simp
    consider (short) "length (drop w dg) < 4"
      | (ping) "4 \<le> length (drop w dg)" "take 4 (drop w dg) = le_encode 4 SINK_LOG_PING"
      | (pre) "4 \<le> length (drop w dg)" "take 4 (drop w dg) = le_encode 4 SINK_LOG_PREAMBLE"
      | (skip) "4 \<le> length (drop w dg)" "take 4 (drop w dg) \<noteq> le_encode 4 SINK_LOG_PING"
        "take 4 (drop w dg) \<noteq> le_encode 4 SINK_LOG_PREAMBLE" by linarith
    then show ?thesis
    proof cases
      case short
      then obtain s' where "listen_turn rbs (int (length dg)) bufs s = Inr (Some ([], s'))" "walk s' = int (length dg)"
        using turn_short [OF one less.prems(1) inside less.prems(2)] by blast
      then show ?thesis using short by (simp add: fuel turn loop_events_end spec)
    next
      case ping
      from turn_ping [OF one less.prems(1) inside less.prems(2) ping] next8 ping
      show ?thesis by (simp add: fuel turn spec eight)
    next
      case skip
      from turn_skip [OF one less.prems(1) inside less.prems(2) skip] next8 skip
      show ?thesis by (simp add: fuel turn spec eight option.map_ident)
    next
      case pre
      define n where "n = field32 (drop w dg @ replicate k 0) 4"
      define s1 where "s1 = sd_walk (\<lambda>_. int 8) (s\<lparr>lst := IN_LOG, entry_size := n\<rparr>)"
      have at1: "at dg (w + 8) s1" "lst s1 = IN_LOG" "entry_size s1 = n"
        using at_sd_walk [of dg w "s\<lparr>lst := IN_LOG, entry_size := n\<rparr>" 8] less.prems(1) by (simp_all add: s1_def)
      have go: "loop_events fuel rbs dg bufs s = loop_events (Suc m) rbs dg bufs s1"
        using turn_preamble [OF one less.prems(1) inside less.prems(2) pre]
        by (simp add: fuel turn eight s1_def n_def option.map_ident)
      have "loop_events m rbs dg bufs s' = Some (datagram_events k (drop (w + 8 + unat n) dg))"
        if "w + 8 < length dg" "at dg (w + 8 + unat n) s'" "lst s' = NEED_PREAMBLE" for s'
        using less.hyps [of "w + 8 + unat n" s' m] inside less.prems(3) that by (simp add: fuel)
      moreover have "m \<noteq> 0" if "w + 8 < length dg" using less.prems(3) that by (auto simp: fuel)
      ultimately show ?thesis
        using loop_in_log [OF one at1(1,2), of m] pre preamble_not_ping
        unfolding go spec n_def [symmetric] at1(3) by simp
    qed
  qed
qed

lemma listen_datagram_events:
  assumes "length dg + GREASE_CLIENT_HEADER_SIZE \<le> rbs" "length dg < 2 ^ 31"
    and "length hdr = GREASE_CLIENT_HEADER_SIZE" "length tmp = GREASE_MAX_MESSAGE_SIZE"
    and "2 * length dg + 2 \<le> fuel"
  shows "map_option (\<lambda>r. bindR r (\<lambda>(es, _). Inr es)) (listen_datagram fuel rbs hdr tmp n dg) =
    Some (datagram_events (rbs - length dg) dg)"
proof -
  have rbs: "length dg \<le> rbs" "0 < rbs" using assms(1) by (simp_all add: size_consts)
  have "one_buffer rbs dg (scatter rbs dg) (rbs - length dg)"
    using assms(1,2) scatter_first(1) [OF rbs] by (simp add: one_buffer_def)
  moreover have "at dg 0 (listener_start rbs (int (length dg)) hdr tmp n)"
    using assms(3,4) rbs by (simp add: at_def listener_start_def)
  ultimately show ?thesis
    using loop_meets_spec [of rbs dg "scatter rbs dg" "rbs - length dg" 0
        "listener_start rbs (int (length dg)) hdr tmp n" fuel] assms(5) scatter_first(2) [OF rbs]
    by (simp add: loop_events_def listen_datagram_def) (simp add: listener_start_def)
qed

text \<open>C9 For every datagram that leaves room for a header in a receive buffer the listener's loop
  ends, within two turns for each byte, and does exactly what the specification of a datagram says:
  the pings answered and the entries passed on, in order, or the overflow of its side buffer.\<close>

theorem listener_refines:
  assumes "length dg + GREASE_CLIENT_HEADER_SIZE \<le> rbs" "length dg < 2 ^ 31"
    and "length hdr = GREASE_CLIENT_HEADER_SIZE" "length tmp = GREASE_MAX_MESSAGE_SIZE"
    and "2 * length dg + 2 \<le> fuel"
  shows "map_option (\<lambda>r. bindR r (\<lambda>(es, _). Inr es)) (listen_datagram fuel rbs hdr tmp n dg) =
    Some (datagram_events (rbs - length dg) dg)"
  by (rule listen_datagram_events [OF assms])

section \<open>Messages on the wire arrive\<close>

definition raw_entry :: "event \<Rightarrow> bytes option" where
  "raw_entry ev = (case ev of PingAck \<Rightarrow> None | RawEntry mem n \<Rightarrow> Some (take n mem))"

lemma raw_entry_simps [simp]: "raw_entry PingAck = None" "raw_entry (RawEntry mem n) = Some (take n mem)"
  by (simp_all add: raw_entry_def)

lemma frame_events:
  assumes "wf_meta m" "length s + SIZEOF_LOGMETA < 2 ^ 32"
  shows "datagram_events k (frame m s @ rest) =
    bindR (datagram_events k rest) (\<lambda>es. Inr (RawEntry (meta_encode m @ s @ rest @ replicate k 0)
      (length s + SIZEOF_LOGMETA) # es))"
proof -
  define n where "n = length s + SIZEOF_LOGMETA"
  have "n < 2 ^ 32" using assms(2) by (simp add: n_def)
  then have u: "unat (word_of_nat n :: u32) = n" by (simp add: unat_of_nat take_bit_nat_eq_self)
  have h: "take 4 (frame m s @ rest) = le_encode 4 SINK_LOG_PREAMBLE" "\<not> length (frame m s @ rest) < 4"
    by (simp_all add: frame_def frame_header_def)
  have f: "field32 ((frame m s @ rest) @ replicate k 0) 4 = word_of_nat n"
    unfolding frame_def frame_header_def n_def
    by (simp add: field32_def le_decode_encode del: of_nat_add)
  have b: "drop 8 (frame m s @ rest) = (meta_encode m @ s) @ rest" "length (meta_encode m @ s) = n" "0 < n"
    using assms(1) by (simp_all add: frame_def frame_header_def n_def SIZEOF_LOGMETA_def)
  have sz: "GREASE_CLIENT_PING_SIZE = 4" "GREASE_CLIENT_HEADER_SIZE = 8" by (simp_all add: size_consts)
  have ne: "meta_encode m \<noteq> []" using meta_encode_length [OF assms(1)] by (auto simp: SIZEOF_LOGMETA_def)
  show ?thesis
    unfolding datagram_events.simps [of k "frame m s @ rest"] sz h b(1) f u Let_def
    using b(2) ne preamble_not_ping h(2) by (simp add: n_def [symmetric])
qed

lemma frames_events:
  assumes "\<forall>(m, s) \<in> set ms. wf_meta m" "length (concat (map (\<lambda>(m, s). frame m s) ms)) < 2 ^ 31"
  shows "\<exists>es. datagram_events k (concat (map (\<lambda>(m, s). frame m s) ms)) = Inr es \<and>
    map raw_entry es = map (\<lambda>(m, s). Some (meta_encode m @ s)) ms"
  using assms
proof (induction ms)
  case Nil
  then show ?case by (simp add: datagram_events.simps size_consts)
next
  case (Cons x ms)
  obtain m s where x: "x = (m, s)" by (cases x)
  have wf: "wf_meta m" and len: "length (frame m s) < 2 ^ 31" using Cons.prems by (simp_all add: x)
  have "length s + SIZEOF_LOGMETA < 2 ^ 32" using len length_frame [OF wf, of s] by simp
  moreover obtain es where "datagram_events k (concat (map (\<lambda>(m, s). frame m s) ms)) = Inr es"
    "map raw_entry es = map (\<lambda>(m, s). Some (meta_encode m @ s)) ms"
    using Cons.IH Cons.prems by auto
  ultimately show ?case using wf by (simp add: x frame_events)
qed

text \<open>C29 A datagram made of any number of messages, each as \<open>grease_logToSink\<close> sends it, is taken
  apart into exactly these messages: \<open>logFromRaw\<close> gets each one's meta and text once, in order.\<close>

theorem frames_arrive:
  assumes dg: "dg = concat (map (\<lambda>(m, s). frame m s) ms)"
    and "\<forall>(m, s) \<in> set ms. wf_meta m"
    and "length dg + GREASE_CLIENT_HEADER_SIZE \<le> rbs" "length dg < 2 ^ 31"
    and "length hdr = GREASE_CLIENT_HEADER_SIZE" "length tmp = GREASE_MAX_MESSAGE_SIZE"
    and "2 * length dg + 2 \<le> fuel"
  shows "\<exists>es t. listen_datagram fuel rbs hdr tmp n dg = Some (Inr (es, t)) \<and>
    map raw_entry es = map (\<lambda>(m, s). Some (meta_encode m @ s)) ms"
proof -
  obtain es where es: "datagram_events (rbs - length dg) dg = Inr es"
    "map raw_entry es = map (\<lambda>(m, s). Some (meta_encode m @ s)) ms"
    using frames_events [OF assms(2), of "rbs - length dg"] assms(4) by (auto simp: dg)
  show ?thesis
    using listen_datagram_events [OF assms(3-7), of n] es
    by (auto simp: bindR_eq_Inr)
qed

text \<open>C35 A message cut off by the end of its datagram is copied into a side buffer of 65535 bytes:
  a longer rest, which a datagram can hold, is written past its end.\<close>

theorem cut_message_overflows:
  assumes "GREASE_MAX_MESSAGE_SIZE < length body" "length body < unat n"
    and "length body + 16 \<le> rbs" "rbs < 2 ^ 31" "length hdr = GREASE_CLIENT_HEADER_SIZE"
    and "length tmp = GREASE_MAX_MESSAGE_SIZE" "2 * length body + 18 \<le> fuel"
  shows "listen_datagram fuel rbs hdr tmp nf (frame_header n @ body) = Some (Inl OutOfBounds)"
proof -
  have sz: "GREASE_CLIENT_PING_SIZE = 4" "GREASE_CLIENT_HEADER_SIZE = 8" by (simp_all add: size_consts)
  have h: "take 4 (frame_header n @ body) = le_encode 4 SINK_LOG_PREAMBLE" "\<not> length (frame_header n @ body) < 4"
    "drop 8 (frame_header n @ body) = body"
    "field32 ((frame_header n @ body) @ replicate k 0) 4 = n" for k
    by (simp_all add: frame_header_def field32_def le_decode_encode)
  have "datagram_events k (frame_header n @ body) = Inl OutOfBounds" for k
    unfolding datagram_events.simps [of k "frame_header n @ body"] sz h Let_def
    using h(2) assms(1,2) preamble_not_ping by auto
  then show ?thesis
    using listen_datagram_events [of "frame_header n @ body" rbs hdr tmp fuel nf] assms(3-)
    by (auto simp: size_consts bindR_eq_Inl)
qed

end
