(* ===== verification/Sink.thy ===== *)
theory Sink
  imports Listener Examples
begin

text \<open>
  The listener thread around the datagram loop, and the way of a message from the wire into
  the logger's queue. \<open>select\<close> clears the descriptors that are not ready from the set it is
  given, and the set is made only once, before the loop.
\<close>

section \<open>Rounds of the thread\<close>

definition listen_nfds :: "dgram_sink \<Rightarrow> int" where
  "listen_nfds sk =
     (let n = socket_fd sk + 1; w = snd (wakeup_pipe sk) in if w > n then w + 1 else n)"

record lthread =
  rd_wait :: bool            \<comment> \<open>the wake-up pipe is in \<open>readfds\<close>\<close>
  rd_sock :: bool            \<comment> \<open>the socket is\<close>
  lnfds :: int
  lerr_cnt :: int
  ltemp :: bytes             \<comment> \<open>\<open>temp_buffer_entry\<close>\<close>

definition lthread_start :: "dgram_sink \<Rightarrow> bytes \<Rightarrow> lthread" where
  "lthread_start sk tmp =
     \<lparr>rd_wait = True, rd_sock = True, lnfds = listen_nfds sk, lerr_cnt = 0, ltemp = tmp\<rparr>"

definition EAGAIN :: int where "EAGAIN = 11"

text \<open>
  One round: \<open>act\<close> is what has become readable (\<open>None\<close> when \<open>select\<close> fails), \<open>msg\<close> what
  \<open>recvmsg\<close> gives, an error number or a datagram. \<open>hdr\<close> is what the stack holds.
\<close>

definition listen_round ::
    "nat \<Rightarrow> nat \<Rightarrow> dgram_sink \<Rightarrow> (bool \<times> bool) option \<Rightarrow> int + bytes \<Rightarrow> bytes \<Rightarrow> lthread \<Rightarrow>
       (event list \<times> lthread) res option" where
  "listen_round fuel rbs sk act msg hdr th =
     (case act of
        None \<Rightarrow> Some (Inr ([], th))
      | Some (aw, as) \<Rightarrow>
          let w = (aw \<and> rd_wait th \<and> snd (wakeup_pipe sk) < lnfds th);
              s = (as \<and> rd_sock th \<and> socket_fd sk < lnfds th)
          in if \<not> w \<and> \<not> s then Some (Inl WouldBlock)
             else let th = th\<lparr>rd_wait := w, rd_sock := s\<rparr>
                  in if s
                     then (case msg of
                             Inl errno \<Rightarrow>
                               Some (Inr ([], if errno \<noteq> EAGAIN then th\<lparr>lerr_cnt := lerr_cnt th + 1\<rparr> else th))
                           | Inr dg \<Rightarrow>
                               map_option (\<lambda>r. bindR r (\<lambda>(es, l).
                                   Inr (es, th\<lparr>ltemp := temp_entry l, lnfds := nfds l\<rparr>)))
                                 (listen_datagram fuel rbs hdr (ltemp th) (lnfds th) dg))
                     else Some (Inr ([], th)))"

text \<open>\<open>stop\<close> asks the thread to end; its wake-up writes to the reading end of the pipe.\<close>

definition sink_stop :: "dgram_sink \<Rightarrow> dgram_sink" where
  "sink_stop sk = sk\<lparr>stop_thread := True\<rparr>"

text \<open>The thread: rounds while the sink is ready and not stopped; an input for each round.\<close>

type_synonym round_input = "(bool \<times> bool) option \<times> (int + bytes) \<times> bytes \<times> dgram_sink"

fun listener_work ::
    "nat \<Rightarrow> nat \<Rightarrow> round_input list \<Rightarrow> lthread \<Rightarrow> (event list \<times> lthread) res option" where
  "listener_work fuel rbs [] th = Some (Inr ([], th))"
| "listener_work fuel rbs ((act, msg, hdr, sk) # ins) th =
     (if ready sk \<and> \<not> stop_thread sk
      then (case listen_round fuel rbs sk act msg hdr th of
              None \<Rightarrow> None
            | Some (Inl e) \<Rightarrow> Some (Inl e)
            | Some (Inr (es, th)) \<Rightarrow>
                map_option (\<lambda>r. bindR r (\<lambda>(es', th). Inr (es @ es', th))) (listener_work fuel rbs ins th))
      else Some (Inr ([], th)))"

lemma round_drops_wait:
  "listen_round fuel rbs sk act msg hdr th = Some (Inr (es, th')) \<Longrightarrow> \<not> rd_wait th \<Longrightarrow> \<not> rd_wait th'"
  by (auto simp: listen_round_def Let_def bindR_eq_Inr split: option.splits prod.splits if_splits sum.splits)

lemma round_sock_only:
  "listen_round fuel rbs sk (Some (False, True)) msg hdr th = Some (Inr (es, th')) \<Longrightarrow> \<not> rd_wait th'"
  by (auto simp: listen_round_def Let_def bindR_eq_Inr split: if_splits sum.splits)

text \<open>C36 After a round in which only the socket was readable the thread does not watch its wake-up
  pipe any more: whatever rounds follow, a round in which only the pipe is readable blocks, so a
  \<open>stop()\<close> is not noticed before the next datagram.\<close>

theorem wakeup_is_lost:
  assumes "listen_round fuel rbs sk (Some (False, True)) msg hdr th = Some (Inr (es, th1))"
    and "listener_work fuel rbs ins th1 = Some (Inr (es', th2))"
  shows "listen_round fuel rbs (sink_stop sk') (Some (True, False)) msg' hdr' th2 = Some (Inl WouldBlock)"
proof -
  have "\<not> rd_wait th2" if "listener_work fuel rbs ins th1 = Some (Inr (es', th2))" "\<not> rd_wait th1"
    for ins th1 es' th2
    using that
  proof (induction ins arbitrary: th1 es')
    case Nil
    then show ?case by simp
  next
    case (Cons x ins)
    obtain act msg hdr sk where x: "x = (act, msg, hdr, sk)" by (cases x) auto
    show ?case
    proof (cases "ready sk \<and> \<not> stop_thread sk")
      case False
      then have "th2 = th1" using Cons.prems(1) by (auto simp: x split: if_splits)
      then show ?thesis using Cons.prems(2) by simp
    next
      case True
      then obtain es1 th es2 where r: "listen_round fuel rbs sk act msg hdr th1 = Some (Inr (es1, th))"
        and rest: "listener_work fuel rbs ins th = Some (Inr (es2, th2))"
        using Cons.prems(1) by (auto simp: x bindR_eq_Inr split: option.splits sum.splits)
      show ?thesis
        by (rule Cons.IH [OF rest round_drops_wait [OF r Cons.prems(2)]])
    qed
  qed
  then have "\<not> rd_wait th2" using assms(2) round_sock_only [OF assms(1)] by blast
  then show ?thesis by (simp add: listen_round_def)
qed

section \<open>From the wire into the queue\<close>

definition deliver :: "event \<Rightarrow> 'z owner_scheme \<Rightarrow> 'z owner_scheme res" where
  "deliver ev st =
     (case ev of
        PingAck \<Rightarrow> Inr st
      | RawEntry mem n \<Rightarrow> bindR (logFromRaw mem n st) (\<lambda>(_, st). Inr st))"

text \<open>The ignore list an entry is taken to have: the eleven words behind the meta, if it says so.\<close>

definition raw_ignores :: "logMeta \<Rightarrow> bytes \<Rightarrow> u32 list" where
  "raw_ignores m s =
     (if META_HAS_IGNORES m then map (\<lambda>i. field32 s (4 * i)) [0..<MAX_IGNORE_LIST + 1] else no_ignores)"

lemma ignores_decode_behind:
  "wf_meta m \<Longrightarrow> ignores_decode (meta_encode m @ s) = map (\<lambda>i. field32 s (4 * i)) [0..<MAX_IGNORE_LIST + 1]"
  using meta_encode_length [of m] by (simp add: ignores_decode_def field32_def del: upt_Suc)

lemma field32_take: "off + 4 \<le> n \<Longrightarrow> field32 (take n bs) off = field32 bs off"
  by (simp add: field32_def take_drop min_def)

lemma logFromRaw_frame:
  assumes "wf_meta m" "s \<noteq> []" "META_HAS_IGNORES m \<longrightarrow> 48 \<le> length (s @ rest)"
  shows "logFromRaw (meta_encode m @ s @ rest) (length s + SIZEOF_LOGMETA) st =
    bindR (logP m (raw_ignores m (s @ rest)) (s @ rest) (length s) st) (\<lambda>(r, _, st). Inr (r, st))"
proof -
  have "META_HAS_IGNORES m \<Longrightarrow> peek 0 SIZEOF_EXTRA_LOGMETA (meta_encode m @ s @ rest) =
      Inr (take SIZEOF_EXTRA_LOGMETA (meta_encode m @ s @ rest))"
    using assms(1,3) by (auto simp: peek_def SIZEOF_EXTRA_LOGMETA_def SIZEOF_LOGMETA_def)
  moreover have "ignores_decode (take SIZEOF_EXTRA_LOGMETA (meta_encode m @ s @ rest)) =
      ignores_decode (meta_encode m @ s @ rest)"
    unfolding ignores_decode_def
    by (intro map_cong refl field32_take)
      (auto simp: SIZEOF_EXTRA_LOGMETA_def SIZEOF_LOGMETA_def MAX_IGNORE_LIST_def simp del: upt_Suc)
  ultimately show ?thesis
    using assms(1,2) by (simp add: logFromRaw_def meta_decode_encode Let_def raw_ignores_def ignores_decode_behind)
qed

lemma logP_accepts:
  assumes "sift st m = (True, m')" "masters_ok st" "length s \<le> bufferSize st" "length s \<le> GREASE_MAX_MESSAGE_SIZE"
  shows "\<exists>st'. logP m ext (s @ rest) (length s) st = Inr (GREASE_OK, m', st') \<and>
    log_internal m' ext (s @ rest) (length s) st = Inr (GREASE_OK, st')"
  using log_internal_fits [OF assms(2,3), of "s @ rest" m' ext] assms(1,4) by (auto simp: logP_def)

lemma sent_message:
  assumes m: "wf_meta m" "s \<noteq> []" "META_HAS_IGNORES m \<longrightarrow> 48 \<le> length s + (rbs - length (frame m s))"
    and rb: "length (frame m s) + GREASE_CLIENT_HEADER_SIZE \<le> rbs" "length s \<le> GREASE_MAX_MESSAGE_SIZE"
    and bufs: "length hdr = GREASE_CLIENT_HEADER_SIZE" "length tmp = GREASE_MAX_MESSAGE_SIZE"
      "2 * length (frame m s) + 2 \<le> fuel"
    and st: "sift st m = (True, m')" "masters_ok st" "length s \<le> bufferSize st"
    and room: "items (masterBufferAvail st) = a # as"
      "length (items (internalCmdQueue st)) < capacity (internalCmdQueue st)"
  shows "\<exists>es t st' l. listen_datagram fuel rbs hdr tmp n (frame m s) = Some (Inr (es, t)) \<and>
    foldR deliver es st = Inr st' \<and> masters_ok st' \<and> logs st' a = Some l \<and> heapBuf_text (buf l) = s \<and>
    emeta (smeta l) = m' \<and>
    (META_HAS_IGNORES m' \<longrightarrow> ignore_list (smeta l) = raw_ignores m (s @ replicate (rbs - length (frame m s)) 0)) \<and>
    items (internalCmdQueue st') = items (internalCmdQueue st) @ [(internalCmdReq_new NEW_LOG 0)\<lparr>icmd_aux := Some a\<rparr>]"
proof -
  define k where "k = rbs - length (frame m s)"
  have ig48: "META_HAS_IGNORES m \<longrightarrow> 48 \<le> length (s @ replicate k 0)" using m(3) by (simp add: k_def)
  have lf: "length (frame m s) = 88 + length s"
    using length_frame [OF m(1)] by (simp add: size_consts SIZEOF_LOGMETA_def)
  have small: "length (frame m s) < 2 ^ 31" "length s + SIZEOF_LOGMETA < 2 ^ 32"
    using rb(2) by (simp_all add: lf GREASE_MAX_MESSAGE_SIZE_def SIZEOF_LOGMETA_def)
  have nil: "datagram_events k [] = Inr []" by (simp add: datagram_events.simps size_consts)
  have ev: "datagram_events k (frame m s) = Inr [RawEntry (meta_encode m @ s @ replicate k 0) (length s + SIZEOF_LOGMETA)]"
    using frame_events [OF m(1) small(2), of k "[]"] by (simp add: nil)
  then obtain t where t: "listen_datagram fuel rbs hdr tmp n (frame m s) =
      Some (Inr ([RawEntry (meta_encode m @ s @ replicate k 0) (length s + SIZEOF_LOGMETA)], t))"
    using listen_datagram_events [OF rb(1) small(1) bufs, of n] by (auto simp: k_def bindR_eq_Inr)
  define ig where "ig = raw_ignores m (s @ replicate k 0)"
  obtain st' where st': "logP m ig (s @ replicate k 0) (length s) st = Inr (GREASE_OK, m', st')"
    "log_internal m' ig (s @ replicate k 0) (length s) st = Inr (GREASE_OK, st')"
    using logP_accepts [OF st(1,2,3) rb(2)] by blast
  have "foldR deliver [RawEntry (meta_encode m @ s @ replicate k 0) (length s + SIZEOF_LOGMETA)] st = Inr st'"
    using st'(1) unfolding deliver_def foldR.simps event.case logFromRaw_frame [of m s "replicate k 0", OF m(1,2) ig48, folded ig_def] by simp
  moreover have "masters_ok st' \<and> (\<exists>l. logs st' a = Some l \<and> holds_entry m' ig s l) \<and>
      items (internalCmdQueue st') = items (internalCmdQueue st) @ [(internalCmdReq_new NEW_LOG 0)\<lparr>icmd_aux := Some a\<rparr>]"
    using log_internal_fits [OF st(2,3), of "s @ replicate k 0" m' ig] st'(2) room by auto
  ultimately show ?thesis
    using t unfolding holds_entry_def ig_def k_def by blast
qed

text \<open>A message a client sends through the sink, with a meta that has neither extras nor a cache,
  lies in a master buffer of the logger after its datagram is received: with the same text, the meta
  as \<open>sift\<close> completes it, an empty ignore list, and queued behind what was queued before. It takes
  an accepted level, a text that fits a master buffer, a free buffer and room in the queue.\<close>

theorem sent_message_is_queued:
  assumes m: "wf_meta m" "\<not> META_HAS_IGNORES m" "s \<noteq> []"
    and rb: "length (frame m s) + GREASE_CLIENT_HEADER_SIZE \<le> rbs" "length s \<le> GREASE_MAX_MESSAGE_SIZE"
    and bufs: "length hdr = GREASE_CLIENT_HEADER_SIZE" "length tmp = GREASE_MAX_MESSAGE_SIZE"
      "2 * length (frame m s) + 2 \<le> fuel"
    and st: "sift st m = (True, m')" "masters_ok st" "length s \<le> bufferSize st"
    and room: "items (masterBufferAvail st) = a # as"
      "length (items (internalCmdQueue st)) < capacity (internalCmdQueue st)"
  shows "\<exists>es t st' l. listen_datagram fuel rbs hdr tmp n (frame m s) = Some (Inr (es, t)) \<and>
    foldR deliver es st = Inr st' \<and> masters_ok st' \<and> logs st' a = Some l \<and> heapBuf_text (buf l) = s \<and>
    emeta (smeta l) = m' \<and> tag m' = tag m \<and> level m' = level m \<and>
    items (internalCmdQueue st') = items (internalCmdQueue st) @ [(internalCmdReq_new NEW_LOG 0)\<lparr>icmd_aux := Some a\<rparr>]"
proof -
  have i: "META_HAS_IGNORES m \<longrightarrow> 48 \<le> length s + (rbs - length (frame m s))" using m(2) by simp
  show ?thesis
    using sent_message [OF m(1,3) i rb bufs st room, of n] sift_keeps [OF st(1)] by blast
qed

text \<open>A message whose meta has extras set, as the JavaScript client sets it, keeps no ignore list on
  the way through the sink: the entry's list is made of the first 44 bytes of its own text, or the
  zero bytes behind it.\<close>

theorem sent_ignores_come_from_text:
  assumes m: "wf_meta m" "META_HAS_IGNORES m" "s \<noteq> []"
    and rb: "length (frame m s) + 48 \<le> rbs" "length s \<le> GREASE_MAX_MESSAGE_SIZE"
    and bufs: "length hdr = GREASE_CLIENT_HEADER_SIZE" "length tmp = GREASE_MAX_MESSAGE_SIZE"
      "2 * length (frame m s) + 2 \<le> fuel"
    and st: "sift st m = (True, m')" "masters_ok st" "length s \<le> bufferSize st"
    and room: "items (masterBufferAvail st) = a # as"
      "length (items (internalCmdQueue st)) < capacity (internalCmdQueue st)"
  shows "\<exists>es t st' l. listen_datagram fuel rbs hdr tmp n (frame m s) = Some (Inr (es, t)) \<and>
    foldR deliver es st = Inr st' \<and> logs st' a = Some l \<and> META_HAS_IGNORES (emeta (smeta l)) \<and>
    ignore_list (smeta l) = map (\<lambda>i. field32 (s @ replicate 48 0) (4 * i)) [0..<MAX_IGNORE_LIST + 1]"
proof -
  define k where "k = rbs - length (frame m s)"
  have k: "48 \<le> k" using rb(1) by (simp add: k_def)
  have x: "META_HAS_IGNORES m'" using sift_keeps [OF st(1)] m(2) by (simp add: META_HAS_IGNORES_def)
  have "s @ replicate k 0 = (s @ replicate 48 0) @ replicate (k - 48) (0 :: u8)"
    using k replicate_add [of 48 "k - 48" "0 :: u8"] by simp
  then have "field32 (s @ replicate k 0) (4 * i) = field32 (s @ replicate 48 0) (4 * i)" if "i < 11" for i
    using that by (simp only: field32_def) (simp add: take_drop)
  then have r: "raw_ignores m (s @ replicate k 0) = map (\<lambda>i. field32 (s @ replicate 48 0) (4 * i)) [0..<MAX_IGNORE_LIST + 1]"
    using m(2) by (simp add: raw_ignores_def MAX_IGNORE_LIST_def del: upt_Suc)
  have "48 \<le> length s + (rbs - length (frame m s))" "length (frame m s) + GREASE_CLIENT_HEADER_SIZE \<le> rbs"
    using rb(1) by (simp_all add: size_consts)
  then show ?thesis
    using sent_message [OF m(1,3) _ _ rb(2) bufs st room, of rbs n] x r unfolding k_def by metis
qed

end
