(* ===== verification/SinkExamples.thy ===== *)
theory SinkExamples
  imports Sink
begin

text \<open>
  The theorems on the datagram sink at concrete inputs: a ping, a datagram of two messages,
  a cut message of 70000 bytes, a sink with its thread, and a logger with two free buffers.
\<close>

lemma listener_refines_witness:
  "map_option (\<lambda>r. bindR r (\<lambda>(es, _). Inr es))
     (listen_datagram 10 20 (replicate 8 0) (replicate 65535 0) 9 ping) = Some (Inr [PingAck])"
proof -
  have "datagram_events 16 ping = Inr [PingAck]"
    by (simp add: datagram_events.simps ping_def size_consts)
  then show ?thesis
    using listener_refines [of ping 20 "replicate 8 0" "replicate 65535 0" 10 9]
    by (simp add: size_consts GREASE_MAX_MESSAGE_SIZE_def)
qed

lemma wf_meta_default: "wf_meta (default_meta t og)"
  by (simp add: wf_meta_def default_meta_def)

lemma frames_arrive_witness:
  "\<exists>es t. listen_datagram 400 300 (replicate 8 0) (replicate 65535 0) 9
       (frame (default_meta 5 1) [65] @ frame (default_meta 6 2) [66, 67]) = Some (Inr (es, t)) \<and>
     map raw_entry es = [Some (meta_encode (default_meta 5 1) @ [65]), Some (meta_encode (default_meta 6 2) @ [66, 67])]"
proof -
  have l: "length (frame (default_meta 5 1) [65]) = 89" "length (frame (default_meta 6 2) [66, 67]) = 90"
    by (simp_all add: length_frame wf_meta_default size_consts SIZEOF_LOGMETA_def)
  show ?thesis
    using frames_arrive [OF refl, of "[(default_meta 5 1, [65]), (default_meta 6 2, [66, 67])]" 300
        "replicate 8 0" "replicate 65535 0" 400 9] l
    by (simp add: wf_meta_default size_consts GREASE_MAX_MESSAGE_SIZE_def)
qed

lemma cut_message_overflows_witness:
  "listen_datagram 140100 80000 (replicate 8 0) (replicate 65535 0) 9 (frame_header 100000 @ replicate 70000 7) =
     Some (Inl OutOfBounds)"
  using cut_message_overflows [of "replicate 70000 7" 100000 80000 "replicate 8 0" "replicate 65535 0" 140100 9]
  by (simp add: size_consts GREASE_MAX_MESSAGE_SIZE_def)

definition demo_sink :: dgram_sink where
  "demo_sink = (dgram_sink_new (Some [47, 116]) 1)\<lparr>socket_fd := 5, wakeup_pipe := (7, 6), ready := True\<rparr>"

lemma wakeup_is_lost_witness:
  "listen_round 9 20 (sink_stop demo_sink) (Some (True, False)) (Inl 0) []
     ((lthread_start demo_sink [])\<lparr>rd_wait := False\<rparr>) = Some (Inl WouldBlock)"
proof -
  have "listen_round 9 20 demo_sink (Some (False, True)) (Inl 11) [] (lthread_start demo_sink []) =
      Some (Inr ([], (lthread_start demo_sink [])\<lparr>rd_wait := False\<rparr>))"
    by code_simp
  from wakeup_is_lost [OF this, of "[]" "[]"] show ?thesis by simp
qed

definition demo_sent :: logMeta where
  "demo_sent = snd (sift demo_masters (default_meta 5 1))"

lemma demo_sends: "sift demo_masters (default_meta 5 1) = (True, demo_sent)"
proof -
  have "fst (sift demo_masters (default_meta 5 1)) = True"
    by (simp add: sift_fresh demo_masters_def demo_ow_def owner_init_def filters.defs no_filters_def Let_def
        split: option.split)
  then show ?thesis by (simp add: demo_sent_def prod_eq_iff)
qed

lemma sent_message_is_queued_witness:
  "\<exists>es t st' l. listen_datagram 400 300 (replicate 8 0) (replicate 65535 0) 9 (frame (default_meta 5 1) [65, 66]) =
       Some (Inr (es, t)) \<and> foldR deliver es demo_masters = Inr st' \<and> masters_ok st' \<and> logs st' 7 = Some l \<and>
     heapBuf_text (buf l) = [65, 66] \<and> tag (emeta (smeta l)) = 5"
proof -
  have l: "length (frame (default_meta 5 1) [65, 66]) = 90"
    by (simp_all add: length_frame wf_meta_default size_consts SIZEOF_LOGMETA_def)
  have "\<not> META_HAS_IGNORES (default_meta 5 1)" "tag (default_meta 5 1) = 5"
    by (simp_all add: META_HAS_IGNORES_def default_meta_def)
  moreover have "2 \<le> bufferSize demo_masters" "items (masterBufferAvail demo_masters) = [7, 8]"
    "length (items (internalCmdQueue demo_masters)) < capacity (internalCmdQueue demo_masters)"
    by (simp_all add: demo_masters_def demo_queues demo_ow_def owner_init_def filters.defs no_filters_def
        del: length_items)
  ultimately show ?thesis
    using sent_message_is_queued [of "default_meta 5 1" "[65, 66]" 300 "replicate 8 0" "replicate 65535 0" 400
        demo_masters demo_sent 7 "[8]" 9] l demo_sends demo_masters_ok wf_meta_default [of 5 1]
    by (simp add: size_consts GREASE_MAX_MESSAGE_SIZE_def del: length_items) metis
qed

end
