(* ===== verification/PipeSink.thy ===== *)
theory PipeSink
  imports Sink
begin

text \<open>
  The pipe sink (\<open>PipeSink\<close> and its \<open>PipeClient\<close> in logger.h): its pool of read buffers, the
  new connections, and \<open>on_read\<close>, which takes what a read brought apart. Lengths are
  \<open>size_t\<close>, positions are \<open>int\<close>, and each comparison or sum converts as C does. The
  libuv calls are arguments.
\<close>

section \<open>The sink and its buffers\<close>

definition SINK_BUFFER_SIZE :: nat where "SINK_BUFFER_SIZE = 4000"
definition BUFFERS_PER_SINK :: nat where "BUFFERS_PER_SINK = 4"

text \<open>The buffers are named by addresses, 0 is NULL.\<close>

record pipe_sink =
  pbuffers :: "nat circular"
  ppath :: "bytes option"
  pid :: u32

definition PipeSink_new :: "bytes option \<Rightarrow> u32 \<Rightarrow> nat list \<Rightarrow> pipe_sink res" where
  "PipeSink_new p i bufs =
     bindR (foldR tw_add (take BUFFERS_PER_SINK bufs) (new_circular BUFFERS_PER_SINK 0)) (\<lambda>q.
       Inr \<lparr>pbuffers = q, ppath = p, pid = i\<rparr>)"

definition PipeSink_returnBuffer :: "nat \<Rightarrow> pipe_sink \<Rightarrow> pipe_sink res" where
  "PipeSink_returnBuffer b sk = bindR (tw_add b (pbuffers sk)) (\<lambda>q. Inr (sk\<lparr>pbuffers := q\<rparr>))"

definition PipeSink_bind :: "pipe_sink \<Rightarrow> bool res" where
  "PipeSink_bind sk = (case ppath sk of None \<Rightarrow> Inl AssertFailed | Some _ \<Rightarrow> Inr True)"

text \<open>The buffer for the next read and its length; NULL and 0 when the pool is empty.\<close>

definition alloc_cb :: "pipe_sink \<Rightarrow> nat \<times> nat \<times> pipe_sink" where
  "alloc_cb sk =
     (case tw_remove (pbuffers sk) of
        (Some b, q) \<Rightarrow> (b, SINK_BUFFER_SIZE, sk\<lparr>pbuffers := q\<rparr>)
      | (None, q) \<Rightarrow> (0, 0, sk\<lparr>pbuffers := q\<rparr>))"

text \<open>
  A connection: what becomes of it by the major version of libuv and what \<open>uv_accept\<close> returns.
  In the old version 0 is the success.
\<close>

datatype connection = Refused | SinkDeleted | Accepted | Reading

definition on_new_conn :: "nat \<Rightarrow> int \<Rightarrow> int \<Rightarrow> connection" where
  "on_new_conn uv_major status r =
     (if status = 0
      then (if uv_major > 0 then (if r < 0 then SinkDeleted else Accepted)
            else (if r = 0 then SinkDeleted else Reading))
      else Refused)"

section \<open>A read\<close>

datatype pstate = P_NEED_PREAMBLE | P_IN_PREAMBLE | P_IN_LOG_ENTRY

record pipe_client =
  p_temp :: bytes
  p_temp_used :: int
  p_state_remain :: int
  p_entry_size :: int
  p_state :: pstate

definition PipeClient_new :: "bytes \<Rightarrow> pipe_client" where
  "PipeClient_new mem0 =
     \<lparr>p_temp = mem0, p_temp_used = 0, p_state_remain = int GREASE_CLIENT_HEADER_SIZE, p_entry_size = 0,
      p_state = P_NEED_PREAMBLE\<rparr>"

definition resetState :: "pipe_client \<Rightarrow> pipe_client" where
  "resetState c =
     c\<lparr>p_state := P_NEED_PREAMBLE, p_state_remain := int GREASE_CLIENT_HEADER_SIZE, p_temp_used := 0, p_entry_size := 0\<rparr>"

text \<open>\<open>int\<close> to \<open>size_t\<close> and back.\<close>

definition to_size :: "int \<Rightarrow> u64" where "to_size i = word_of_int i"
definition to_int :: "u64 \<Rightarrow> int" where "to_int w = sint (ucast w :: u32)"

definition total_size :: "int \<Rightarrow> u64" where
  "total_size n = to_size n + word_of_nat GREASE_CLIENT_HEADER_SIZE"

definition memcpy_z :: "u64 \<Rightarrow> bytes \<Rightarrow> int \<Rightarrow> bytes \<Rightarrow> int \<Rightarrow> bytes res" where
  "memcpy_z n src soff dst doff =
     (if soff < 0 \<or> doff < 0 then Inl OutOfBounds
      else bindR (peek (nat soff) (unat n) src) (\<lambda>d. poke (nat doff) d dst))"

definition pipe_need_preamble :: "bytes \<Rightarrow> int \<Rightarrow> pipe_client \<Rightarrow> (event list \<times> int \<times> pipe_client) res" where
  "pipe_need_preamble blk wk c =
     (let L = word_of_nat (length blk) :: u64
      in if L \<ge> word_of_nat GREASE_CLIENT_HEADER_SIZE
         then bindR (IS_SINK_PREAMBLE 0 blk) (\<lambda>ispre.
              bindR (if ispre
                     then bindR (GET_SIZE_FROM_PREAMBLE 0 blk) (\<lambda>n.
                            Inr (c\<lparr>p_state := P_IN_LOG_ENTRY, p_entry_size := sint n\<rparr>))
                     else Inr (resetState c)) (\<lambda>c.
              Inr ([], to_int (to_size wk + word_of_nat GREASE_CLIENT_HEADER_SIZE), c)))
         else bindR (memcpy_z L blk wk (p_temp c) (p_temp_used c)) (\<lambda>t.
              Inr ([], to_int (to_size wk + L),
                   c\<lparr>p_state_remain := to_int (word_of_nat SIZEOF_SINK_LOG_PREAMBLE - L), p_temp := t,
                     p_state := P_IN_PREAMBLE\<rparr>)))"

definition pipe_in_preamble :: "bytes \<Rightarrow> int \<Rightarrow> pipe_client \<Rightarrow> (event list \<times> int \<times> pipe_client) res" where
  "pipe_in_preamble blk wk c =
     (let L = word_of_nat (length blk) :: u64;
          n = (if L < to_size (p_state_remain c) then to_int L else p_state_remain c)
      in bindR (memcpy_z (to_size n) blk 0 (p_temp c) (p_temp_used c)) (\<lambda>t.
         let c = c\<lparr>p_temp := t, p_state_remain := p_state_remain c - n\<rparr>
         in if p_state_remain c = 0
            then bindR (IS_SINK_PREAMBLE 0 t) (\<lambda>ispre.
                 if ispre
                 then bindR (GET_SIZE_FROM_PREAMBLE 0 t) (\<lambda>m.
                        Inr ([], wk + n, c\<lparr>p_entry_size := sint m, p_temp_used := 0, p_state := P_IN_LOG_ENTRY\<rparr>))
                 else Inr ([], wk + n, resetState c))
            else Inr ([], wk + n, c)))"

text \<open>The last branch reads \<open>walk\<close> again after it was advanced, so \<open>temp_used\<close> stays.\<close>

definition pipe_in_log_entry :: "bytes \<Rightarrow> int \<Rightarrow> pipe_client \<Rightarrow> (event list \<times> int \<times> pipe_client) res" where
  "pipe_in_log_entry blk wk c =
     (let L = word_of_nat (length blk) :: u64;
          total = total_size (p_entry_size c);
          rawlen = unat (ucast total :: u32)
      in if p_temp_used c = 0
         then (if L - to_size wk \<ge> total
               then Inr ([RawEntry blk rawlen], wk + p_entry_size c, resetState c)
               else bindR (memcpy_z (L - to_size wk) blk wk (p_temp c) 0) (\<lambda>t.
                      Inr ([], to_int (to_size wk + L), c\<lparr>p_temp := t, p_temp_used := to_int L\<rparr>)))
         else let need = to_int (total - to_size (p_temp_used c))
              in if to_size need \<le> L - to_size wk
                 then bindR (memcpy_z (to_size need) blk wk (p_temp c) (p_temp_used c)) (\<lambda>t.
                        Inr ([RawEntry t rawlen], wk + need, resetState (c\<lparr>p_temp := t\<rparr>)))
                 else bindR (memcpy_z (L - to_size wk) blk wk (p_temp c) (p_temp_used c)) (\<lambda>t.
                        let wk = to_int (to_size wk + (L - to_size wk))
                        in Inr ([], wk, c\<lparr>p_temp := t,
                             p_temp_used := to_int (to_size (p_temp_used c) + (L - to_size wk))\<rparr>)))"

definition pipe_turn :: "bytes \<Rightarrow> int \<Rightarrow> pipe_client \<Rightarrow> (event list \<times> int \<times> pipe_client) res" where
  "pipe_turn blk wk c =
     (case p_state c of
        P_NEED_PREAMBLE \<Rightarrow> pipe_need_preamble blk wk c
      | P_IN_PREAMBLE \<Rightarrow> pipe_in_preamble blk wk c
      | P_IN_LOG_ENTRY \<Rightarrow> pipe_in_log_entry blk wk c)"

fun pipe_loop :: "nat \<Rightarrow> bytes \<Rightarrow> int \<Rightarrow> pipe_client \<Rightarrow> (event list \<times> pipe_client) res option" where
  "pipe_loop 0 blk wk c = None"
| "pipe_loop (Suc n) blk wk c =
     (if to_size wk < word_of_nat (length blk)
      then (case pipe_turn blk wk c of
              Inl e \<Rightarrow> Some (Inl e)
            | Inr (es, wk, c) \<Rightarrow> map_option (\<lambda>r. bindR r (\<lambda>(es', c). Inr (es @ es', c))) (pipe_loop n blk wk c))
      else Some (Inr ([], c)))"

text \<open>\<open>on_read\<close>: -1 closes the connection (\<open>None\<close> inside); the buffer is the whole block.\<close>

definition on_read :: "nat \<Rightarrow> int \<Rightarrow> bytes \<Rightarrow> pipe_client \<Rightarrow> (event list \<times> pipe_client option) res option" where
  "on_read fuel nread blk c =
     (if nread = -1 then Some (Inr ([], None))
      else map_option (\<lambda>r. bindR r (\<lambda>(es, c). Inr (es, Some c))) (pipe_loop fuel blk 0 c))"

section \<open>What a read does\<close>

lemma to_int_size: "- (2 ^ 31) \<le> i \<Longrightarrow> i < 2 ^ 31 \<Longrightarrow> to_int (to_size i) = i"
proof -
  assume i: "- (2 ^ 31) \<le> i" "i < 2 ^ 31"
  have "(ucast (to_size i) :: u32) = word_of_int i"
    by (simp add: to_size_def) (transfer, simp add: take_bit_take_bit)
  then show ?thesis unfolding to_int_def by (simp only: sint_u32 [OF i])
qed

lemma to_size_add: "to_size a + to_size b = to_size (a + b)" "to_size a - to_size b = to_size (a - b)"
  by (simp_all add: to_size_def)

lemma size_nat: "word_of_nat n = to_size (int n)"
  by (simp add: to_size_def)

lemma to_size_less:
  assumes "0 \<le> a" "a < 2 ^ 63" "0 \<le> b" "b < 2 ^ 63"
  shows "to_size a < to_size b \<longleftrightarrow> a < b" "to_size a \<le> to_size b \<longleftrightarrow> a \<le> b"
proof -
  have "uint (to_size a) = a" "uint (to_size b) = b"
    using assms by (simp_all add: to_size_def uint_word_of_int_eq take_bit_int_eq_self)
  then show "to_size a < to_size b \<longleftrightarrow> a < b" "to_size a \<le> to_size b \<longleftrightarrow> a \<le> b"
    by (simp_all add: word_less_def word_le_def)
qed

text \<open>The first turn on a header, whatever size it says.\<close>

lemma pipe_header_turn:
  assumes "length blk < 2 ^ 31" "blk = frame_header n @ rest"
  shows "pipe_turn blk 0 (PipeClient_new mem0) =
    Inr ([], 8, (PipeClient_new mem0)\<lparr>p_state := P_IN_LOG_ENTRY, p_entry_size := sint n\<rparr>)"
proof -
  have "8 \<le> length blk" using assms(2) by (simp add: size_consts)
  then have "(word_of_nat (length blk) :: u64) \<ge> word_of_nat 8"
    unfolding size_nat by (subst to_size_less(2)) (use assms(1) in simp_all)
  moreover have "to_int (to_size 0 + word_of_nat 8) = 8"
    unfolding size_nat to_size_add by (subst to_int_size) simp_all
  moreover have "IS_SINK_PREAMBLE 0 blk = Inr True" "GET_SIZE_FROM_PREAMBLE 0 blk = Inr n"
    using frame_header_read(1,3) [of "[]" 0 n rest] by (simp_all add: assms(2))
  ultimately show ?thesis
    by (simp add: pipe_turn_def pipe_need_preamble_def PipeClient_new_def Let_def size_consts del: of_nat_numeral)
qed

text \<open>A message that arrives whole in one read, with more bytes behind it, is handed to
  \<open>logFromRaw\<close> with its header in front: the meta that is read has the preamble for its tag,
  the size for its level and the true tag for its origin.\<close>

theorem pipe_reads_header_as_meta:
  assumes "blk = frame m s @ rest" "wf_meta m" "8 \<le> length rest" "length blk < 2 ^ 31"
  shows "\<exists>c1 w c2. pipe_turn blk 0 (PipeClient_new mem0) = Inr ([], 8, c1) \<and>
    pipe_turn blk 8 c1 = Inr ([RawEntry blk (GREASE_TOTAL_MSG_SIZE (SIZEOF_LOGMETA + length s))], w, c2) \<and>
    tag (meta_decode blk) = SINK_LOG_PREAMBLE \<and>
    level (meta_decode blk) = word_of_nat (length s + SIZEOF_LOGMETA) \<and> origin (meta_decode blk) = tag m"
proof -
  define n where "n = length s + SIZEOF_LOGMETA"
  have blk: "blk = frame_header (word_of_nat n) @ meta_encode m @ s @ rest" using assms(1) by (simp add: frame_def n_def)
  have len: "length blk = 8 + n + length rest" using assms(2) by (simp add: blk n_def size_consts)
  have u: "sint (word_of_nat n :: u32) = int n"
    using sint_u32 [of "int n"] len assms(4) by simp
  define c1 where "c1 = (PipeClient_new mem0)\<lparr>p_state := P_IN_LOG_ENTRY, p_entry_size := int n\<rparr>"
  have t1: "pipe_turn blk 0 (PipeClient_new mem0) = Inr ([], 8, c1)"
    using pipe_header_turn [OF assms(4) blk] by (simp add: c1_def u)
  have tot: "total_size (int n) = to_size (int (n + 8))"
    by (simp add: total_size_def size_nat to_size_add size_consts)
  have "total_size (int n) \<le> word_of_nat (length blk) - to_size 8"
    unfolding tot size_nat to_size_add by (subst to_size_less(2)) (use len assms(3,4) in simp_all)
  moreover have "unat (ucast (total_size (int n)) :: u32) = GREASE_TOTAL_MSG_SIZE (SIZEOF_LOGMETA + length s)"
  proof -
    have "(ucast (to_size (int (n + 8))) :: u32) = word_of_nat (n + 8)"
      by (simp add: to_size_def) (transfer, simp add: take_bit_take_bit)
    then show ?thesis
      using len assms(4) by (simp only: tot)
        (simp add: unat_of_nat take_bit_nat_eq_self GREASE_TOTAL_MSG_SIZE_def size_consts n_def del: of_nat_add)
  qed
  ultimately have t2: "pipe_turn blk 8 c1 =
      Inr ([RawEntry blk (GREASE_TOTAL_MSG_SIZE (SIZEOF_LOGMETA + length s))], 8 + int n, resetState c1)"
    by (simp add: pipe_turn_def pipe_in_log_entry_def c1_def PipeClient_new_def Let_def)
  have f: "field32 (frame_header k @ meta_encode m @ x) 0 = SINK_LOG_PREAMBLE"
    "field32 (frame_header k @ meta_encode m @ x) 4 = k" "field32 (frame_header k @ meta_encode m @ x) 8 = tag m" for k x
    by (simp_all add: frame_header_def meta_encode_def field32_def le_decode_encode)
  have "tag (meta_decode blk) = SINK_LOG_PREAMBLE \<and> level (meta_decode blk) = word_of_nat n \<and> origin (meta_decode blk) = tag m"
    unfolding blk meta_decode_def logMeta.simps f by simp
  then show ?thesis using t1 t2 by (auto simp: n_def)
qed

text \<open>C40 A client that writes a header with the size -8 keeps the listener for ever: whatever else
  the block holds, \<open>on_read\<close> hands on an empty entry, steps back by eight bytes and starts again.\<close>

theorem pipe_read_never_ends:
  assumes "blk = frame_header 0xFFFFFFF8 @ b # rest" "length blk < 2 ^ 31" "nread \<noteq> -1"
  shows "on_read fuel nread blk (PipeClient_new mem0) = None"
proof -
  define c0 where "c0 = PipeClient_new mem0"
  define c1 where "c1 = c0\<lparr>p_state := P_IN_LOG_ENTRY, p_entry_size := -8\<rparr>"
  have len: "length blk = 9 + length rest" by (simp add: assms(1) size_consts)
  have t1: "pipe_turn blk 0 c0 = Inr ([], 8, c1)"
    using pipe_header_turn [OF assms(2,1)] by (simp add: c0_def c1_def)
  have "total_size (-8) = 0" by (simp add: total_size_def to_size_def size_consts)
  then have t2: "pipe_turn blk 8 c1 = Inr ([RawEntry blk 0], 0, c0)"
    by (simp add: pipe_turn_def pipe_in_log_entry_def c1_def c0_def PipeClient_new_def Let_def resetState_def)
  have inside: "to_size 0 < word_of_nat (length blk)" "to_size 8 < word_of_nat (length blk)"
    unfolding size_nat by (subst to_size_less(1); use len assms(2) in simp)+
  have "pipe_loop n blk 0 c0 = None \<and> pipe_loop n blk 8 c1 = None" for n
    using inside t1 t2 by (induction n) simp_all
  then show ?thesis using assms(3) by (simp add: on_read_def c0_def)
qed

lemma pipe_reads_header_as_meta_witness:
  "tag (meta_decode (frame meta_info [65, 66] @ replicate 8 0)) = SINK_LOG_PREAMBLE"
proof -
  have "wf_meta meta_info" by (simp add: meta_info_def)
  then show ?thesis
    using pipe_reads_header_as_meta [OF refl, of meta_info "replicate 8 0" "[65, 66]" "[]"]
    by (auto simp: length_frame size_consts SIZEOF_LOGMETA_def)
qed

lemma pipe_read_never_ends_witness:
  "on_read 1000 9 (frame_header 0xFFFFFFF8 @ replicate 1 0) (PipeClient_new (replicate 4000 0)) = None"
  using pipe_read_never_ends [of "frame_header 0xFFFFFFF8 @ replicate 1 0" 0 "[]" 9 1000] by (simp add: size_consts)

end
