(* ===== verification/Client.thy ===== *)
theory Client
  imports Wire
begin

text \<open>
  The C client library (grease_client.c, built with the default native origin): the module's
  variables, those of a thread, sending to the sink, the search for the logger in the running
  process, the ping, and the public calls. What the system calls return are arguments; the
  state \<open>'w\<close> they and the local logger change is left open.
\<close>

section \<open>State\<close>

definition GREASE_C_MACRO_MAX_MESSAGE :: nat where "GREASE_C_MACRO_MAX_MESSAGE = 250"
definition MODULE_SEARCH_NOT_RAN :: int where "MODULE_SEARCH_NOT_RAN = -1"
definition SINK_BUFFERS_N :: nat where "SINK_BUFFERS_N = 3"
definition GREASE_LOG_SO_NAME :: bytes where
  "GREASE_LOG_SO_NAME = [103, 114, 101, 97, 115, 101, 76, 111, 103, 46, 110, 111, 100, 101]"
definition GREASE_DEFAULT_SINK_PATH :: bytes where
  "GREASE_DEFAULT_SINK_PATH = [47, 116, 109, 112, 47, 103, 114, 101, 97, 115, 101, 46, 115, 111, 99, 107, 101, 116]"
definition GREASE_DEFAULT_PING_CLIENT :: bytes where
  "GREASE_DEFAULT_PING_CLIENT = [112, 105, 110, 103]"
definition GREASE_VIA_SINK :: int where "GREASE_VIA_SINK = 3"
definition GREASE_VIA_LOCAL :: int where "GREASE_VIA_LOCAL = 1"
definition GREASE_NO_CONNECTION :: int where "GREASE_NO_CONNECTION = 0"

text \<open>What the pointer \<open>grease_log\<close> can hold, NULL being \<open>None\<close>: a local logger is the address
  \<open>dlsym\<close> gave.\<close>

datatype logfn = LogToSink | LocalLog nat

record client =
  grease_log :: "logfn option"
  local_log :: "nat option"
  found_module :: int
  default_origin :: u32

definition client_init :: client where
  "client_init = \<lparr>grease_log = None, local_log = None, found_module = MODULE_SEARCH_NOT_RAN, default_origin = 0\<rparr>"

datatype iobase = NullBase | HeaderBuffer | MetaBuffer | MetaPtr logMeta | StrPtr bytes

record iovec =
  iov_base :: iobase
  iov_len :: nat

text \<open>The variables of a thread; \<open>msg_iovlen\<close> is 0 and \<open>msg_name\<close> unset until the set-up.\<close>

record tls =
  iov :: "iovec list"
  msg_name :: bool
  msg_iovlen :: nat
  sun_path :: bytes
  sink_fd :: int
  send_buf_size :: int
  err_cnt :: int
  hdr_buf :: bytes
  meta_buf :: bytes
  my_tid :: int
  logstr :: bytes

definition tls_init :: tls where
  "tls_init =
     \<lparr>iov = replicate SINK_BUFFERS_N \<lparr>iov_base = NullBase, iov_len = 0\<rparr>, msg_name = False, msg_iovlen = 0,
      sun_path = [], sink_fd = 0, send_buf_size = 0, err_cnt = 0, hdr_buf = replicate GREASE_CLIENT_HEADER_SIZE 0,
      meta_buf = replicate SIZEOF_LOGMETA 0, my_tid = 0, logstr = replicate (GREASE_C_MACRO_MAX_MESSAGE + 1) 0\<rparr>"

section \<open>Sending\<close>

text \<open>What \<open>sendmsg\<close> gathers from the buffers; \<open>None\<close> where it fails on a NULL address.\<close>

definition iov_data :: "tls \<Rightarrow> iovec \<Rightarrow> bytes option res" where
  "iov_data t v =
     (case iov_base v of
        NullBase \<Rightarrow> Inr (if iov_len v = 0 then Some [] else None)
      | HeaderBuffer \<Rightarrow> bindR (peek 0 (iov_len v) (hdr_buf t)) (\<lambda>b. Inr (Some b))
      | MetaBuffer \<Rightarrow> bindR (peek 0 (iov_len v) (meta_buf t)) (\<lambda>b. Inr (Some b))
      | MetaPtr m \<Rightarrow> bindR (peek 0 (iov_len v) (meta_encode m)) (\<lambda>b. Inr (Some b))
      | StrPtr s \<Rightarrow> bindR (peek 0 (iov_len v) s) (\<lambda>b. Inr (Some b)))"

fun gather :: "tls \<Rightarrow> iovec list \<Rightarrow> bytes option res" where
  "gather t [] = Inr (Some [])"
| "gather t (v # vs) =
     bindR (iov_data t v) (\<lambda>a. bindR (gather t vs) (\<lambda>b.
       Inr (case (a, b) of (Some x, Some y) \<Rightarrow> Some (x @ y) | _ \<Rightarrow> None)))"

text \<open>The system's part of \<open>sendmsg\<close>: descriptor, address, datagram.\<close>

type_synonym 'w sendmsg = "int \<Rightarrow> bytes option \<Rightarrow> bytes \<Rightarrow> 'w \<Rightarrow> (int \<times> 'w) res"

definition sendmsg_call :: "'w sendmsg \<Rightarrow> tls \<Rightarrow> 'w \<Rightarrow> (int \<times> 'w) res" where
  "sendmsg_call send t w =
     bindR (gather t (take (msg_iovlen t) (iov t))) (\<lambda>d.
       case d of None \<Rightarrow> Inr (-1, w)
       | Some d \<Rightarrow> send (sink_fd t) (if msg_name t then Some (sun_path t) else None) d w)"

text \<open>\<open>grease_logToSink\<close>; it also writes the default origin into the caller's meta.\<close>

definition grease_logToSink ::
    "'w sendmsg \<Rightarrow> logMeta \<Rightarrow> bytes \<Rightarrow> u32 \<Rightarrow> client \<Rightarrow> tls \<Rightarrow> 'w \<Rightarrow>
       (grease_result \<times> logMeta \<times> client \<times> tls \<times> 'w) res" where
  "grease_logToSink send f s len c t w =
     bindR (SET_SIZE_IN_HEADER (hdr_buf t) (len + word_of_nat SIZEOF_LOGMETA)) (\<lambda>h.
     let f = f\<lparr>origin := default_origin c\<rparr>;
         t = t\<lparr>hdr_buf := h,
               iov := (iov t)[1 := (iov t ! 1)\<lparr>iov_base := MetaPtr f\<rparr>, 2 := \<lparr>iov_base = StrPtr s, iov_len = unat len\<rparr>]\<rparr>
     in bindR (sendmsg_call send t w) (\<lambda>(r, w).
          if r < 0
          then let t = t\<lparr>err_cnt := err_cnt t + 1\<rparr>;
                   c = (if err_cnt t > SINK_MAX_ERRORS then c\<lparr>grease_log := None\<rparr> else c)
               in Inr (GREASE_SINK_FAILURE, f, c, t, w)
          else Inr (GREASE_OK, f, c, t, w)))"

text \<open>A call through the pointer \<open>grease_log\<close>, with what a local logger does as an argument.\<close>

type_synonym 'w local_logger = "nat \<Rightarrow> logMeta \<Rightarrow> bytes \<Rightarrow> nat \<Rightarrow> 'w \<Rightarrow> (grease_result \<times> 'w) res"

definition call_log ::
    "'w sendmsg \<Rightarrow> 'w local_logger \<Rightarrow> logfn \<Rightarrow> logMeta \<Rightarrow> bytes \<Rightarrow> u32 \<Rightarrow> client \<Rightarrow> tls \<Rightarrow> 'w \<Rightarrow>
       (grease_result \<times> logMeta \<times> client \<times> tls \<times> 'w) res" where
  "call_log send loc fn f s len c t w =
     (case fn of
        LogToSink \<Rightarrow> grease_logToSink send f s len c t w
      | LocalLog a \<Rightarrow> bindR (loc a f s (unat len) w) (\<lambda>(r, w). Inr (r, f, c, t, w)))"

section \<open>Printing\<close>

text \<open>The text as a format with no arguments left, up to its end.\<close>

fun format_plain :: "bytes \<Rightarrow> bytes res" where
  "format_plain [] = Inr []"
| "format_plain (b # bs) =
     (if b = 0 then Inr []
      else if b = 37
      then (case bs of
              b' # bs' \<Rightarrow> if b' = 37 then bindR (format_plain bs') (\<lambda>r. Inr (37 # r)) else Inl BadFormat
            | [] \<Rightarrow> Inl BadFormat)
      else bindR (format_plain bs) (\<lambda>r. Inr (b # r)))"

text \<open>
  \<open>grease_printf\<close>: \<open>out\<close> is what \<open>vsnprintf\<close> formats, \<open>None\<close> when it fails and returns -1.
  The result is the code, which is always GREASE_OK, and what goes to \<open>stderr\<close>.
\<close>

definition vsnprintf_buf :: "bytes option \<Rightarrow> bytes \<Rightarrow> bytes res" where
  "vsnprintf_buf out b =
     (case out of None \<Rightarrow> Inr b | Some s \<Rightarrow> poke 0 (take (GREASE_C_MACRO_MAX_MESSAGE - 1) s @ [0]) b)"

definition printf_len :: "bytes option \<Rightarrow> u32" where
  "printf_len out =
     (let len = (case out of None \<Rightarrow> -1 | Some s \<Rightarrow> if length s < 2 ^ 31 then word_of_nat (length s) else -1)
      in if len > word_of_nat GREASE_C_MACRO_MAX_MESSAGE then word_of_nat GREASE_C_MACRO_MAX_MESSAGE else len)"

definition print_stderr :: "tls \<Rightarrow> bytes option res" where
  "print_stderr t = bindR (format_plain (logstr t)) (\<lambda>b. Inr (Some (b @ [10])))"

definition grease_printf ::
    "'w sendmsg \<Rightarrow> 'w local_logger \<Rightarrow> logMeta \<Rightarrow> bytes option \<Rightarrow> client \<Rightarrow> tls \<Rightarrow> 'w \<Rightarrow>
       (grease_result \<times> bytes option \<times> logMeta \<times> client \<times> tls \<times> 'w) res" where
  "grease_printf send loc m out c t w =
     bindR (vsnprintf_buf out (logstr t)) (\<lambda>b.
     let t = t\<lparr>logstr := b\<rparr>
     in case grease_log c of
          None \<Rightarrow> bindR (print_stderr t) (\<lambda>e. Inr (GREASE_OK, e, m, c, t, w))
        | Some fn \<Rightarrow>
            bindR (call_log send loc fn m b (printf_len out) c t w) (\<lambda>(r, m, c, t, w).
              if r = GREASE_OK then Inr (GREASE_OK, None, m, c, t, w)
              else bindR (print_stderr t) (\<lambda>e. Inr (GREASE_OK, e, m, c, t, w))))"

section \<open>Finding the logger in the process\<close>

text \<open>\<open>strstr\<close>, and one loaded object: its name, and what \<open>dlopen\<close> and then \<open>dlsym\<close> give.\<close>

fun strstr :: "bytes \<Rightarrow> bytes \<Rightarrow> bool" where
  "strstr s pat = (take (length pat) s = pat \<or> (case s of [] \<Rightarrow> False | _ # s \<Rightarrow> strstr s pat))"

declare strstr.simps [simp del]

type_synonym loaded = "bytes \<times> nat option option"

definition grease_plhdr_callback :: "loaded \<Rightarrow> client \<Rightarrow> client" where
  "grease_plhdr_callback obj c =
     (if strstr (fst obj) GREASE_LOG_SO_NAME
      then case snd obj of
             None \<Rightarrow> c
           | Some (Some r) \<Rightarrow> c\<lparr>local_log := Some r, found_module := 1\<rparr>
           | Some None \<Rightarrow> c\<lparr>local_log := None\<rparr>
      else c)"

definition check_grease_symbols :: "loaded list \<Rightarrow> client \<Rightarrow> client" where
  "check_grease_symbols objs c = fold grease_plhdr_callback objs (c\<lparr>found_module := 0\<rparr>)"

section \<open>The ping and the socket\<close>

text \<open>Calls whose order and repetition matter.\<close>

datatype oscall = Close int | Unlink bytes | Rmdir bytes | Sendto int bytes bytes

text \<open>The system's answers: the socket, the directory, \<open>bind\<close>, \<open>sendto\<close>, and what
  \<open>recvfrom\<close> receives and from whom.\<close>

record ping_env =
  pe_fd :: int
  pe_dir :: "bytes option"
  pe_bind :: bool
  pe_send :: bool
  pe_recv :: "(bytes \<times> bytes) option"
  pe_stack :: bytes              \<comment> \<open>the four bytes of \<open>temp_buf\<close>\<close>

definition CLIENTPATH_SIZE :: nat where "CLIENTPATH_SIZE = 100"

definition ping_sink :: "ping_env \<Rightarrow> tls \<Rightarrow> (int \<times> oscall list \<times> tls) res" where
  "ping_sink e t =
     (let fd = pe_fd e
      in if fd < 0 then Inr (1, [], t)
         else case pe_dir e of
                None \<Rightarrow> Inr (1, [], t)
              | Some dir \<Rightarrow>
                  let path = dir @ [47] @ GREASE_DEFAULT_PING_CLIENT
                  in if CLIENTPATH_SIZE < length path + 1 then Inl OutOfBounds
                     else
                       let tr = [Unlink path];
                           (ret, tr) = (if \<not> pe_bind e then (1, tr @ [Close fd]) else (0 :: int, tr));
                           tr = (if ret = 0 then tr @ [Sendto fd ping (sun_path t)] else tr);
                           ret = (if ret = 0 \<and> \<not> pe_send e then 1 else ret)
                       in bindR (if ret = 0
                                 then (case pe_recv e of
                                         None \<Rightarrow> Inr (1, pe_stack e, t)
                                       | Some (d, from) \<Rightarrow>
                                           bindR (poke 0 (take GREASE_CLIENT_PING_SIZE d) (pe_stack e)) (\<lambda>b.
                                             Inr (0, b, t\<lparr>sun_path := from\<rparr>)))
                                 else Inr (ret, pe_stack e, t)) (\<lambda>(ret, b, t).
                          bindR (if ret = 0
                                 then bindR (IS_SINK_PING_ACK 0 b) (\<lambda>ack. Inr (if ack then 0 else 1))
                                 else Inr ret) (\<lambda>ret.
                            Inr (ret, tr @ [Unlink path, Close fd, Rmdir dir], t))))"

definition SINK_NO_PING :: u32 where "SINK_NO_PING = 1"

text \<open>The set-up of a thread: \<open>fd\<close> is the new socket, \<open>sbs\<close> the buffer size the system tells.\<close>

definition setup_message :: "tls \<Rightarrow> tls res" where
  "setup_message t =
     bindR (poke 0 (le_encode 4 SINK_LOG_PREAMBLE) (hdr_buf t)) (\<lambda>h.
       Inr (t\<lparr>msg_name := True, msg_iovlen := SINK_BUFFERS_N, hdr_buf := h,
              iov := [\<lparr>iov_base = HeaderBuffer, iov_len = GREASE_CLIENT_HEADER_SIZE\<rparr>,
                      \<lparr>iov_base = MetaBuffer, iov_len = SIZEOF_LOGMETA\<rparr>,
                      \<lparr>iov_base = NullBase, iov_len = 0\<rparr>]\<rparr>))"

definition setup_sink_dgram_socket ::
    "int \<Rightarrow> int \<Rightarrow> int \<Rightarrow> ping_env \<Rightarrow> bytes option \<Rightarrow> u32 \<Rightarrow> tls \<Rightarrow> (int \<times> oscall list \<times> tls) res" where
  "setup_sink_dgram_socket tid fd sbs e path opts t =
     (let t = t\<lparr>err_cnt := 0\<rparr>
      in if my_tid t = tid then Inr (0, [], t)
         else
           let t = t\<lparr>sink_fd := fd\<rparr>;
               p = (case path of Some p \<Rightarrow> p | None \<Rightarrow> GREASE_DEFAULT_SINK_PATH)
           in if fd \<ge> 0 \<and> SUN_PATH_SIZE < length p + 1 then Inl OutOfBounds
              else
                let t = (if fd \<ge> 0 then t\<lparr>sun_path := p\<rparr> else t);
                    t = t\<lparr>send_buf_size := sbs\<rparr>
                in if sbs < 100 then Inr (1, [], t)
                   else bindR (setup_message t) (\<lambda>t.
                     if opts AND SINK_NO_PING \<noteq> 0 then Inr (0, [], t\<lparr>my_tid := tid\<rparr>)
                     else bindR (ping_sink e t) (\<lambda>(r, tr, t).
                       if r = 0 then Inr (0, tr, t\<lparr>my_tid := tid\<rparr>) else Inr (1, tr, t))))"

section \<open>The public calls\<close>

definition grease_getConnectivityMethod :: "client \<Rightarrow> int" where
  "grease_getConnectivityMethod c =
     (if grease_log c = Some LogToSink then GREASE_VIA_SINK
      else if grease_log c = None then GREASE_NO_CONNECTION
      else if grease_log c = map_option LocalLog (local_log c) then GREASE_VIA_LOCAL
      else 999)"

definition grease_get_default_origin :: "u32 \<Rightarrow> u32" where
  "grease_get_default_origin pid = pid OR 0x15000000"

text \<open>What the system answers to an initialisation.\<close>

record init_env =
  ie_pid :: u32
  ie_objs :: "loaded list"
  ie_tid :: int
  ie_fd :: int
  ie_sbs :: int
  ie_ping :: ping_env

definition use_local :: "client \<Rightarrow> client" where
  "use_local c = c\<lparr>grease_log := map_option LocalLog (local_log c)\<rparr>"

definition use_sink :: "init_env \<Rightarrow> u32 \<Rightarrow> client \<Rightarrow> tls \<Rightarrow> (grease_result \<times> oscall list \<times> client \<times> tls) res" where
  "use_sink e opts c t =
     bindR (setup_sink_dgram_socket (ie_tid e) (ie_fd e) (ie_sbs e) (ie_ping e) None opts t) (\<lambda>(r, tr, t).
       if r = 0 then Inr (GREASE_OK, tr, c\<lparr>grease_log := Some LogToSink\<rparr>, t)
       else Inr (GREASE_FAILED, tr, c\<lparr>grease_log := None\<rparr>, t))"

definition grease_initLogger :: "init_env \<Rightarrow> client \<Rightarrow> tls \<Rightarrow> (grease_result \<times> oscall list \<times> client \<times> tls) res" where
  "grease_initLogger e c t =
     (let c = c\<lparr>default_origin := grease_get_default_origin (ie_pid e)\<rparr>
      in if found_module c \<noteq> MODULE_SEARCH_NOT_RAN
         then (if found_module c \<noteq> 0 then Inr (GREASE_OK, [], use_local c, t) else use_sink e 0 c t)
         else let c = check_grease_symbols (ie_objs e) c
              in if found_module c \<noteq> 0 then Inr (GREASE_OK, [], use_local c, t) else use_sink e 0 c t)"

definition grease_fastInitLogger ::
    "init_env \<Rightarrow> client \<Rightarrow> tls \<Rightarrow> (grease_result \<times> oscall list \<times> client \<times> tls) res" where
  "grease_fastInitLogger e c t =
     (let c = check_grease_symbols (ie_objs e) c
      in if found_module c \<noteq> 0 then Inr (GREASE_OK, [], use_local c, t) else use_sink e SINK_NO_PING c t)"

definition grease_shutdown :: "client \<Rightarrow> tls \<Rightarrow> oscall list" where
  "grease_shutdown c t = (if grease_log c = Some LogToSink then [Close (sink_fd t)] else [])"

section \<open>What a set-up thread sends\<close>

definition tls_ready :: "tls \<Rightarrow> bool" where
  "tls_ready t \<longleftrightarrow> msg_name t \<and> msg_iovlen t = SINK_BUFFERS_N \<and> length (hdr_buf t) = GREASE_CLIENT_HEADER_SIZE \<and>
     take 4 (hdr_buf t) = le_encode 4 SINK_LOG_PREAMBLE \<and>
     (\<exists>b v. iov t = [\<lparr>iov_base = HeaderBuffer, iov_len = GREASE_CLIENT_HEADER_SIZE\<rparr>, \<lparr>iov_base = b, iov_len = SIZEOF_LOGMETA\<rparr>, v])"

lemma tls_ready_upd [simp]:
  "tls_ready (t\<lparr>err_cnt := n\<rparr>) = tls_ready t" "tls_ready (t\<lparr>my_tid := i\<rparr>) = tls_ready t"
  "tls_ready (t\<lparr>sun_path := p\<rparr>) = tls_ready t" "tls_ready (t\<lparr>logstr := b\<rparr>) = tls_ready t"
  by (simp_all add: tls_ready_def)

text \<open>The thread's variables once \<open>grease_logToSink\<close> has filled in a message.\<close>

definition with_message :: "u32 \<Rightarrow> logMeta \<Rightarrow> bytes \<Rightarrow> tls \<Rightarrow> tls" where
  "with_message len f s t =
     t\<lparr>hdr_buf := frame_header (len + word_of_nat SIZEOF_LOGMETA),
       iov := [\<lparr>iov_base = HeaderBuffer, iov_len = GREASE_CLIENT_HEADER_SIZE\<rparr>,
               \<lparr>iov_base = MetaPtr f, iov_len = SIZEOF_LOGMETA\<rparr>, \<lparr>iov_base = StrPtr s, iov_len = unat len\<rparr>]\<rparr>"

lemma with_message_ready: "tls_ready t \<Longrightarrow> tls_ready (with_message len f s t)"
  by (simp add: tls_ready_def with_message_def frame_header_def size_consts)

lemma with_message_simps [simp]:
  "sink_fd (with_message len f s t) = sink_fd t" "sun_path (with_message len f s t) = sun_path t"
  "err_cnt (with_message len f s t) = err_cnt t" "my_tid (with_message len f s t) = my_tid t"
  "msg_name (with_message len f s t) = msg_name t" "msg_iovlen (with_message len f s t) = msg_iovlen t"
  by (simp_all add: with_message_def)

lemma sendmsg_with_message:
  assumes "tls_ready t" "wf_meta f" "unat len \<le> length s"
  shows "sendmsg_call send (with_message len f s t) w =
    send (sink_fd t) (Some (sun_path t)) (frame f (take (unat len) s)) w"
proof -
  have "word_of_nat (unat len + SIZEOF_LOGMETA) = len + word_of_nat SIZEOF_LOGMETA" by simp
  then have "gather (with_message len f s t) (iov (with_message len f s t)) = Inr (Some (frame f (take (unat len) s)))"
    using assms(2,3) by (simp add: with_message_def iov_data_def peek_def frame_def del: of_nat_add)
  moreover have "length (iov (with_message len f s t)) = SINK_BUFFERS_N"
    by (simp add: with_message_def SINK_BUFFERS_N_def)
  ultimately show ?thesis using assms(1) by (simp add: sendmsg_call_def tls_ready_def)
qed

lemma set_size_ready:
  assumes "tls_ready t"
  shows "SET_SIZE_IN_HEADER (hdr_buf t) n = Inr (frame_header n)"
  using assms by (simp add: tls_ready_def SET_SIZE_IN_HEADER_def poke_def frame_header_def size_consts)

lemma logToSink_ready:
  assumes "tls_ready t" "wf_meta f" "unat len \<le> length s"
  shows "grease_logToSink send f s len c t w =
    bindR (send (sink_fd t) (Some (sun_path t)) (frame (f\<lparr>origin := default_origin c\<rparr>) (take (unat len) s)) w) (\<lambda>(r, w).
      let f = f\<lparr>origin := default_origin c\<rparr>; t = with_message len f s t
      in if r < 0
         then Inr (GREASE_SINK_FAILURE, f, if err_cnt t + 1 > SINK_MAX_ERRORS then c\<lparr>grease_log := None\<rparr> else c,
                   t\<lparr>err_cnt := err_cnt t + 1\<rparr>, w)
         else Inr (GREASE_OK, f, c, t, w))"
proof -
  define g where "g = f\<lparr>origin := default_origin c\<rparr>"
  have wf: "wf_meta g" using assms(2) by (simp add: g_def wf_meta_def)
  obtain b v where "iov t = [\<lparr>iov_base = HeaderBuffer, iov_len = GREASE_CLIENT_HEADER_SIZE\<rparr>, \<lparr>iov_base = b, iov_len = SIZEOF_LOGMETA\<rparr>, v]"
    using assms(1) by (auto simp: tls_ready_def)
  then have "t\<lparr>hdr_buf := frame_header (len + word_of_nat SIZEOF_LOGMETA),
      iov := (iov t)[1 := (iov t ! 1)\<lparr>iov_base := MetaPtr g\<rparr>, 2 := \<lparr>iov_base = StrPtr s, iov_len = unat len\<rparr>]\<rparr> =
    with_message len g s t"
    by (simp add: with_message_def numeral_2_eq_2)
  then show ?thesis
    unfolding grease_logToSink_def set_size_ready [OF assms(1)] g_def [symmetric] bindR_simps Let_def
    by (simp only: sendmsg_with_message [OF assms(1) wf assms(3)] with_message_simps)
      (simp cong: if_cong)
qed

lemma setup_message_ready:
  assumes "length (hdr_buf t) = GREASE_CLIENT_HEADER_SIZE"
  obtains t1 where "setup_message t = Inr t1" "tls_ready t1" "sink_fd t1 = sink_fd t" "err_cnt t1 = err_cnt t"
    "sun_path t1 = sun_path t"
  using assms by (simp add: setup_message_def poke_def tls_ready_def size_consts SINK_BUFFERS_N_def)

lemma ping_sink_keeps:
  assumes "ping_sink e t = Inr (r, tr, t')"
  shows "\<exists>p. t' = t\<lparr>sun_path := p\<rparr>"
proof -
  have "\<exists>p. t = t\<lparr>sun_path := p\<rparr>" by (rule exI [of _ "sun_path t"]) simp
  with assms show ?thesis
    by (auto simp: ping_sink_def Let_def bindR_eq_Inr split: if_splits option.splits prod.splits)
qed

lemma setup_ready:
  assumes "setup_sink_dgram_socket tid fd sbs e path opts t = Inr (0, tr, t')" "my_tid t \<noteq> tid"
    and "length (hdr_buf t) = GREASE_CLIENT_HEADER_SIZE"
  shows "tls_ready t' \<and> sink_fd t' = fd \<and> err_cnt t' = 0 \<and> my_tid t' = tid"
proof -
  define p where "p = (case path of Some p \<Rightarrow> p | None \<Rightarrow> GREASE_DEFAULT_SINK_PATH)"
  define t0 where "t0 = t\<lparr>err_cnt := 0, sink_fd := fd\<rparr>"
  define t1 where "t1 = (if fd \<ge> 0 then t0\<lparr>sun_path := p\<rparr> else t0)\<lparr>send_buf_size := sbs\<rparr>"
  have h: "length (hdr_buf t1) = GREASE_CLIENT_HEADER_SIZE" "sink_fd t1 = fd" "err_cnt t1 = 0"
    using assms(3) by (simp_all add: t1_def t0_def)
  obtain t2 where t2: "setup_message t1 = Inr t2" "tls_ready t2" "sink_fd t2 = fd" "err_cnt t2 = 0"
    using setup_message_ready [OF h(1)] h(2,3) by metis
  have "(if opts AND SINK_NO_PING \<noteq> 0 then Inr (0, [], t2\<lparr>my_tid := tid\<rparr>)
     else bindR (ping_sink e t2) (\<lambda>(r, tr, t).
       if r = 0 then Inr (0, tr, t\<lparr>my_tid := tid\<rparr>) else Inr (1, tr, t))) = Inr (0 :: int, tr, t')"
    using assms(1,2) t2(1) unfolding setup_sink_dgram_socket_def Let_def p_def [symmetric]
    by (simp add: t1_def t0_def split: if_splits)
  then show ?thesis
    using t2(2-4) by (auto simp: bindR_eq_Inr split: if_splits dest!: ping_sink_keeps)
qed

text \<open>Messages one after the other, as a thread logs them.\<close>

definition log_each :: "'w sendmsg \<Rightarrow> (logMeta \<times> bytes) list \<Rightarrow> client \<times> tls \<times> 'w \<Rightarrow> (client \<times> tls \<times> 'w) res" where
  "log_each send =
     foldR (\<lambda>(m, s) (c, t, w). bindR (grease_logToSink send m s (word_of_nat (length s)) c t w)
       (\<lambda>(_, _, c, t, w). Inr (c, t, w)))"

definition message_ok :: "logMeta \<times> bytes \<Rightarrow> bool" where
  "message_ok x \<longleftrightarrow> wf_meta (fst x) \<and> length (snd x) < 2 ^ 32"

lemma message_len: "length s < 2 ^ 32 \<Longrightarrow> unat (word_of_nat (length s) :: u32) = length s"
  by (simp add: unat_of_nat take_bit_nat_eq_self)

text \<open>After the set-up of a thread has succeeded, each message the thread logs leaves as one
  datagram through the thread's socket to the address of the sink: header, meta with the default
  origin, and text, in the order of the calls.\<close>

theorem client_sends_frames:
  assumes "setup_sink_dgram_socket tid fd sbs e path opts t = Inr (0, tr, t1)" "my_tid t \<noteq> tid"
    and "length (hdr_buf t) = GREASE_CLIENT_HEADER_SIZE" "\<forall>x \<in> set ms. message_ok x"
  shows "\<exists>t2. log_each (\<lambda>fd to d w. Inr (int (length d), w @ [(fd, to, d)])) ms (c, t1, w) =
    Inr (c, t2, w @ map (\<lambda>(m, s). (fd, Some (sun_path t1), frame (m\<lparr>origin := default_origin c\<rparr>) s)) ms)"
proof -
  have "\<exists>t2. log_each (\<lambda>fd to d w. Inr (int (length d), w @ [(fd, to, d)])) ms (c, t1, w) =
      Inr (c, t2, w @ map (\<lambda>(m, s). (fd, Some (sun_path t1), frame (m\<lparr>origin := default_origin c\<rparr>) s)) ms)"
    if "tls_ready t1" "sink_fd t1 = fd" for t1 w
    using assms(4) that
  proof (induction ms arbitrary: t1 w)
    case Nil
    then show ?case by (simp add: log_each_def)
  next
    case (Cons x ms)
    obtain m s where x: "x = (m, s)" by (cases x)
    define l :: u32 where "l = word_of_nat (length s)"
    have l: "unat l = length s" "wf_meta m"
      using Cons.prems(1) message_len [of s] by (simp_all add: message_ok_def x l_def)
    define t2 where "t2 = with_message l (m\<lparr>origin := default_origin c\<rparr>) s t1"
    have "tls_ready t2" "sink_fd t2 = fd" "sun_path t2 = sun_path t1"
      using Cons.prems with_message_ready by (simp_all add: t2_def)
    with Cons.IH [of t2 "w @ [(fd, Some (sun_path t1), frame (m\<lparr>origin := default_origin c\<rparr>) s)]"] Cons.prems
    show ?case
      using logToSink_ready [OF Cons.prems(2) l(2), of l s "\<lambda>fd to d w. Inr (int (length d), w @ [(fd, to, d)])" c w] l(1)
      by (simp add: log_each_def x l_def [symmetric] t2_def Let_def)
  qed
  then show ?thesis using setup_ready [OF assms(1-3)] by blast
qed

section \<open>Printing through the client\<close>

definition plain_text :: "bytes \<Rightarrow> bool" where
  "plain_text s \<longleftrightarrow> 0 \<notin> set s \<and> 37 \<notin> set s"

lemma format_plain_text: "plain_text s \<Longrightarrow> format_plain (s @ 0 # rest) = Inr s"
  by (induction s) (auto simp: plain_text_def)

lemma vsnprintf_text:
  assumes "length b = GREASE_C_MACRO_MAX_MESSAGE + 1"
  shows "\<exists>rest. vsnprintf_buf (Some s) b = Inr (take (GREASE_C_MACRO_MAX_MESSAGE - 1) s @ 0 # rest) \<and>
    length (take (GREASE_C_MACRO_MAX_MESSAGE - 1) s @ 0 # rest) = GREASE_C_MACRO_MAX_MESSAGE + 1"
  using assms by (auto simp: vsnprintf_buf_def poke_def GREASE_C_MACRO_MAX_MESSAGE_def)

lemma printf_len_text:
  assumes "length s < 2 ^ 31"
  shows "unat (printf_len (Some s)) = min (length s) GREASE_C_MACRO_MAX_MESSAGE"
proof -
  define n where "n = length s"
  have u: "unat (word_of_nat n :: u32) = n"
    using assms by (simp add: n_def unat_of_nat take_bit_nat_eq_self)
  then have "(word_of_nat n :: u32) > 250 \<longleftrightarrow> n > 250" by (simp add: word_less_nat_alt)
  then show ?thesis
    using assms u by (simp add: printf_len_def GREASE_C_MACRO_MAX_MESSAGE_def Let_def n_def [symmetric])
qed

text \<open>\<open>grease_printf\<close> passes a text shorter than 250 bytes on as it is; a longer one it cuts to
  250 bytes of which the last is the terminating NUL of its buffer. The text goes to the logger
  once, and to \<open>stderr\<close> only when the logger refuses it.\<close>

theorem grease_printf_text:
  assumes "grease_log c = Some (LocalLog a)" "length (logstr t) = GREASE_C_MACRO_MAX_MESSAGE + 1" "length s < 2 ^ 31"
  shows "\<exists>b. take (min (length s) 250) b = (if length s < 250 then s else take 249 s @ [0]) \<and>
    grease_printf send loc m (Some s) c t w =
      bindR (loc a m b (min (length s) 250) w) (\<lambda>(r, w).
        if r = GREASE_OK then Inr (GREASE_OK, None, m, c, t\<lparr>logstr := b\<rparr>, w)
        else bindR (print_stderr (t\<lparr>logstr := b\<rparr>)) (\<lambda>e. Inr (GREASE_OK, e, m, c, t\<lparr>logstr := b\<rparr>, w)))"
proof -
  obtain rest where v: "vsnprintf_buf (Some s) (logstr t) = Inr (take 249 s @ 0 # rest)"
    using vsnprintf_text [OF assms(2), of s] by (auto simp: GREASE_C_MACRO_MAX_MESSAGE_def)
  have "take (min (length s) 250) (take 249 s @ 0 # rest) = (if length s < 250 then s else take 249 s @ [0])"
    by (cases "length s < 250") (simp_all add: min_def)
  moreover have "unat (printf_len (Some s)) = min (length s) 250"
    using printf_len_text [OF assms(3)] by (simp add: GREASE_C_MACRO_MAX_MESSAGE_def)
  ultimately show ?thesis
    using assms(1) by (intro exI [of _ "take 249 s @ 0 # rest"])
      (simp add: grease_printf_def v call_log_def bindR_assoc split_beta' Let_def cong: if_cong)
qed

text \<open>Texts printed one after the other; what each sends to \<open>stderr\<close> is collected.\<close>

definition printf_each ::
    "'w sendmsg \<Rightarrow> 'w local_logger \<Rightarrow> (logMeta \<times> bytes) list \<Rightarrow> bytes option list \<times> client \<times> tls \<times> 'w \<Rightarrow>
       (bytes option list \<times> client \<times> tls \<times> 'w) res" where
  "printf_each send loc =
     foldR (\<lambda>(m, s) (es, c, t, w). bindR (grease_printf send loc m (Some s) c t w)
       (\<lambda>(_, e, _, c, t, w). Inr (es @ [e], c, t, w)))"

definition short_text :: "logMeta \<times> bytes \<Rightarrow> bool" where
  "short_text x \<longleftrightarrow> wf_meta (fst x) \<and> length (snd x) < GREASE_C_MACRO_MAX_MESSAGE \<and> plain_text (snd x)"

lemma short_buffer:
  assumes "length b = GREASE_C_MACRO_MAX_MESSAGE + 1" "length s < GREASE_C_MACRO_MAX_MESSAGE" "plain_text s"
  obtains b' where "vsnprintf_buf (Some s) b = Inr b'" "length b' = GREASE_C_MACRO_MAX_MESSAGE + 1"
    "take (length s) b' = s" "format_plain b' = Inr s"
proof -
  obtain rest where "vsnprintf_buf (Some s) b = Inr (s @ 0 # rest)"
    "length (s @ 0 # rest) = GREASE_C_MACRO_MAX_MESSAGE + 1"
    using vsnprintf_text [OF assms(1), of s] assms(2) by (auto simp: GREASE_C_MACRO_MAX_MESSAGE_def)
  then show thesis using that format_plain_text [OF assms(3)] by simp
qed

lemma printf_failing_send:
  assumes "tls_ready t" "length (logstr t) = GREASE_C_MACRO_MAX_MESSAGE + 1" "short_text (m, s)"
    and "grease_log c = Some LogToSink"
  shows "\<exists>m' t'. grease_printf (\<lambda>_ _ _ w. Inr (-1, w)) loc m (Some s) c t w =
      Inr (GREASE_OK, Some (s @ [10]), m', if err_cnt t + 1 > SINK_MAX_ERRORS then c\<lparr>grease_log := None\<rparr> else c, t', w) \<and>
    tls_ready t' \<and> err_cnt t' = err_cnt t + 1 \<and> length (logstr t') = GREASE_C_MACRO_MAX_MESSAGE + 1"
proof -
  have s: "wf_meta m" "length s < GREASE_C_MACRO_MAX_MESSAGE" "plain_text s"
    using assms(3) by (simp_all add: short_text_def)
  obtain b where b: "vsnprintf_buf (Some s) (logstr t) = Inr b" "length b = GREASE_C_MACRO_MAX_MESSAGE + 1"
    "take (length s) b = s" "format_plain b = Inr s"
    using short_buffer [OF assms(2) s(2,3)] .
  have l: "unat (printf_len (Some s)) = length s"
    using printf_len_text [of s] s(2) by (simp add: GREASE_C_MACRO_MAX_MESSAGE_def)
  have len: "unat (printf_len (Some s)) \<le> length b" using s(2) b(2) l by simp
  define t2 where "t2 = (with_message (printf_len (Some s)) (m\<lparr>origin := default_origin c\<rparr>) b (t\<lparr>logstr := b\<rparr>))
    \<lparr>err_cnt := err_cnt t + 1\<rparr>"
  have t2: "tls_ready t2" "err_cnt t2 = err_cnt t + 1" "logstr t2 = b"
    using with_message_ready [of "t\<lparr>logstr := b\<rparr>"] assms(1) by (simp_all add: t2_def) (simp add: with_message_def)
  have "grease_printf (\<lambda>_ _ _ w. Inr (-1, w)) loc m (Some s) c t w =
      Inr (GREASE_OK, Some (s @ [10]), m\<lparr>origin := default_origin c\<rparr>,
        if err_cnt t + 1 > SINK_MAX_ERRORS then c\<lparr>grease_log := None\<rparr> else c, t2, w)"
    using logToSink_ready [of "t\<lparr>logstr := b\<rparr>", OF _ s(1) len, of "\<lambda>_ _ _ w. Inr (-1, w)" c w] assms(1,4) b t2(3)
    by (simp add: grease_printf_def call_log_def Let_def print_stderr_def t2_def)
  then show ?thesis using t2 b(2) by blast
qed

lemma printf_no_logger:
  assumes "length (logstr t) = GREASE_C_MACRO_MAX_MESSAGE + 1" "short_text (m, s)" "grease_log c = None"
  shows "\<exists>t'. grease_printf send loc m (Some s) c t w = Inr (GREASE_OK, Some (s @ [10]), m, c, t', w) \<and>
    length (logstr t') = GREASE_C_MACRO_MAX_MESSAGE + 1"
proof -
  obtain b where b: "vsnprintf_buf (Some s) (logstr t) = Inr b" "length b = GREASE_C_MACRO_MAX_MESSAGE + 1"
    "format_plain b = Inr s"
    using assms(1,2) short_buffer [of "logstr t" s] by (auto simp: short_text_def)
  then show ?thesis using assms(3) by (simp add: grease_printf_def Let_def print_stderr_def)
qed

lemma printf_each_failing:
  assumes "\<forall>x \<in> set ms. short_text x" "length (logstr t) = GREASE_C_MACRO_MAX_MESSAGE + 1"
    and "grease_log c = None \<or> grease_log c = Some LogToSink \<and> tls_ready t \<and> err_cnt t = int k \<and> k \<le> 10"
  shows "\<exists>t'. printf_each (\<lambda>_ _ _ w. Inr (-1, w)) loc ms (es, c, t, w) =
    Inr (es @ map (\<lambda>(_, s). Some (s @ [10])) ms,
         if grease_log c = Some LogToSink \<and> k + length ms > 10 then c\<lparr>grease_log := None\<rparr> else c, t', w)"
  using assms
proof (induction ms arbitrary: es c t k)
  case Nil
  then show ?case by (auto simp: printf_each_def)
next
  case (Cons x ms)
  obtain m s where x: "x = (m, s)" by (cases x)
  have st: "short_text (m, s)" "\<forall>x \<in> set ms. short_text x" using Cons.prems(1) by (simp_all add: x)
  show ?case
  proof (cases "grease_log c")
    case None
    obtain t' where "grease_printf (\<lambda>_ _ _ w. Inr (-1, w)) loc m (Some s) c t w = Inr (GREASE_OK, Some (s @ [10]), m, c, t', w)"
      "length (logstr t') = GREASE_C_MACRO_MAX_MESSAGE + 1"
      using printf_no_logger [OF Cons.prems(2) st(1) None, of "\<lambda>_ _ _ w. Inr (-1, w)" loc w] by blast
    then show ?thesis
      using Cons.IH [OF st(2), of t' c k "es @ [Some (s @ [10])]"] None by (simp add: printf_each_def x)
  next
    case Some
    then have c: "grease_log c = Some LogToSink" "tls_ready t" "err_cnt t = int k" "k \<le> 10"
      using Cons.prems(3) by simp_all
    define c' where "c' = (if err_cnt t + 1 > SINK_MAX_ERRORS then c\<lparr>grease_log := None\<rparr> else c)"
    obtain m' t' where p: "grease_printf (\<lambda>_ _ _ w. Inr (-1, w)) loc m (Some s) c t w =
        Inr (GREASE_OK, Some (s @ [10]), m', c', t', w)"
      and t': "tls_ready t'" "err_cnt t' = int (Suc k)" "length (logstr t') = GREASE_C_MACRO_MAX_MESSAGE + 1"
      using printf_failing_send [OF c(2) Cons.prems(2) st(1) c(1), of loc w] c(3) by (auto simp: c'_def)
    have e: "c' = (if k = 10 then c\<lparr>grease_log := None\<rparr> else c)" using c(3,4) by (simp add: c'_def SINK_MAX_ERRORS_def)
    have "grease_log c' = None \<or> grease_log c' = Some LogToSink \<and> tls_ready t' \<and> err_cnt t' = int (Suc k) \<and> Suc k \<le> 10"
      using c(1,4) t' by (auto simp: e)
    from Cons.IH [OF st(2) t'(3) this, of "es @ [Some (s @ [10])]"] c(1,4) show ?thesis
      by (auto simp: printf_each_def x p e split: if_splits)
  qed
qed

text \<open>C37 When every \<open>sendmsg\<close> fails, no text is lost: each goes to \<open>stderr\<close> with a line end, and
  the eleventh failure gives the sink up for the whole process, no earlier one does.\<close>

theorem sink_failures_fall_back:
  assumes "tls_ready t" "err_cnt t = 0" "grease_log c = Some LogToSink"
    and "length (logstr t) = GREASE_C_MACRO_MAX_MESSAGE + 1" "\<forall>x \<in> set ms. short_text x"
  shows "\<exists>t' c'. printf_each (\<lambda>_ _ _ w. Inr (-1, w)) loc ms ([], c, t, w) =
      Inr (map (\<lambda>(_, s). Some (s @ [10])) ms, c', t', w) \<and>
    grease_getConnectivityMethod c' = (if length ms \<le> 10 then GREASE_VIA_SINK else GREASE_NO_CONNECTION)"
proof -
  have "grease_getConnectivityMethod (if 0 + length ms > 10 then c\<lparr>grease_log := None\<rparr> else c) =
      (if length ms \<le> 10 then GREASE_VIA_SINK else GREASE_NO_CONNECTION)"
    using assms(3) by (simp add: grease_getConnectivityMethod_def)
  then show ?thesis
    using printf_each_failing [OF assms(5,4), of c 0 loc "[]" w] assms(1-3) by auto
qed

section \<open>Setting up and shutting down\<close>

text \<open>The ping removes its socket file twice and leaves by one of three ways: without a directory
  it never closes its socket, after a failed \<open>bind\<close> it closes it twice, else once.\<close>

theorem ping_sink_closes:
  assumes "ping_sink e t = Inr (r, tr, t')" "0 \<le> pe_fd e" "length (pe_stack e) = 4"
  shows "count_list tr (Close (pe_fd e)) = (if pe_dir e = None then 0 else if pe_bind e then 1 else 2) \<and>
    (r = 0 \<longleftrightarrow> pe_dir e \<noteq> None \<and> pe_bind e \<and> pe_send e \<and>
      (\<exists>d from. pe_recv e = Some (d, from) \<and>
        take 4 d @ drop (length d) (pe_stack e) = le_encode 4 SINK_LOG_PING_ACK))"
proof -
  have "drop (min n 4) (pe_stack e) = drop n (pe_stack e)" for n
    using assms(3) by (simp add: min_def)
  with assms show ?thesis
    by (auto simp: ping_sink_def Let_def bindR_eq_Inr IS_SINK_PING_ACK_def mem_is_def peek_def poke_def size_consts
        split: if_splits option.splits prod.splits)
qed

lemma setup_marks:
  assumes "setup_sink_dgram_socket tid fd sbs e path opts t = Inr (0, tr, t')"
  shows "my_tid t' = tid"
  using assms by (auto simp: setup_sink_dgram_socket_def Let_def bindR_eq_Inr split: if_splits)

lemma use_sink_ok:
  assumes "use_sink e opts c t = Inr (r, tr, c', t')" "grease_log c' = Some LogToSink"
  shows "r = GREASE_OK \<and> my_tid t' = ie_tid e \<and> found_module c' = found_module c"
  using assms by (auto simp: use_sink_def bindR_eq_Inr dest: setup_marks split: if_splits)

lemma init_via_sink:
  assumes "grease_initLogger e c t = Inr (r, tr, c', t')" "grease_log c' = Some LogToSink"
  shows "my_tid t' = ie_tid e \<and> found_module c' = 0"
  using assms
  by (auto simp: grease_initLogger_def Let_def use_local_def dest!: use_sink_ok split: if_splits)

text \<open>A thread that shuts the client down and sets it up again is told it is connected though no
  socket is opened and no logger asked: it keeps the descriptor it has closed.\<close>

theorem reinit_keeps_closed_socket:
  assumes "grease_initLogger e c t = Inr (r, tr, c1, t1)" "grease_log c1 = Some LogToSink" "ie_tid e2 = ie_tid e"
  shows "grease_shutdown c1 t1 = [Close (sink_fd t1)] \<and>
    (\<exists>c2 t2. grease_initLogger e2 c1 t1 = Inr (GREASE_OK, [], c2, t2) \<and> sink_fd t2 = sink_fd t1 \<and>
      grease_getConnectivityMethod c2 = GREASE_VIA_SINK)"
  using init_via_sink [OF assms(1,2)] assms(2,3)
  by (simp add: grease_shutdown_def grease_initLogger_def use_sink_def setup_sink_dgram_socket_def
      grease_getConnectivityMethod_def MODULE_SEARCH_NOT_RAN_def)

end
