(* ===== verification/EndToEnd.thy ===== *)
theory EndToEnd
  imports Client SinkExamples
begin

text \<open>
  The client and the logger put together: what a thread prints with \<open>grease_printf\<close> goes
  through its socket, the sink's loop and \<open>logFromRaw\<close> into the logger's queue. Then the
  theorems on the client at concrete inputs.
\<close>

section \<open>The client and the sink together\<close>

text \<open>A \<open>sendmsg\<close> whose datagram the sink takes at once, with the logger as the state.\<close>

definition sink_takes :: "nat \<Rightarrow> nat \<Rightarrow> bytes \<Rightarrow> bytes \<Rightarrow> int \<Rightarrow> 'z owner_scheme sendmsg" where
  "sink_takes fuel rbs hdr tmp n fd to d st =
     (case listen_datagram fuel rbs hdr tmp n d of
        None \<Rightarrow> Inl WouldBlock
      | Some r \<Rightarrow> bindR r (\<lambda>(es, _). bindR (foldR deliver es st) (\<lambda>st. Inr (int (length d), st))))"

text \<open>The local logger: \<open>grease_logLocal\<close> of logger.cc, which calls \<open>log\<close>.\<close>

definition grease_logLocal :: "'z owner_scheme local_logger" where
  "grease_logLocal a f s len st = log_public f no_ignores s len st"

lemma printed_text:
  assumes client: "setup_sink_dgram_socket tid fd sbs e path opts t0 = Inr (0, tr, t)" "my_tid t0 \<noteq> tid"
      "length (hdr_buf t0) = GREASE_CLIENT_HEADER_SIZE" "grease_log c = Some LogToSink"
      "length (logstr t) = GREASE_C_MACRO_MAX_MESSAGE + 1"
    and msg: "wf_meta m" "\<not> META_HAS_IGNORES m" "s \<noteq> []" "length s < GREASE_C_MACRO_MAX_MESSAGE"
    and bufs: "400 \<le> rbs" "length hdr = GREASE_CLIENT_HEADER_SIZE" "length tmp = GREASE_MAX_MESSAGE_SIZE" "700 \<le> fuel"
    and st: "sift st (m\<lparr>origin := default_origin c\<rparr>) = (True, m')" "masters_ok st" "250 \<le> bufferSize st"
    and room: "items (masterBufferAvail st) = a # as"
      "length (items (internalCmdQueue st)) < capacity (internalCmdQueue st)"
  shows "\<exists>t' st' l. grease_printf (sink_takes fuel rbs hdr tmp n) loc m (Some s) c t st =
      Inr (GREASE_OK, None, m\<lparr>origin := default_origin c\<rparr>, c, t', st') \<and>
    logs st' a = Some l \<and> heapBuf_text (buf l) = s \<and> emeta (smeta l) = m' \<and>
    tag m' = tag m \<and> level m' = level m \<and> origin m' = default_origin c \<and>
    items (internalCmdQueue st') = items (internalCmdQueue st) @ [(internalCmdReq_new NEW_LOG 0)\<lparr>icmd_aux := Some a\<rparr>]"
proof -
  define g where "g = m\<lparr>origin := default_origin c\<rparr>"
  have g: "wf_meta g" "\<not> META_HAS_IGNORES g" using msg(1,2) by (simp_all add: g_def wf_meta_def META_HAS_IGNORES_def)
  have short: "length s < 250" using msg(4) by (simp add: GREASE_C_MACRO_MAX_MESSAGE_def)
  have lf: "length (frame g s) = 88 + length s"
    using length_frame [OF g(1)] by (simp add: size_consts SIZEOF_LOGMETA_def)
  have sizes: "length (frame g s) + GREASE_CLIENT_HEADER_SIZE \<le> rbs" "2 * length (frame g s) + 2 \<le> fuel"
    "length s \<le> GREASE_MAX_MESSAGE_SIZE" "length s \<le> bufferSize st"
    using bufs short st(3) by (simp_all add: lf size_consts)
  obtain es u st' l where S: "listen_datagram fuel rbs hdr tmp n (frame g s) = Some (Inr (es, u))"
    "foldR deliver es st = Inr st'" "logs st' a = Some l" "heapBuf_text (buf l) = s" "emeta (smeta l) = m'"
    "items (internalCmdQueue st') = items (internalCmdQueue st) @ [(internalCmdReq_new NEW_LOG 0)\<lparr>icmd_aux := Some a\<rparr>]"
    using sent_message [OF g(1) msg(3) _ sizes(1,3) bufs(2,3) sizes(2) st(1) [folded g_def] st(2) sizes(4) room, of n] g(2)
    by blast
  obtain b where b: "vsnprintf_buf (Some s) (logstr t) = Inr b" "length b = GREASE_C_MACRO_MAX_MESSAGE + 1" "take (length s) b = s"
    using vsnprintf_text [OF client(5), of s] short by (auto simp: GREASE_C_MACRO_MAX_MESSAGE_def)
  have l: "unat (printf_len (Some s)) = length s" "unat (printf_len (Some s)) \<le> length b"
    using printf_len_text [of s] short b(2) by (simp_all add: GREASE_C_MACRO_MAX_MESSAGE_def)
  have ready: "tls_ready (t\<lparr>logstr := b\<rparr>)" using setup_ready [OF client(1-3)] by simp
  have "\<exists>t'. grease_printf (sink_takes fuel rbs hdr tmp n) loc m (Some s) c t st = Inr (GREASE_OK, None, g, c, t', st')"
    using logToSink_ready [OF ready msg(1) l(2), of "sink_takes fuel rbs hdr tmp n" c st] client(4) b l S(1,2)
    by (simp add: grease_printf_def call_log_def Let_def sink_takes_def g_def)
  then show ?thesis using S(3-) sift_keeps [OF st(1)] unfolding g_def by auto
qed

text \<open>C1 A text a program prints with \<open>grease_printf\<close> after the set-up of its thread lies, after
  its datagram is received, in a master buffer of the logger: the same text, the same tag and level,
  the client's default origin, queued behind what was queued before; \<open>stderr\<close> gets nothing.\<close>

theorem printed_text_is_queued:
  assumes client: "setup_sink_dgram_socket tid fd sbs e path opts t0 = Inr (0, tr, t)" "my_tid t0 \<noteq> tid"
      "length (hdr_buf t0) = GREASE_CLIENT_HEADER_SIZE" "grease_log c = Some LogToSink"
      "length (logstr t) = GREASE_C_MACRO_MAX_MESSAGE + 1"
    and msg: "wf_meta m" "\<not> META_HAS_IGNORES m" "s \<noteq> []" "length s < GREASE_C_MACRO_MAX_MESSAGE"
    and bufs: "400 \<le> rbs" "length hdr = GREASE_CLIENT_HEADER_SIZE" "length tmp = GREASE_MAX_MESSAGE_SIZE" "700 \<le> fuel"
    and st: "sift st (m\<lparr>origin := default_origin c\<rparr>) = (True, m')" "masters_ok st" "250 \<le> bufferSize st"
    and room: "items (masterBufferAvail st) = a # as"
      "length (items (internalCmdQueue st)) < capacity (internalCmdQueue st)"
  shows "\<exists>t' st' l. grease_printf (sink_takes fuel rbs hdr tmp n) loc m (Some s) c t st =
      Inr (GREASE_OK, None, m\<lparr>origin := default_origin c\<rparr>, c, t', st') \<and>
    logs st' a = Some l \<and> heapBuf_text (buf l) = s \<and> emeta (smeta l) = m' \<and>
    tag m' = tag m \<and> level m' = level m \<and> origin m' = default_origin c \<and>
    items (internalCmdQueue st') = items (internalCmdQueue st) @ [(internalCmdReq_new NEW_LOG 0)\<lparr>icmd_aux := Some a\<rparr>]"
  using printed_text [OF assms] by blast

section \<open>At concrete inputs\<close>

definition demo_ping :: ping_env where
  "demo_ping = \<lparr>pe_fd = 9, pe_dir = Some [47, 116], pe_bind = True, pe_send = True,
     pe_recv = Some (le_encode 4 SINK_LOG_PING_ACK, [47, 115]), pe_stack = [0, 0, 0, 0]\<rparr>"

definition demo_env :: init_env where
  "demo_env = \<lparr>ie_pid = 77, ie_objs = [], ie_tid = 5, ie_fd = 4, ie_sbs = 65536, ie_ping = demo_ping\<rparr>"

text \<open>A thread after its set-up.\<close>

definition demo_tls :: tls where
  "demo_tls = (case setup_sink_dgram_socket 5 4 65536 demo_ping (Some [47, 115]) 0 tls_init of
     Inr (_, _, t) \<Rightarrow> t | Inl _ \<Rightarrow> tls_init)"

lemma demo_setup:
  "setup_sink_dgram_socket 5 4 65536 demo_ping (Some [47, 115]) 0 tls_init =
     Inr (0, [Unlink [47, 116, 47, 112, 105, 110, 103], Sendto 9 ping [47, 115],
       Unlink [47, 116, 47, 112, 105, 110, 103], Close 9, Rmdir [47, 116]], demo_tls)"
  by code_simp

lemma demo_tls_facts: "my_tid tls_init \<noteq> 5" "length (hdr_buf tls_init) = GREASE_CLIENT_HEADER_SIZE"
  "length (logstr demo_tls) = GREASE_C_MACRO_MAX_MESSAGE + 1" "err_cnt demo_tls = 0" "sun_path demo_tls = [47, 115]"
  by code_simp+

definition demo_client :: client where
  "demo_client = client_init\<lparr>grease_log := Some LogToSink, default_origin := 0x1500004D\<rparr>"

lemma demo_client_simps [simp]: "grease_log demo_client = Some LogToSink" "default_origin demo_client = 0x1500004D"
  by (simp_all add: demo_client_def)

lemma client_sends_frames_witness:
  "\<exists>t2. log_each (\<lambda>fd to d w. Inr (int (length d), w @ [(fd, to, d)])) [(meta_info, [65]), (meta_warn, [66, 67])]
      (demo_client, demo_tls, []) =
    Inr (demo_client, t2, [(4, Some [47, 115], frame (meta_info\<lparr>origin := 0x1500004D\<rparr>) [65]),
      (4, Some [47, 115], frame (meta_warn\<lparr>origin := 0x1500004D\<rparr>) [66, 67])])"
  using client_sends_frames [OF demo_setup demo_tls_facts(1,2), of "[(meta_info, [65]), (meta_warn, [66, 67])]"
      demo_client "[]"] demo_tls_facts(5)
  by (simp add: message_ok_def meta_info_def meta_warn_def)

lemma grease_printf_text_witness:
  "\<exists>b. take 250 b = replicate 249 65 @ [0] \<and>
     grease_printf (\<lambda>_ _ _ w. Inr (0, w)) (\<lambda>_ _ s n w. Inr (GREASE_OK, w @ [take n s])) meta_info
       (Some (replicate 300 65)) (demo_client\<lparr>grease_log := Some (LocalLog 1)\<rparr>) demo_tls [] =
     Inr (GREASE_OK, None, meta_info, demo_client\<lparr>grease_log := Some (LocalLog 1)\<rparr>, demo_tls\<lparr>logstr := b\<rparr>,
       [replicate 249 65 @ [0]])"
  using grease_printf_text [of "demo_client\<lparr>grease_log := Some (LocalLog 1)\<rparr>" 1 demo_tls "replicate 300 65"
      "\<lambda>_ _ _ w. Inr (0, w)" "\<lambda>_ _ s n w. Inr (GREASE_OK, w @ [take n s])" meta_info "[]"] demo_tls_facts(3)
  by auto

lemma sink_failures_fall_back_witness:
  "\<exists>t' c'. printf_each (\<lambda>_ _ _ w. Inr (-1, w)) grease_logLocal (replicate 11 (meta_error, [66])) ([], demo_client, demo_tls, demo_masters) =
      Inr (replicate 11 (Some [66, 10]), c', t', demo_masters) \<and> grease_getConnectivityMethod c' = GREASE_NO_CONNECTION"
proof -
  have "tls_ready demo_tls" using setup_ready [OF demo_setup demo_tls_facts(1,2)] by simp
  then show ?thesis
    using sink_failures_fall_back [of demo_tls demo_client "replicate 11 (meta_error, [66])" grease_logLocal demo_masters]
      demo_tls_facts(3,4)
    by (simp add: short_text_def plain_text_def meta_error_def GREASE_C_MACRO_MAX_MESSAGE_def)
qed

lemma ping_sink_closes_witness:
  "\<exists>r tr t'. ping_sink (demo_ping\<lparr>pe_bind := False\<rparr>) demo_tls = Inr (r, tr, t') \<and> count_list tr (Close 9) = 2 \<and> r \<noteq> 0"
proof -
  obtain r tr t' where p: "ping_sink (demo_ping\<lparr>pe_bind := False\<rparr>) demo_tls = Inr (r, tr, t')"
    by (simp add: ping_sink_def Let_def demo_ping_def CLIENTPATH_SIZE_def GREASE_DEFAULT_PING_CLIENT_def)
  from ping_sink_closes [OF p] show ?thesis using p by (simp add: demo_ping_def)
qed

lemma reinit_keeps_closed_socket_witness:
  "\<exists>c1 t1 c2 t2. grease_shutdown c1 t1 = [Close 4] \<and>
     grease_initLogger demo_env c1 t1 = Inr (GREASE_OK, [], c2, t2) \<and> sink_fd t2 = 4"
proof -
  have "\<exists>tr c1 t1. grease_initLogger demo_env client_init tls_init = Inr (GREASE_OK, tr, c1, t1) \<and>
      grease_log c1 = Some LogToSink \<and> sink_fd t1 = 4"
  proof -
    have "(case grease_initLogger demo_env client_init tls_init of
        Inr (r, tr, c1, t1) \<Rightarrow> r = GREASE_OK \<and> grease_log c1 = Some LogToSink \<and> sink_fd t1 = 4 | Inl _ \<Rightarrow> False)"
      by code_simp
    then show ?thesis by (auto split: sum.splits)
  qed
  then obtain tr c1 t1 where "grease_initLogger demo_env client_init tls_init = Inr (GREASE_OK, tr, c1, t1)"
    "grease_log c1 = Some LogToSink" "sink_fd t1 = 4" by blast
  then show ?thesis using reinit_keeps_closed_socket [of demo_env client_init tls_init _ tr c1 t1 demo_env] by auto
qed

text \<open>A message for the logger of two free buffers.\<close>

definition demo_printed :: logMeta where
  "demo_printed = snd (sift demo_masters (meta_info\<lparr>origin := 0x1500004D\<rparr>))"

lemma demo_prints: "sift demo_masters (meta_info\<lparr>origin := 0x1500004D\<rparr>) = (True, demo_printed)"
proof -
  have "fst (sift demo_masters (meta_info\<lparr>origin := 0x1500004D\<rparr>)) = True"
    by (simp add: sift_fresh demo_masters_def demo_ow_def owner_init_def filters.defs no_filters_def Let_def
        meta_info_def default_meta_def META_HAS_CACHE_def level_defs split: option.split)
  then show ?thesis by (simp add: demo_printed_def prod_eq_iff)
qed

lemma demo_masters_room:
  "250 \<le> bufferSize demo_masters" "2 \<le> bufferSize demo_masters" "items (masterBufferAvail demo_masters) = [7, 8]"
  "length (items (internalCmdQueue demo_masters)) < capacity (internalCmdQueue demo_masters)"
  by (simp_all add: demo_masters_def demo_queues demo_ow_def owner_init_def filters.defs no_filters_def del: length_items)

lemma printed_text_is_queued_witness:
  "\<exists>t' st' l. grease_printf (sink_takes 700 400 (replicate 8 0) (replicate 65535 0) 9) grease_logLocal meta_info
       (Some [72, 105]) demo_client demo_tls demo_masters =
      Inr (GREASE_OK, None, meta_info\<lparr>origin := 0x1500004D\<rparr>, demo_client, t', st') \<and>
    logs st' 7 = Some l \<and> heapBuf_text (buf l) = [72, 105] \<and> origin (emeta (smeta l)) = 0x1500004D"
proof -
  have "wf_meta meta_info" "\<not> META_HAS_IGNORES meta_info"
    by (simp_all add: meta_info_def META_HAS_IGNORES_def) (simp add: default_meta_def)
  with printed_text_is_queued [OF demo_setup demo_tls_facts(1,2), of demo_client meta_info "[72, 105]" 400 "replicate 8 0"
      "replicate 65535 0" 700 demo_masters demo_printed 7 "[8]" 9 grease_logLocal]
  show ?thesis
    using demo_tls_facts(3) demo_prints demo_masters_ok demo_masters_room
    by (auto simp: size_consts GREASE_C_MACRO_MAX_MESSAGE_def simp del: length_items)
qed

definition demo_extras :: logMeta where "demo_extras = (default_meta 5 1)\<lparr>extras := 1\<rparr>"

lemma sent_ignores_come_from_text_witness:
  "\<exists>es t st' l. listen_datagram 600 400 (replicate 8 0) (replicate 65535 0) 9 (frame demo_extras [5, 0, 0, 0]) =
       Some (Inr (es, t)) \<and> foldR deliver es demo_masters = Inr st' \<and> logs st' 7 = Some l \<and>
     hd (ignore_list (smeta l)) = 5"
proof -
  define m' where "m' = snd (sift demo_masters demo_extras)"
  have "fst (sift demo_masters demo_extras) = True"
    by (simp add: sift_fresh demo_masters_def demo_ow_def owner_init_def filters.defs no_filters_def Let_def
        demo_extras_def default_meta_def META_HAS_CACHE_def split: option.split)
  then have s: "sift demo_masters demo_extras = (True, m')" by (simp add: m'_def prod_eq_iff)
  have x: "wf_meta demo_extras" "META_HAS_IGNORES demo_extras"
    by (simp_all add: demo_extras_def META_HAS_IGNORES_def wf_meta_def default_meta_def)
  have l: "length (frame demo_extras [5, 0, 0, 0]) = 92"
    by (simp add: length_frame x size_consts SIZEOF_LOGMETA_def)
  have "hd (map (\<lambda>i. field32 ([5, 0, 0, 0] @ replicate 48 0) (4 * i)) [0..<MAX_IGNORE_LIST + 1]) = 5"
    by code_simp
  with sent_ignores_come_from_text [OF x, of "[5, 0, 0, 0]" 400 "replicate 8 0" "replicate 65535 0" 600 demo_masters
      m' 7 "[8]" 9] l s demo_masters_ok demo_masters_room
  show ?thesis by (simp add: size_consts del: length_items upt_Suc) metis
qed

end
