(* ===== verification/JsLog.thy ===== *)
theory JsLog
  imports FilterApi Dispatch
begin

text \<open>
  The JavaScript entry points that log and act on targets (logger.cc): \<open>Log\<close>, \<open>LogSync\<close>,
  \<open>DisableTarget\<close>, \<open>EnableTarget\<close> and \<open>Flush\<close>. The static \<open>meta\<close> of \<open>Log\<close> lives on
  between calls: its \<open>logMeta\<close> is cleared each time, its \<open>ignore_list\<close> is not.
\<close>

section \<open>Arguments\<close>

definition toInt32 :: "jsval \<Rightarrow> int option" where
  "toInt32 v = (case v of JNum n \<Rightarrow> (if - (2 ^ 31) \<le> n \<and> n < 2 ^ 31 then Some n else None) | _ \<Rightarrow> None)"

text \<open>Argument \<open>i\<close> as a number, 0 when it is missing or none.\<close>

definition int_arg :: "jsval list \<Rightarrow> nat \<Rightarrow> u32" where
  "int_arg info i =
     (if length info > i then (case toInt32 (info ! i) of Some n \<Rightarrow> word_of_int n | None \<Rightarrow> 0) else 0)"

text \<open>The ignore list after \<open>ignores\<close> was looked at: \<open>old\<close> is what it held.\<close>

definition ignores_arg :: "(jsval \<Rightarrow> int) \<Rightarrow> jsval \<Rightarrow> u32 list \<Rightarrow> u32 list" where
  "ignores_arg num val old =
     (case val of
        JArray vs \<Rightarrow>
          let is = map (Uint32Value num) (take MAX_IGNORE_LIST vs)
          in is @ [0] @ drop (length is + 1) old
      | _ \<Rightarrow> (case toUint32 val of Some i \<Rightarrow> [i, 0] @ drop 2 old | None \<Rightarrow> old))"

text \<open>The meta of the call, and whether the arguments make a call at all.\<close>

definition log_args :: "jsval list \<Rightarrow> (bytes \<times> u32) option" where
  "log_args info =
     (if length info > 1
      then (case (toStr (info ! 0), toInt32 (info ! 1)) of
              (Some s, Some l) \<Rightarrow> Some (s, word_of_int l) | _ \<Rightarrow> None)
      else None)"

definition args_meta :: "jsval list \<Rightarrow> u32 \<Rightarrow> logMeta \<Rightarrow> logMeta" where
  "args_meta info lev m = m\<lparr>level := lev, tag := int_arg info 2, origin := int_arg info 3\<rparr>"

section \<open>The entry points\<close>

definition Log :: "(jsval \<Rightarrow> int) \<Rightarrow> jsval list \<Rightarrow> u32 list \<times> 'z owner_scheme \<Rightarrow> (u32 list \<times> 'z owner_scheme) res" where
  "Log num info = (\<lambda>(ig, st).
     case log_args info of
       None \<Rightarrow> Inr (ig, st)
     | Some (s, lev) \<Rightarrow>
         (case sift st (args_meta info lev noMetaData) of
            (False, _) \<Rightarrow> Inr (ig, st)
          | (True, m) \<Rightarrow>
              let (m, ig) = (if length info > 4 \<and> IsObject (info ! 4)
                             then (m\<lparr>extras := 1\<rparr>, ignores_arg num (jsGet (info ! 4) ''ignores'') ig)
                             else (m, ig))
              in bindR (log_internal m ig s (length s) st) (\<lambda>(_, st). Inr (ig, st))))"

text \<open>\<open>LogSync\<close>: its static \<open>meta\<close> is never cleared. The result is the new \<open>meta\<close> and what
  \<open>_logSync\<close>, which changes nothing, returned when it was called.\<close>

definition LogSync :: "jsval list \<Rightarrow> 'z owner_scheme \<Rightarrow> logMeta \<Rightarrow> logMeta \<times> grease_result option" where
  "LogSync info st m =
     (case log_args info of
        None \<Rightarrow> (m, None)
      | Some (s, lev) \<Rightarrow>
          (case sift st (args_meta info lev m) of
             (True, m) \<Rightarrow> (m, Some (logSync_internal (length s)))
           | (False, m) \<Rightarrow> (m, None)))"

definition set_writes :: "bool \<Rightarrow> jsval list \<Rightarrow> 'z logger_scheme \<Rightarrow> (bool \<times> 'z logger_scheme) res" where
  "set_writes off info st =
     (case (if length info > 0 then toUint32 (info ! 0) else None) of
        None \<Rightarrow> Inr (False, st)
      | Some i \<Rightarrow>
          (case find_target i st of
             None \<Rightarrow> Inr (False, st)
           | Some a \<Rightarrow> bindR (with_target a (\<lambda>st t. Inr (st, disableWrites off t)) st) (\<lambda>st. Inr (True, st))))"

definition DisableTarget :: "jsval list \<Rightarrow> 'z logger_scheme \<Rightarrow> (bool \<times> 'z logger_scheme) res" where
  "DisableTarget = set_writes True"

definition EnableTarget :: "jsval list \<Rightarrow> 'z logger_scheme \<Rightarrow> (bool \<times> 'z logger_scheme) res" where
  "EnableTarget = set_writes False"

definition Flush :: "jsval list \<Rightarrow> 'z logger_scheme \<Rightarrow> 'z logger_scheme res" where
  "Flush info st =
     (case (if length info > 1 then toUint32 (info ! 0) else None) of
        Some i \<Rightarrow> (case find_target i st of
                     Some a \<Rightarrow> with_target a (flushAll_target a True False) st
                   | None \<Rightarrow> Inr st)
      | None \<Rightarrow> flushAll False st)"

section \<open>Ignored targets\<close>

lemma ignore_scan_set: "ignore_scan n is t \<longleftrightarrow> t \<in> set (takeWhile (\<lambda>i. i \<noteq> 0) (take n is))"
  by (induction n "is" t rule: ignore_scan.induct) auto

lemma ignores_extras: "extras (emeta e) = 1 \<Longrightarrow>
    ignores e t \<longleftrightarrow> t \<in> set (takeWhile (\<lambda>i. i \<noteq> 0) (take MAX_IGNORE_LIST (ignore_list e)))"
  by (simp add: ignores_def META_HAS_IGNORES_def ignore_scan_set)

text \<open>An accepted call with extras, when there is a free buffer and room in the queue.\<close>

definition log_ready :: "'z owner_scheme \<Rightarrow> nat \<Rightarrow> nat \<Rightarrow> bool" where
  "log_ready st len a \<longleftrightarrow> masters_ok st \<and> len \<le> bufferSize st \<and> (\<exists>as. items (masterBufferAvail st) = a # as)"

lemma Log_extras:
  assumes "log_args info = Some (s, lev)" "sift st (args_meta info lev noMetaData) = (True, m)"
    and "length info > 4" "IsObject (info ! 4)" "log_ready st (length s) a"
  shows "\<exists>st' l. Log num info (ig, st) = Inr (ignores_arg num (jsGet (info ! 4) ''ignores'') ig, st') \<and>
    logs st' a = Some l \<and> heapBuf_text (buf l) = s \<and> emeta (smeta l) = m\<lparr>extras := 1\<rparr> \<and>
    ignore_list (smeta l) = ignores_arg num (jsGet (info ! 4) ''ignores'') ig"
proof -
  define ig' where "ig' = ignores_arg num (jsGet (info ! 4) ''ignores'') ig"
  have "\<exists>st'. log_internal (m\<lparr>extras := 1\<rparr>) ig' s (length s) st = Inr (GREASE_OK, st') \<and>
      (\<exists>l. logs st' a = Some l \<and> holds_entry (m\<lparr>extras := 1\<rparr>) ig' s l)"
    using log_internal_fits [of st "length s" s "m\<lparr>extras := 1\<rparr>" ig'] assms(5)
    by (auto simp: log_ready_def split: list.splits)
  then show ?thesis
    using assms(1-4) by (auto simp: Log_def ig'_def holds_entry_def META_HAS_IGNORES_def)
qed

text \<open>C39 A call of \<open>log\<close> from JavaScript with an array of targets to ignore: the text goes into the
  oldest free master buffer, and its entry ignores exactly the targets of the first ten places of the
  array up to the first that is 0.\<close>

theorem Log_ignores_array:
  assumes "log_args info = Some (s, lev)" "sift st (args_meta info lev noMetaData) = (True, m)"
    and "length info > 4" "jsGet (info ! 4) ''ignores'' = JArray vs" "log_ready st (length s) a"
  shows "\<exists>ig' st' l. Log num info (ig, st) = Inr (ig', st') \<and> logs st' a = Some l \<and>
    heapBuf_text (buf l) = s \<and> level (emeta (smeta l)) = lev \<and> tag (emeta (smeta l)) = int_arg info 2 \<and>
    (\<forall>t. ignores (smeta l) t \<longleftrightarrow> t \<in> set (takeWhile (\<lambda>i. i \<noteq> 0) (map (Uint32Value num) (take MAX_IGNORE_LIST vs))))"
proof -
  have obj: "IsObject (info ! 4)"
    using assms(4) by (auto simp: jsGet_def IsObject_def split: jsval.splits)
  obtain st' l where L: "Log num info (ig, st) = Inr (ignores_arg num (JArray vs) ig, st')"
    "logs st' a = Some l" "heapBuf_text (buf l) = s" "emeta (smeta l) = m\<lparr>extras := 1\<rparr>"
    "ignore_list (smeta l) = ignores_arg num (JArray vs) ig"
    using Log_extras [OF assms(1-3) obj assms(5), of num ig] assms(4) by auto
  define js where "js = map (Uint32Value num) (take MAX_IGNORE_LIST vs)"
  have "length js \<le> MAX_IGNORE_LIST" by (simp add: js_def)
  moreover have "ignore_list (smeta l) = js @ 0 # drop (length js + 1) ig"
    using L(5) by (simp add: ignores_arg_def js_def)
  ultimately have "takeWhile (\<lambda>i. i \<noteq> 0) (take MAX_IGNORE_LIST (ignore_list (smeta l))) = takeWhile (\<lambda>i. i \<noteq> 0) js"
    by (auto simp: takeWhile_append takeWhile_tail take_Cons split: nat.split
        intro: takeWhile_eq_all_conv [THEN iffD2, symmetric])
  then have "ignores (smeta l) t \<longleftrightarrow> t \<in> set (takeWhile (\<lambda>i. i \<noteq> 0) js)" for t
    using ignores_extras [of "smeta l" t] L(4) by simp
  moreover have "level (emeta (smeta l)) = lev" "tag (emeta (smeta l)) = int_arg info 2"
    using L(4) sift_keeps [OF assms(2)] by (simp_all add: args_meta_def)
  ultimately show ?thesis using L(1-3) unfolding js_def by blast
qed

text \<open>A call with an extras object that names no targets ignores those of an earlier call: the list
  of the static meta is taken as it was left.\<close>

theorem Log_keeps_old_ignores:
  assumes "log_args info = Some (s, lev)" "sift st (args_meta info lev noMetaData) = (True, m)"
    and "length info > 4" "IsObject (info ! 4)" "jsGet (info ! 4) ''ignores'' = JUndefined" "log_ready st (length s) a"
  shows "\<exists>st' l. Log num info (ig, st) = Inr (ig, st') \<and> logs st' a = Some l \<and> heapBuf_text (buf l) = s \<and>
    (\<forall>t. ignores (smeta l) t \<longleftrightarrow> t \<in> set (takeWhile (\<lambda>i. i \<noteq> 0) (take MAX_IGNORE_LIST ig)))"
proof -
  obtain st' l where L: "Log num info (ig, st) = Inr (ig, st')" "logs st' a = Some l" "heapBuf_text (buf l) = s"
    "emeta (smeta l) = m\<lparr>extras := 1\<rparr>" "ignore_list (smeta l) = ig"
    using Log_extras [OF assms(1-4,6), of num ig] assms(5) by (auto simp: ignores_arg_def toUint32_def)
  then show ?thesis using ignores_extras [of "smeta l"] by auto
qed

end
