(* ===== verification/ClientBinding.thy ===== *)
theory ClientBinding
  imports Client JsLog
begin

text \<open>
  The JavaScript client \<open>GreaseLoggerClient\<close> (client_logger.h, client_logger.cc) over the C
  client: its options, \<open>Start\<close> and \<open>Log\<close> with the callback for a failing sink. Callbacks
  are named by numbers; those a call makes are listed in order.
\<close>

record binding =
  show_errors :: bool
  callback_errors :: bool
  levelFilterOutMask_c :: u32
  defaultFilterOut_c :: bool
  maxSinkErrors :: int
  onSinkFailureCB :: "nat option"
  sinkErrorCount :: int
  greaseConnectMethod :: int
  sinkFailureNeedsCall :: bool

definition GreaseLoggerClient_new :: binding where
  "GreaseLoggerClient_new =
     \<lparr>show_errors = False, callback_errors = False, levelFilterOutMask_c = 0, defaultFilterOut_c = False,
      maxSinkErrors = SINK_MAX_ERRORS, onSinkFailureCB = None, sinkErrorCount = 0,
      greaseConnectMethod = GREASE_NO_CONNECTION, sinkFailureNeedsCall = False\<rparr>"

definition client_SetGlobalOpts :: "(jsval \<Rightarrow> int) \<Rightarrow> jsval list \<Rightarrow> binding \<Rightarrow> jsval js \<times> binding" where
  "client_SetGlobalOpts num info b =
     (if length info < 1 \<or> \<not> IsObject (jsArg info 0)
      then (Throw ''setGlobalOpts: bad parameters'', b)
      else
        let o' = jsArg info 0;
            m = Uint32Value num (jsGet o' ''levelFilterOutMask'');
            b = (if m \<noteq> 0 then b\<lparr>levelFilterOutMask_c := m\<rparr> else b);
            b = (case toBool (jsGet o' ''defaultFilterOut'') of
                   Some v \<Rightarrow> b\<lparr>defaultFilterOut_c := v\<rparr> | None \<Rightarrow> b);
            b = (case jsGet o' ''onSinkFailureCB'' of
                   JFunction f \<Rightarrow> b\<lparr>onSinkFailureCB := Some f\<rparr> | _ \<Rightarrow> b);
            b = (case toBool (jsGet o' ''show_errors'') of Some v \<Rightarrow> b\<lparr>show_errors := v\<rparr> | None \<Rightarrow> b);
            b = (case toBool (jsGet o' ''callback_errors'') of
                   Some v \<Rightarrow> b\<lparr>callback_errors := v\<rparr> | None \<Rightarrow> b)
        in (Return JUndefined, b))"

definition client_Start ::
    "init_env \<Rightarrow> binding \<Rightarrow> client \<Rightarrow> tls \<Rightarrow> (int \<times> oscall list \<times> binding \<times> client \<times> tls) res" where
  "client_Start e b c t =
     bindR (grease_initLogger e c t) (\<lambda>(r, tr, c, t).
       let b = (if r \<noteq> GREASE_OK then b\<lparr>sinkFailureNeedsCall := True\<rparr> else b);
           b = b\<lparr>greaseConnectMethod := grease_getConnectivityMethod c\<rparr>
       in Inr (result_code r, tr, b, c, t))"

text \<open>\<open>_log\<close>; \<open>loc\<close> is the local logger, which reads the ignore list behind the meta.\<close>

definition client_log ::
    "'w sendmsg \<Rightarrow> (u32 list \<Rightarrow> 'w local_logger) \<Rightarrow> logMeta \<Rightarrow> u32 list \<Rightarrow> bytes \<Rightarrow> client \<Rightarrow> tls \<Rightarrow> 'w \<Rightarrow>
       (grease_result \<times> client \<times> tls \<times> 'w) res" where
  "client_log send loc m ig s c t w =
     (case grease_log c of
        None \<Rightarrow> Inr (GREASE_FAILED, c, t, w)
      | Some fn \<Rightarrow> bindR (call_log send (loc ig) fn m s (word_of_nat (length s)) c t w) (\<lambda>(r, _, c, t, w).
                     Inr (r, c, t, w)))"

text \<open>What a failed call does to the binding, with the callbacks it makes.\<close>

definition after_failure :: "binding \<Rightarrow> nat list \<times> binding" where
  "after_failure b =
     (let (cs, b) = (case (sinkFailureNeedsCall b, onSinkFailureCB b) of
                       (True, Some f) \<Rightarrow> ([f], b\<lparr>sinkFailureNeedsCall := False\<rparr>) | _ \<Rightarrow> ([], b))
      in if greaseConnectMethod b = GREASE_VIA_SINK
         then let b = b\<lparr>sinkErrorCount := sinkErrorCount b + 1\<rparr>
              in if sinkErrorCount b > maxSinkErrors b
                 then (case onSinkFailureCB b of
                         Some f \<Rightarrow> (cs @ [f], b\<lparr>greaseConnectMethod := GREASE_NO_CONNECTION\<rparr>)
                       | None \<Rightarrow> (cs, b\<lparr>sinkFailureNeedsCall := True, greaseConnectMethod := GREASE_NO_CONNECTION\<rparr>))
                 else (cs, b)
         else (cs, b))"

type_synonym 'w binding_state = "nat list \<times> u32 list \<times> binding \<times> client \<times> tls \<times> 'w"

definition client_Log ::
    "(jsval \<Rightarrow> int) \<Rightarrow> 'w sendmsg \<Rightarrow> (u32 list \<Rightarrow> 'w local_logger) \<Rightarrow> jsval list \<Rightarrow> 'w binding_state \<Rightarrow> 'w binding_state res" where
  "client_Log num send loc info = (\<lambda>(cs, ig, b, c, t, w).
     case log_args info of
       None \<Rightarrow> Inr (cs, ig, b, c, t, w)
     | Some (s, lev) \<Rightarrow>
         let m = args_meta info lev noMetaData;
             (m, ig) = (if length info > 4 \<and> IsObject (info ! 4)
                        then (m\<lparr>extras := 1\<rparr>, ignores_arg num (jsGet (info ! 4) ''ignores'') ig)
                        else (m, ig))
         in bindR (client_log send loc m ig s c t w) (\<lambda>(r, c, t, w).
              if r = GREASE_OK then Inr (cs, ig, b, c, t, w)
              else let (cs', b) = after_failure b in Inr (cs @ cs', ig, b, c, t, w)))"

definition client_shutdown :: "client \<Rightarrow> tls \<Rightarrow> oscall list" where
  "client_shutdown c t = grease_shutdown c t"

section \<open>A sink that fails\<close>

text \<open>The connection is the sink's and set up, or given up.\<close>

definition sink_only :: "client \<Rightarrow> tls \<Rightarrow> bool" where
  "sink_only c t \<longleftrightarrow> grease_log c = None \<or> grease_log c = Some LogToSink \<and> tls_ready t"

lemma client_log_fails:
  assumes "sink_only c t" "wf_meta m" "length s < 2 ^ 32"
  shows "\<exists>r c' t'. client_log (\<lambda>_ _ _ w. Inr (-1, w)) loc m ig s c t w = Inr (r, c', t', w) \<and>
    r \<noteq> GREASE_OK \<and> sink_only c' t'"
proof (cases "grease_log c")
  case None
  then show ?thesis by (simp add: client_log_def sink_only_def)
next
  case (Some fn)
  then have c: "grease_log c = Some LogToSink" "tls_ready t" using assms(1) by (auto simp: sink_only_def)
  have l: "unat (word_of_nat (length s) :: u32) \<le> length s" using message_len [OF assms(3)] by simp
  show ?thesis
    using logToSink_ready [OF c(2) assms(2) l, of "\<lambda>_ _ _ w. Inr (-1, w)" c w] c
    by (auto simp: client_log_def call_log_def Let_def sink_only_def with_message_ready)
qed

lemma args_meta_wf: "wf_meta (args_meta info lev noMetaData)"
  by (simp add: args_meta_def wf_meta_def noMetaData_def default_meta_def)

definition call_ok :: "jsval list \<Rightarrow> bool" where
  "call_ok info \<longleftrightarrow> (case log_args info of Some (s, _) \<Rightarrow> length s < 2 ^ 32 | None \<Rightarrow> False)"

lemma client_Log_fails:
  assumes "sink_only c t" "call_ok info"
  shows "\<exists>ig' c' t'. client_Log num (\<lambda>_ _ _ w. Inr (-1, w)) loc info (cs, ig, b, c, t, w) =
      Inr (cs @ fst (after_failure b), ig', snd (after_failure b), c', t', w) \<and> sink_only c' t'"
proof -
  obtain s lev where a: "log_args info = Some (s, lev)" "length s < 2 ^ 32"
    using assms(2) by (auto simp: call_ok_def split: option.splits)
  define ex where "ex \<longleftrightarrow> length info > 4 \<and> IsObject (info ! 4)"
  define m where "m = (let m = args_meta info lev noMetaData in if ex then m\<lparr>extras := 1\<rparr> else m)"
  define ig' where "ig' = (if ex then ignores_arg num (jsGet (info ! 4) ''ignores'') ig else ig)"
  have "wf_meta m" using args_meta_wf [of info lev] by (simp add: m_def Let_def wf_meta_def)
  from client_log_fails [OF assms(1) this a(2), of loc ig' w]
  obtain r c' t' where r: "client_log (\<lambda>_ _ _ w. Inr (-1, w)) loc m ig' s c t w = Inr (r, c', t', w)" "r \<noteq> GREASE_OK"
    "sink_only c' t'" by blast
  have "client_Log num (\<lambda>_ _ _ w. Inr (-1, w)) loc info (cs, ig, b, c, t, w) =
      bindR (client_log (\<lambda>_ _ _ w. Inr (-1, w)) loc m ig' s c t w) (\<lambda>(r, c, t, w).
        if r = GREASE_OK then Inr (cs, ig', b, c, t, w)
        else let (cs', b) = after_failure b in Inr (cs @ cs', ig', b, c, t, w))"
    unfolding m_def ig'_def ex_def by (auto simp: client_Log_def a Let_def)
  then show ?thesis using r by (auto simp: Let_def split: prod.splits)
qed

lemma failing_calls:
  assumes "\<forall>info \<in> set calls. call_ok info" "sink_only c t" "onSinkFailureCB b = Some f" "\<not> sinkFailureNeedsCall b"
    and "maxSinkErrors b = 10" "greaseConnectMethod b = GREASE_VIA_SINK \<and> sinkErrorCount b = int k \<and> k \<le> 10 \<or>
      greaseConnectMethod b = GREASE_NO_CONNECTION \<and> k = 11"
  shows "\<exists>ig' b' c' t'. foldR (client_Log num (\<lambda>_ _ _ w. Inr (-1, w)) loc) calls (cs, ig, b, c, t, w) =
      Inr (cs @ (if k \<le> 10 \<and> k + length calls > 10 then [f] else []), ig', b', c', t', w)"
  using assms
proof (induction calls arbitrary: cs ig b c t k)
  case Nil
  then show ?case by simp
next
  case (Cons info calls)
  define b1 where "b1 = snd (after_failure b)"
  define k1 where "k1 = min (Suc k) 11"
  have b1: "onSinkFailureCB b1 = Some f" "\<not> sinkFailureNeedsCall b1" "maxSinkErrors b1 = 10"
    "greaseConnectMethod b1 = GREASE_VIA_SINK \<and> sinkErrorCount b1 = int k1 \<and> k1 \<le> 10 \<or>
      greaseConnectMethod b1 = GREASE_NO_CONNECTION \<and> k1 = 11"
    and cs1: "fst (after_failure b) = (if k = 10 then [f] else [])"
    using Cons.prems(3-6)
    by (auto simp: b1_def k1_def after_failure_def Let_def GREASE_VIA_SINK_def GREASE_NO_CONNECTION_def min_def
        split: option.splits)
  obtain ig1 c1 t1 where step: "client_Log num (\<lambda>_ _ _ w. Inr (-1, w)) loc info (cs, ig, b, c, t, w) =
      Inr (cs @ (if k = 10 then [f] else []), ig1, b1, c1, t1, w)" "sink_only c1 t1"
    using client_Log_fails [OF Cons.prems(2), of info num loc cs ig b w] Cons.prems(1) cs1 by (auto simp: b1_def)
  from Cons.IH [OF _ step(2) b1(1-4), of "cs @ (if k = 10 then [f] else [])" ig1] Cons.prems(1,6)
  show ?case by (auto simp: step k1_def min_def)
qed

text \<open>C38 When the sink fails on every call, the callback for it is called exactly once, on the eleventh
  call that logs, however many follow.\<close>

theorem sink_failure_calls_back_once:
  assumes "\<forall>info \<in> set calls. call_ok info" "grease_log c = Some LogToSink" "tls_ready t"
    and "onSinkFailureCB b = Some f" "\<not> sinkFailureNeedsCall b" "maxSinkErrors b = 10"
    and "greaseConnectMethod b = GREASE_VIA_SINK" "sinkErrorCount b = 0"
  shows "\<exists>ig' b' c' t'. foldR (client_Log num (\<lambda>_ _ _ w. Inr (-1, w)) loc) calls ([], ig, b, c, t, w) =
      Inr (if length calls > 10 then [f] else [], ig', b', c', t', w)"
  using failing_calls [OF assms(1) _ assms(4-6), of c t 0 num loc "[]" ig w] assms(2,3,7,8)
  by (simp add: sink_only_def)

end
