(* ===== verification/JsExamples.thy ===== *)
theory JsExamples
  imports ClientBinding EndToEnd
begin

text \<open>The theorems on the JavaScript entry points at concrete calls.\<close>

definition demo_call :: "jsval \<Rightarrow> jsval list" where
  "demo_call ig = [JString [65, 66], JNum 1, JNum 5, JNum 2, JObject [(''ignores'', ig)]]"

lemma demo_call_args:
  "log_args (demo_call ig) = Some ([65, 66], 1)" "length (demo_call ig) > 4" "demo_call ig ! 4 = JObject [(''ignores'', ig)]"
  "jsGet (demo_call ig ! 4) ''ignores'' = ig" "IsObject (demo_call ig ! 4)"
  "args_meta (demo_call ig) 1 noMetaData = (default_meta 5 1)\<lparr>origin := 2\<rparr>"
  by (simp_all add: demo_call_def log_args_def toStr_def toInt32_def jsGet_def IsObject_def args_meta_def int_arg_def
      noMetaData_def default_meta_def nth_Cons' numeral_eq_Suc)

definition demo_called :: logMeta where
  "demo_called = snd (sift demo_masters ((default_meta 5 1)\<lparr>origin := 2\<rparr>))"

lemma demo_call_sift: "sift demo_masters (args_meta (demo_call ig) 1 noMetaData) = (True, demo_called)"
proof -
  have "fst (sift demo_masters ((default_meta 5 1)\<lparr>origin := 2\<rparr>)) = True"
    by (simp add: sift_fresh demo_masters_def demo_ow_def owner_init_def filters.defs no_filters_def Let_def
        default_meta_def META_HAS_CACHE_def split: option.split)
  then show ?thesis by (simp add: demo_call_args demo_called_def prod_eq_iff)
qed

lemma demo_log_ready: "log_ready demo_masters (length [65, 66 :: u8]) 7"
  using demo_masters_ok demo_masters_room by (simp add: log_ready_def del: length_items)

lemma Log_ignores_array_witness:
  "\<exists>ig' st' l. Log (\<lambda>_. 0) (demo_call (JArray [JNum 3, JNum 0, JNum 4])) (replicate 11 0, demo_masters) = Inr (ig', st') \<and>
    logs st' 7 = Some l \<and> heapBuf_text (buf l) = [65, 66] \<and> ignores (smeta l) 3 \<and> \<not> ignores (smeta l) 4"
proof -
  have "set (takeWhile (\<lambda>i. i \<noteq> 0) (map (Uint32Value (\<lambda>_. 0)) (take MAX_IGNORE_LIST [JNum 3, JNum 0, JNum 4]))) = {3}"
    by code_simp
  then show ?thesis
    using Log_ignores_array [OF demo_call_args(1) demo_call_sift demo_call_args(2,4) demo_log_ready,
        of "\<lambda>_. 0" "[JNum 3, JNum 0, JNum 4]" "replicate 11 0"]
    by fastforce
qed

lemma Log_keeps_old_ignores_witness:
  "\<exists>st' l. Log (\<lambda>_. 0) (demo_call JUndefined) (3 # replicate 10 0, demo_masters) = Inr (3 # replicate 10 0, st') \<and>
    logs st' 7 = Some l \<and> ignores (smeta l) 3"
proof -
  have "3 \<in> set (takeWhile (\<lambda>i. i \<noteq> 0) (take MAX_IGNORE_LIST (3 # replicate 10 (0 :: u32))))" by code_simp
  then show ?thesis
    using Log_keeps_old_ignores [OF demo_call_args(1) demo_call_sift demo_call_args(2,5,4) demo_log_ready, of "\<lambda>_. 0" "3 # replicate 10 0"]
    by fastforce
qed

lemma sink_failure_calls_back_once_witness:
  "\<exists>ig' b' c' t'. foldR (client_Log (\<lambda>_. 0) (\<lambda>_ _ _ w. Inr (-1, w)) (\<lambda>_ _ _ _ _ w. Inr (GREASE_OK, w)))
      (replicate 20 (demo_call JUndefined))
      ([], replicate 11 0, GreaseLoggerClient_new\<lparr>onSinkFailureCB := Some 6, greaseConnectMethod := GREASE_VIA_SINK\<rparr>,
       demo_client, demo_tls, ()) = Inr ([6], ig', b', c', t', ())"
proof -
  have "tls_ready demo_tls" using setup_ready [OF demo_setup demo_tls_facts(1,2)] by simp
  moreover have "call_ok (demo_call JUndefined)" by (simp add: call_ok_def demo_call_args)
  ultimately show ?thesis
    using sink_failure_calls_back_once [of "replicate 20 (demo_call JUndefined)" demo_client demo_tls
        "GreaseLoggerClient_new\<lparr>onSinkFailureCB := Some 6, greaseConnectMethod := GREASE_VIA_SINK\<rparr>" 6 "\<lambda>_. 0"
        "\<lambda>_ _ _ _ _ w. Inr (GREASE_OK, w)" "replicate 11 0" "()"]
    by (simp add: GreaseLoggerClient_new_def SINK_MAX_ERRORS_def)
qed

end
