(* ===== verification/QueueSpec.thy ===== *)
theory QueueSpec
  imports Circular
begin

text \<open>
  The ring buffer against its abstract specification: any sequence of operations on the
  circular queue answers as the same sequence on a bounded list.
\<close>

datatype 'a queue_op = Add 'a | Remove | Reverse | Clear

datatype 'a queue_answer = Added bool | Removed "'a option" | Done

section \<open>The specification\<close>

fun spec_step :: "nat \<Rightarrow> 'a queue_op \<Rightarrow> 'a list \<Rightarrow> 'a queue_answer \<times> 'a list" where
  "spec_step n (Add x) xs = (Added (length xs < n), if length xs < n then xs @ [x] else xs)"
| "spec_step n Remove [] = (Removed None, [])"
| "spec_step n Remove (x # xs) = (Removed (Some x), xs)"
| "spec_step n Reverse xs = (Done, rev xs)"
| "spec_step n Clear xs = (Done, [])"

section \<open>The operations of the ring buffer\<close>

fun queue_step :: "'a queue_op \<Rightarrow> 'a circular \<Rightarrow> 'a queue_answer \<times> 'a circular" where
  "queue_step (Add x) q = (case tw_addIfRoom x q of (b, q) \<Rightarrow> (Added b, q))"
| "queue_step Remove q = (case tw_remove q of (r, q) \<Rightarrow> (Removed r, q))"
| "queue_step Reverse q = (Done, tw_reverse q)"
| "queue_step Clear q = (Done, tw_clear None q)"

text \<open>A step relation given as a function, run over a list of operations.\<close>

fun run_steps :: "('o \<Rightarrow> 's \<Rightarrow> 'r \<times> 's) \<Rightarrow> 'o list \<Rightarrow> 's \<Rightarrow> 'r list \<times> 's" where
  "run_steps f [] s = ([], s)"
| "run_steps f (a # as) s = (case f a s of (r, s) \<Rightarrow> case run_steps f as s of (rs, s) \<Rightarrow> (r # rs, s))"

section \<open>Simulation\<close>

locale simulation =
  fixes cstep :: "'o \<Rightarrow> 'c \<Rightarrow> 'r \<times> 'c"
    and astep :: "'o \<Rightarrow> 'a \<Rightarrow> 'r \<times> 'a"
    and R :: "'c \<Rightarrow> 'a \<Rightarrow> bool"
  assumes step: "R c a \<Longrightarrow> \<exists>r c' a'. cstep x c = (r, c') \<and> astep x a = (r, a') \<and> R c' a'"
begin

lemma run: "R c a \<Longrightarrow> \<exists>rs c' a'. run_steps cstep xs c = (rs, c') \<and> run_steps astep xs a = (rs, a') \<and> R c' a'"
proof (induction xs arbitrary: c a)
  case (Cons x xs)
  from step [OF Cons.prems, of x] obtain r c1 a1 where
    1: "cstep x c = (r, c1)" "astep x a = (r, a1)" "R c1 a1" by blast
  with Cons.IH [OF 1(3)] show ?case by auto
qed auto

lemma answers: "R c a \<Longrightarrow> fst (run_steps cstep xs c) = fst (run_steps astep xs a)"
  using run [of c a xs] by auto

end

definition holds :: "nat \<Rightarrow> 'a circular \<Rightarrow> 'a list \<Rightarrow> bool" where
  "holds n q xs \<longleftrightarrow> circular_inv q \<and> capacity q = n \<and> items q = xs"

lemma queue_step_refines: "holds n q xs \<Longrightarrow>
    \<exists>r q' xs'. queue_step x q = (r, q') \<and> spec_step n x xs = (r, xs') \<and> holds n q' xs'"
proof (cases x)
  case (Add d)
  assume h: "holds n q xs"
  obtain b q' where run: "tw_addIfRoom d q = (b, q')" by (cases "tw_addIfRoom d q")
  with h tw_addIfRoom_spec [OF _ run] Add show ?thesis by (auto simp: holds_def simp del: length_items)
next
  case Remove
  assume h: "holds n q xs"
  obtain r q' where run: "tw_remove q = (r, q')" by (cases "tw_remove q")
  with h tw_remove_spec [OF _ run] Remove show ?thesis by (cases xs) (auto simp: holds_def)
next
  case Reverse
  assume "holds n q xs"
  with tw_reverse_spec [of q] Reverse show ?thesis by (auto simp: holds_def)
next
  case Clear
  assume "holds n q xs"
  with tw_clear_spec [of q None] Clear show ?thesis by (auto simp: holds_def)
qed

interpretation queue: simulation queue_step "spec_step n" "holds n"
  by unfold_locales (rule queue_step_refines)

text \<open>C13 Whatever is added, removed, reversed and cleared in whatever order, a new ring buffer of \<open>n\<close>
  places answers every operation as a list bounded by \<open>n\<close> does, and ends with the same contents.\<close>

theorem ring_buffer_refines_list:
  assumes "0 < n"
  shows "\<exists>answers q xs. run_steps queue_step ops (new_circular n d) = (answers, q) \<and>
    run_steps (spec_step n) ops [] = (answers, xs) \<and> circular_inv q \<and> items q = xs"
proof -
  have "holds n (new_circular n d) []" using new_circular_spec [OF assms, of d] by (simp add: holds_def)
  then show ?thesis using queue.run [of n "new_circular n d" "[]" ops] by (auto simp: holds_def)
qed

lemma ring_buffer_refines_list_witness:
  "\<exists>q. run_steps queue_step [Add (1 :: nat), Add 2, Reverse, Add 3, Remove, Remove] (new_circular 2 0) =
     ([Added True, Added True, Done, Added False, Removed (Some 2), Removed (Some 1)], q) \<and> circular_inv q \<and> items q = []"
  using ring_buffer_refines_list [of 2 "[Add (1 :: nat), Add 2, Reverse, Add 3, Remove, Remove]" 0] by auto

end
