(* ===== verification/CommandLoop.thy ===== *)
theory CommandLoop
  imports Dispatch
begin

text \<open>
  The logger thread's command loop ends. No handler but that of NEW_LOG puts commands into
  the queue, and what NEW_LOG puts there (rotations, and overflows for messages too long for
  a target's bank) is never another NEW_LOG. With a queue of \<open>c\<close> places, \<open>(c + 1) * (c + 1)\<close>
  rounds are enough.
\<close>

section \<open>Operations that leave the queue alone\<close>

definition same_cmds :: "'z owner_scheme \<Rightarrow> 'z owner_scheme \<Rightarrow> bool" where
  "same_cmds ow ow' \<longleftrightarrow> internalCmdQueue ow' = internalCmdQueue ow"

named_theorems cmds \<open>operations that leave the command queue alone\<close>

lemma same_cmds_refl [simp]: "same_cmds ow ow"
  by (simp add: same_cmds_def)

lemma same_cmds_trans: "same_cmds a b \<Longrightarrow> same_cmds b c \<Longrightarrow> same_cmds a c"
  by (simp add: same_cmds_def)

lemma same_cmds_simps [simp]:
  "same_cmds ow (uv_async_send h ow1) = same_cmds ow ow1" "same_cmds ow (refGreaseInGrease ow1) = same_cmds ow ow1"
  "same_cmds ow (refFromV8 ow1) = same_cmds ow ow1" "same_cmds ow (snd (new_log l ow1)) = same_cmds ow ow1"
  "same_cmds ow (delete_log a ow1) = same_cmds ow ow1" "same_cmds ow (ow1\<lparr>v8LogCallbacks := q'\<rparr>) = same_cmds ow ow1"
  "same_cmds ow (ow1\<lparr>header_buffer := hb, footer_buffer := fb\<rparr>) = same_cmds ow ow1"
  "same_cmds ow (ow1\<lparr>logs := h'\<rparr>) = same_cmds ow ow1" "same_cmds ow (ow1\<lparr>masterBufferAvail := mq\<rparr>) = same_cmds ow ow1"
  "same_cmds ow (stopFlushTimer ow1) = same_cmds ow ow1"
  by (simp_all add: same_cmds_def uv_async_send_def refGreaseInGrease_def startFlushTimer_def stopFlushTimer_def
      refFromV8_def new_log_def delete_log_def Let_def)

lemma unrefGrease_cmds [cmds]: "unrefGreaseInGrease ow = Inr ow' \<Longrightarrow> same_cmds ow ow'"
  by (auto simp: unrefGreaseInGrease_def stopFlushTimer_def same_cmds_def Let_def split: if_splits)

lemma delete_overflow_cmds [cmds]: "delete_overflow w ow = Inr ow' \<Longrightarrow> same_cmds ow ow'"
  by (auto simp: delete_overflow_def bindR_eq_Inr)

lemma writeCBData_delete_cmds [cmds]: "writeCBData_delete d ow = Inr ow' \<Longrightarrow> same_cmds ow ow'"
  by (auto simp: writeCBData_delete_def dest: delete_overflow_cmds split: option.splits)

lemma doV8Callback_cmds [cmds]: "doV8Callback d ow t = Inr (ow', t') \<Longrightarrow> same_cmds ow ow'"
  by (auto simp: doV8Callback_def bindR_eq_Inr dest: delete_overflow_cmds split: option.splits)

lemma returnBuffer_cmds [cmds]:
  assumes "returnBuffer ta b sync nocb ow t = Inr (ow', t')"
  shows "same_cmds ow ow'"
proof -
  from assms obtain ow1 where 1: "(if \<not> logBuf_isEmpty (bank t b) then unrefGreaseInGrease ow else Inr ow) = Inr ow1"
    by (auto simp: returnBuffer_def bindR_eq_Inr Let_def)
  then have "same_cmds ow ow1" by (auto split: if_splits dest: unrefGrease_cmds)
  moreover have "same_cmds ow1 ow'"
    using assms 1 by (auto simp: returnBuffer_def bindR_eq_Inr Let_def
        split: if_splits prod.splits bool.splits dest: doV8Callback_cmds)
  ultimately show ?thesis by (rule same_cmds_trans)
qed

lemma returnBuffer_overflow_cmds [cmds]:
  assumes "returnBuffer_overflow ta w sync nocb ow t = Inr (ow', t')"
  shows "same_cmds ow ow'"
proof -
  from assms obtain ow1 where 1: "unrefGreaseInGrease ow = Inr ow1"
    by (auto simp: returnBuffer_overflow_def bindR_eq_Inr)
  then have "same_cmds ow ow1" by (rule unrefGrease_cmds)
  moreover have "same_cmds ow1 ow'"
    using assms 1
    by (auto simp: returnBuffer_overflow_def bindR_eq_Inr Let_def split: if_splits prod.splits
        dest!: doV8Callback_cmds writeCBData_delete_cmds delete_overflow_cmds) (auto simp: same_cmds_def uv_async_send_def refFromV8_def Let_def)
  ultimately show ?thesis by (rule same_cmds_trans)
qed

lemma flush_bank_cmds [cmds]: "flush_bank ta b nocb ow t = Inr (ow', t') \<Longrightarrow> same_cmds ow ow'"
  by (auto simp: flush_bank_def Let_def dest: returnBuffer_cmds split: targetKind.splits)

lemma flushSync_bank_cmds [cmds]: "flushSync_bank ta b nocb ow t = Inr (ow', t') \<Longrightarrow> same_cmds ow ow'"
  by (auto simp: flushSync_bank_def bindR_eq_Inr dest: returnBuffer_cmds split: targetKind.splits)

lemma drain_cmds [cmds]: "drain ta nocb ow t = Inr (ow', t') \<Longrightarrow> same_cmds ow ow'"
  by (rule drain_rel [where T = "\<lambda>a t b u. same_cmds a b"]) (auto intro: same_cmds_trans flush_bank_cmds)

lemma drainSync_cmds [cmds]: "drainSync ta nocb ow t = Inr (ow', t') \<Longrightarrow> same_cmds ow ow'"
  by (rule drainSync_rel [where T = "\<lambda>a t b u. same_cmds a b"]) (auto intro: same_cmds_trans flushSync_bank_cmds)

lemma flushAll_target_cmds [cmds]: "flushAll_target ta rot nocb ow t = Inr (ow', t') \<Longrightarrow> same_cmds ow ow'"
  by (auto simp: flushAll_target_def dest: drain_cmds)

lemma flushAllSync_target_cmds [cmds]: "flushAllSync_target ta rot nocb ow t = Inr (ow', t') \<Longrightarrow> same_cmds ow ow'"
  by (auto simp: flushAllSync_target_def dest: drainSync_cmds)

lemma writeAsyncOverflow_cmds [cmds]:
  assumes "writeAsyncOverflow ta got w nocb ow t = Inr (ow', t')"
  shows "same_cmds ow ow'"
proof (cases "tkind t")
  case CALLBACK
  obtain r d q where add: "tw_addMvIfRoom writeCBData_moved (newAsOverflow ta w) (v8LogCallbacks ow) = (r, d, q)"
    by (cases "tw_addMvIfRoom writeCBData_moved (newAsOverflow ta w) (v8LogCallbacks ow)")
  have "delete_overflow w ow = Inr ow' \<or> ow' = ow \<or>
      writeCBData_delete d (uv_async_send asyncV8LogCallback (ow\<lparr>v8LogCallbacks := q\<rparr>)) = Inr ow'"
    using assms CALLBACK by (auto simp: writeAsyncOverflow_def add bindR_eq_Inr split: if_splits)
  moreover have "same_cmds ow (uv_async_send asyncV8LogCallback (ow\<lparr>v8LogCallbacks := q\<rparr>))" by simp
  ultimately show ?thesis
    using delete_overflow_cmds writeCBData_delete_cmds same_cmds_trans same_cmds_refl by blast
qed (use assms in \<open>auto simp: writeAsyncOverflow_def bindR_eq_Inr Let_def dest: returnBuffer_overflow_cmds\<close>)

lemma add_or_delete_cmds [cmds]: "add_or_delete k l w ow = Inr (w', ow') \<Longrightarrow> same_cmds ow ow'"
  by (auto simp: add_or_delete_def bindR_eq_Inr new_log_def delete_log_def same_cmds_def Let_def split: if_splits)

lemma writeOverflow_cmds [cmds]:
  assumes "writeOverflow ta got clk a fil ow t = Inr (ow', t')"
  shows "same_cmds ow ow'"
proof (cases "tdisabled t")
  case True
  with assms show ?thesis by (simp add: writeOverflow_def)
next
  case False
  with assms obtain k1 l1 w1 ow1 w2 k3 l3 w3 ow3 k4 l4 w4 ow4 where
    "add_or_delete k1 l1 overflow_new ow = Inr (w1, ow1)" "add_or_delete k3 l3 w2 ow1 = Inr (w3, ow3)"
    "add_or_delete k4 l4 w3 ow3 = Inr (w4, ow4)"
    "writeAsyncOverflow ta got w4 False (refGreaseInGrease ow4) t = Inr (ow', t')"
    by (auto simp: writeOverflow_def bindR_eq_Inr Let_def)
  moreover have "same_cmds ow4 (refGreaseInGrease ow4)" by simp
  ultimately show ?thesis
    using add_or_delete_cmds writeAsyncOverflow_cmds same_cmds_trans by meson
qed

section \<open>What a write adds\<close>

text \<open>The queue may grow at its end, by commands that are no NEW_LOG.\<close>

definition cmds_grow :: "'z owner_scheme \<Rightarrow> 'z owner_scheme \<Rightarrow> bool" where
  "cmds_grow ow ow' \<longleftrightarrow>
     (circular_inv (internalCmdQueue ow) \<longrightarrow> circular_inv (internalCmdQueue ow') \<and>
        capacity (internalCmdQueue ow') = capacity (internalCmdQueue ow) \<and>
        (\<exists>cs. items (internalCmdQueue ow') = items (internalCmdQueue ow) @ cs \<and> (\<forall>c \<in> set cs. icmd c \<noteq> NEW_LOG)))"

lemma same_cmds_grow: "same_cmds ow ow' \<Longrightarrow> cmds_grow ow ow'"
  by (simp add: same_cmds_def cmds_grow_def)

lemma cmds_grow_trans: "cmds_grow a b \<Longrightarrow> cmds_grow b c \<Longrightarrow> cmds_grow a c"
  by (fastforce simp: cmds_grow_def)

lemma cmds_grow_same: "same_cmds b c \<Longrightarrow> cmds_grow a b = cmds_grow a c"
  by (simp add: same_cmds_def cmds_grow_def)

lemma cmds_grow_put:
  assumes "tw_addMvIfRoom internalCmdReq_moved c (internalCmdQueue ow) = (k, d, q)" "icmd c \<noteq> NEW_LOG"
  shows "cmds_grow ow (ow\<lparr>internalCmdQueue := q\<rparr>)"
proof -
  have run: "tw_addIfRoom c (internalCmdQueue ow) = (k, q)"
    using assms(1) by (auto simp: tw_addMvIfRoom_eq Let_def split: prod.splits)
  show ?thesis
    using tw_addIfRoom_spec [OF _ run] assms(2) by (auto simp: cmds_grow_def)
qed

lemma write_target_grow:
  assumes run: "write_target clk s len m fil ow t = Inr (ow', t')"
  shows "cmds_grow ow ow'"
  using run
proof (cases rule: write_target_cases)
  case (queued B a ow1 d q)
  have "same_cmds ow ow1" using same_cmds_simps(4) [of ow B ow] queued(2) by simp
  moreover have "cmds_grow ow1 (ow1\<lparr>internalCmdQueue := q\<rparr>)"
    by (rule cmds_grow_put [OF queued(3)]) (simp add: internalCmdReq_new_def)
  ultimately show ?thesis
    unfolding queued(4) by (auto intro: cmds_grow_trans same_cmds_grow simp: cmds_grow_def uv_async_send_def same_cmds_def)
next
  case (lost B a ow1)
  then show ?thesis using same_cmds_simps(4) [of ow B ow] by (simp add: same_cmds_grow)
next
  case (rotated lh hb lf fb t1 d q)
  have "cmds_grow ow (ow\<lparr>internalCmdQueue := q\<rparr>)"
    by (rule cmds_grow_put [OF rotated(2)]) (simp add: internalCmdReq_new_def)
  then show ?thesis
    unfolding rotated(4) by (simp add: cmds_grow_def uv_async_send_def refGreaseInGrease_def startFlushTimer_def Let_def)
qed (auto intro: same_cmds_grow)

section \<open>From one operation to a whole handler\<close>

text \<open>What may be said of a run of operations because it holds of each: a reflexive and transitive
  relation between states.\<close>

locale run_effect =
  fixes R :: "'z logger_scheme \<Rightarrow> 'z logger_scheme \<Rightarrow> bool"
  assumes refl: "R s s"
    and trans: "R a b \<Longrightarrow> R b c \<Longrightarrow> R a c"
begin

lemma foldR_effect:
  assumes "\<And>x s s'. f x s = Inr s' \<Longrightarrow> R s s'" "foldR f xs s = Inr s'"
  shows "R s s'"
  using assms(2) by (induction xs arbitrary: s) (auto simp: bindR_eq_Inr intro: refl trans assms(1))

lemma foldR_pair_effect:
  assumes "\<And>x w s w' s'. f x (w, s) = Inr (w', s') \<Longrightarrow> R s s'" "foldR f xs (w, s) = Inr (w', s')"
  shows "R s s'"
  using assms(2)
proof (induction xs arbitrary: w s)
  case Nil
  then show ?case by (simp add: refl)
next
  case (Cons x xs)
  then obtain w1 s1 where "f x (w, s) = Inr (w1, s1)" "foldR f xs (w1, s1) = Inr (w', s')"
    by (auto simp: bindR_eq_Inr)
  then show ?case using Cons.IH assms(1) trans by blast
qed

lemma dispatch_effect:
  assumes emit: "\<And>a f st st'. emit a f st = Inr st' \<Longrightarrow> R st st'" and run: "dispatch emit e st = Inr st'"
  shows "R st st'"
proof -
  have f: "R s s'" if "dispatch_filter emit e x (w, s) = Inr (w', s')" for x w s w' s'
    using that by (auto simp: dispatch_filter_def bindR_eq_Inr intro: refl emit split: if_splits option.splits)
  have l: "R s s'" if "dispatch_list emit e x (w, s) = Inr (w', s')" for x w s w' s'
    using that by (auto simp: dispatch_list_def bindR_eq_Inr refl intro: foldR_pair_effect [OF f] split: if_splits)
  obtain w s where 1: "foldR (dispatch_list emit e) (map (META_GET_LIST (emeta e)) [0..<GREASE_META_HASHLIST_CACHE_SIZE])
      (False, st) = Inr (w, s)"
    and tail: "(case defaultTarget s of Some a \<Rightarrow> if \<not> w then emit a (defaultFilter s) s else Inr s
      | None \<Rightarrow> Inr s) = Inr st'"
    using run by (auto simp: dispatch_def bindR_eq_Inr)
  have 2: "s = st' \<or> (\<exists>a f. emit a f s = Inr st')"
    using tail by (auto split: option.splits if_splits)
  have "R st s" by (rule foldR_pair_effect [OF _ 1]) (rule l)
  then show ?thesis using 2 emit trans by blast
qed

text \<open>The two handlers that dispatch an entry.\<close>

lemma NEW_LOG_effect:
  assumes emit: "\<And>e a f s s'. emit_write clk la e a f s = Inr s' \<Longrightarrow> R s s'"
    and upd: "\<And>u s s'. upd_log la u s = Inr s' \<Longrightarrow> R s s'" and master: "\<And>s q. R s (s\<lparr>masterBufferAvail := q\<rparr>)"
    and run: "handle_NEW_LOG clk la st = Inr st'"
  shows "R st st'"
proof -
  obtain l where l: "deref (logs st) la = Inr l"
    using run by (auto simp: handle_NEW_LOG_def bindR_eq_Inr)
  obtain ok m where sf: "sift st (emeta (smeta l)) = (ok, m)" by (cases "sift st (emeta (smeta l))")
  obtain s1 s2 s3 q where 1: "upd_log la (\<lambda>l. l\<lparr>smeta := (smeta l)\<lparr>emeta := m\<rparr>\<rparr>) st = Inr s1"
    and 2: "(if ok then dispatch (emit_write clk la ((smeta l)\<lparr>emeta := m\<rparr>)) ((smeta l)\<lparr>emeta := m\<rparr>) s1 else Inr s1) = Inr s2"
    and 3: "upd_log la singleLog_clear s2 = Inr s3" and 4: "st' = s3\<lparr>masterBufferAvail := q\<rparr>"
    using run by (auto simp: handle_NEW_LOG_def bindR_eq_Inr l sf Let_def)
  have "R s1 s2" using 2 refl dispatch_effect [OF emit] by (auto split: if_splits)
  from trans [OF upd [OF 1] trans [OF this upd [OF 3]]] show ?thesis unfolding 4 by (rule trans [OF _ master])
qed

lemma OVERFLOW_effect:
  assumes emit: "\<And>a f s s'. emit_overflow clk got la a f s = Inr s' \<Longrightarrow> R s s'"
    and upd: "\<And>u s s'. upd_log la u s = Inr s' \<Longrightarrow> R s s'" and dec: "\<And>s s'. log_decRef la s = Inr s' \<Longrightarrow> R s s'"
    and run: "handle_OVERFLOW clk got la st = Inr st'"
  shows "R st st'"
proof -
  obtain l where l: "deref (logs st) la = Inr l"
    using run by (auto simp: handle_OVERFLOW_def bindR_eq_Inr)
  obtain ok m where sf: "sift st (emeta (smeta l)) = (ok, m)" by (cases "sift st (emeta (smeta l))")
  obtain s1 s2 where 1: "upd_log la (\<lambda>l. l\<lparr>smeta := (smeta l)\<lparr>emeta := m\<rparr>\<rparr>) st = Inr s1"
    and 2: "(if ok then dispatch (emit_overflow clk got la) ((smeta l)\<lparr>emeta := m\<rparr>) s1 else Inr s1) = Inr s2"
    and 3: "log_decRef la s2 = Inr st'"
    using run by (auto simp: handle_OVERFLOW_def bindR_eq_Inr l sf Let_def)
  have "R s1 s2" using 2 refl dispatch_effect [OF emit] by (auto split: if_splits)
  from trans [OF upd [OF 1] trans [OF this dec [OF 3]]] show ?thesis .
qed

end

text \<open>A relation that does not look at the targets themselves.\<close>

locale effect = run_effect +
  assumes targets: "R s (s\<lparr>tgts := T\<rparr>)"
begin

lemma with_target_effect:
  assumes "\<And>st t st' t'. g st t = Inr (st', t') \<Longrightarrow> R st st'" "with_target a g st = Inr st'"
  shows "R st st'"
  using assms(2) by (auto simp: with_target_def bindR_eq_Inr intro: trans [OF assms(1) targets])

end

text \<open>A relation that holds of every flush of a target holds of the flushes of all targets, by command,
  by timer and at shutdown.\<close>

locale flush_effect = run_effect +
  assumes flush: "with_target a (flushAll_target a rot nocb) s = Inr s' \<Longrightarrow> R s s'"
    and flushSync: "with_target a (flushAllSync_target a rot nocb) s = Inr s' \<Longrightarrow> R s s'"
    and closing: "R s ((stopFlushTimer s)\<lparr>cmdHandlesClosed := True\<rparr>)"
begin

lemma each_effect: "each_target f st = Inr st' \<Longrightarrow> (\<And>a s s'. with_target a (f a) s = Inr s' \<Longrightarrow> R s s') \<Longrightarrow> R st st'"
  unfolding each_target_def by (erule foldR_effect [rotated]) (auto split: prod.splits)

lemma default_effect: "flush_default f st = Inr st' \<Longrightarrow> (\<And>a s s'. with_target a (f a) s = Inr s' \<Longrightarrow> R s s') \<Longrightarrow> R st st'"
  by (auto simp: flush_default_def refl split: option.splits)

lemma flushAll_effect: "flushAll nocb st = Inr st' \<Longrightarrow> R st st'"
  unfolding flushAll_def bindR_eq_Inr
  by (elim exE conjE) (rule trans [OF default_effect [OF _ flush] each_effect [OF _ flush]])

lemma flushAllSync_effect: "flushAllSync rot nocb st = Inr st' \<Longrightarrow> R st st'"
  unfolding flushAllSync_def bindR_eq_Inr
  by (elim exE conjE) (rule trans [OF default_effect [OF _ flushSync] each_effect [OF _ flushSync]])

lemma ROTATE_effect: "handle_ROTATE d st = Inr st' \<Longrightarrow> R st st'"
  by (auto simp: handle_ROTATE_def refl intro: flush split: option.splits if_splits)

lemma SHUTDOWN_effect: "handle_SHUTDOWN st = Inr st' \<Longrightarrow> R st st'"
  unfolding handle_SHUTDOWN_def by (rule trans [OF closing flushAllSync_effect])

text \<open>Every command, when the two that dispatch an entry are covered.\<close>

lemma handle_cmd_effect:
  assumes "handle_cmd clk got req st = Inr st'"
    and "\<And>la. icmd req = NEW_LOG \<Longrightarrow> icmd_aux req = Some la \<Longrightarrow> handle_NEW_LOG clk la st = Inr st' \<Longrightarrow> R st st'"
    and "\<And>la. icmd req = WRITE_TARGET_OVERFLOW \<Longrightarrow> icmd_aux req = Some la \<Longrightarrow> handle_OVERFLOW clk got la st = Inr st' \<Longrightarrow> R st st'"
  shows "R st st'"
  using assms(1)
  by (cases "icmd req") (auto simp: handle_cmd_def refl intro: ROTATE_effect SHUTDOWN_effect assms(2,3) split: option.splits)

end

interpretation kept: effect "same_cmds :: 'z logger_scheme \<Rightarrow> 'z logger_scheme \<Rightarrow> bool"
  by unfold_locales (auto simp: same_cmds_def)

interpretation grown: effect "cmds_grow :: 'z logger_scheme \<Rightarrow> 'z logger_scheme \<Rightarrow> bool"
  by unfold_locales (auto intro: same_cmds_grow cmds_grow_trans simp: same_cmds_def)

interpretation kept_flush: flush_effect "same_cmds :: 'z logger_scheme \<Rightarrow> 'z logger_scheme \<Rightarrow> bool"
  by unfold_locales (rule kept.with_target_effect, erule flushAll_target_cmds, assumption,
    rule kept.with_target_effect, erule flushAllSync_target_cmds, assumption, simp add: same_cmds_def stopFlushTimer_def)

lemma upd_log_cmds: "upd_log a u st = Inr st' \<Longrightarrow> same_cmds st st'"
  by (auto simp: upd_log_def bindR_eq_Inr)

lemma log_refs_cmds: "log_incRef a st = Inr st' \<Longrightarrow> same_cmds st st'" "log_decRef a st = Inr st' \<Longrightarrow> same_cmds st st'"
  by (auto simp: log_incRef_def log_decRef_def bindR_eq_Inr)

lemma emit_overflow_cmds: "emit_overflow clk got la a f st = Inr st' \<Longrightarrow> same_cmds st st'"
  unfolding emit_overflow_def bindR_eq_Inr
proof (elim exE conjE)
  fix s1 s2
  assume 1: "with_target a (flushAll_target a True False) st = Inr s1" "log_incRef la s1 = Inr s2"
    and 2: "with_target a (writeOverflow a got clk la (Some f)) s2 = Inr st'"
  have "same_cmds st s1" by (rule kept.with_target_effect [OF _ 1(1)]) (rule flushAll_target_cmds)
  moreover have "same_cmds s2 st'" by (rule kept.with_target_effect [OF _ 2]) (rule writeOverflow_cmds)
  ultimately show ?thesis using log_refs_cmds(1) [OF 1(2)] same_cmds_trans by blast
qed

lemma emit_write_grow: "emit_write clk la e a f st = Inr st' \<Longrightarrow> cmds_grow st st'"
  unfolding emit_write_def bindR_eq_Inr
  by (elim exE conjE) (rule grown.with_target_effect [OF write_target_grow])

lemma handle_NEW_LOG_grow: "handle_NEW_LOG clk la st = Inr st' \<Longrightarrow> cmds_grow st st'"
  by (rule grown.NEW_LOG_effect [OF emit_write_grow same_cmds_grow [OF upd_log_cmds] same_cmds_grow]) (auto simp: same_cmds_def)

lemma handle_OVERFLOW_cmds: "handle_OVERFLOW clk got la st = Inr st' \<Longrightarrow> same_cmds st st'"
  by (rule kept.OVERFLOW_effect [OF emit_overflow_cmds upd_log_cmds log_refs_cmds(2)])

text \<open>A command other than NEW_LOG leaves the queue alone, a NEW_LOG lets it grow.\<close>

lemma handle_cmd_grow:
  assumes "handle_cmd clk got req st = Inr st'"
  shows "if icmd req = NEW_LOG then cmds_grow st st' else same_cmds st st'"
proof (cases "icmd req = NEW_LOG")
  case True
  then show ?thesis using assms by (auto simp: handle_cmd_def dest: handle_NEW_LOG_grow split: option.splits)
next
  case False
  have "same_cmds st st'" by (rule kept_flush.handle_cmd_effect [OF assms]) (use False in \<open>auto dest: handle_OVERFLOW_cmds\<close>)
  then show ?thesis using False by simp
qed

section \<open>The loop ends\<close>

definition new_logs :: "internalCmdReq list \<Rightarrow> nat" where
  "new_logs cs = length (filter (\<lambda>c. icmd c = NEW_LOG) cs)"

definition rounds_left :: "'z logger_scheme \<Rightarrow> nat" where
  "rounds_left st = (capacity (internalCmdQueue st) + 1) * new_logs (items (internalCmdQueue st)) +
     (length (items (internalCmdQueue st)) - new_logs (items (internalCmdQueue st)))"

lemma new_logs_le: "new_logs cs \<le> length cs"
  by (simp add: new_logs_def)

lemma new_logs_simps [simp]: "new_logs [] = 0" "new_logs (c # cs) = (if icmd c = NEW_LOG then 1 else 0) + new_logs cs"
  "new_logs (cs @ ds) = new_logs cs + new_logs ds"
  by (simp_all add: new_logs_def)

lemma new_logs_none: "\<forall>c \<in> set cs. icmd c \<noteq> NEW_LOG \<Longrightarrow> new_logs cs = 0"
  by (simp add: new_logs_def filter_empty_conv)

lemma round_decreases:
  assumes inv: "circular_inv (internalCmdQueue st)" and its: "items (internalCmdQueue st) = req # rest"
    and q: "circular_inv q" "items q = rest" "capacity q = capacity (internalCmdQueue st)"
    and run: "handle_cmd clk got req (st\<lparr>internalCmdQueue := q\<rparr>) = Inr st'"
  shows "circular_inv (internalCmdQueue st') \<and> rounds_left st' < rounds_left st"
proof -
  define c where "c = capacity (internalCmdQueue st)"
  show ?thesis
  proof (cases "icmd req = NEW_LOG")
    case False
    then have "internalCmdQueue st' = q" using handle_cmd_grow [OF run] by (simp add: same_cmds_def)
    then show ?thesis
      using q its False new_logs_le [of rest] by (simp add: rounds_left_def del: length_items)
  next
    case True
    then obtain cs where g: "circular_inv (internalCmdQueue st')" "capacity (internalCmdQueue st') = c"
      "items (internalCmdQueue st') = rest @ cs" "new_logs cs = 0"
      using handle_cmd_grow [OF run] q new_logs_none by (auto simp: cmds_grow_def c_def)
    have "length (rest @ cs) \<le> c" using length_items_le [OF g(1)] g(2,3) by simp
    then have "rounds_left st' \<le> (c + 1) * new_logs rest + c" using g by (simp add: rounds_left_def del: length_items)
    also have "\<dots> < (c + 1) * (1 + new_logs rest)" by simp
    also have "\<dots> \<le> rounds_left st" using its True by (simp add: rounds_left_def c_def del: length_items)
    finally show ?thesis using g(1) by simp
  qed
qed

lemma loop_ends:
  assumes "circular_inv (internalCmdQueue st)" "rounds_left st < n"
  shows "\<exists>r. handleInternalCmd env n st = Some r \<and>
    (\<forall>st'. r = Inr st' \<longrightarrow> items (internalCmdQueue st') = [])"
  using assms
proof (induction n arbitrary: st)
  case 0
  then show ?case by simp
next
  case (Suc n)
  obtain x q where rm: "tw_removeMv internalCmdReq_moved (internalCmdQueue st) = (x, q)"
    by (cases "tw_removeMv internalCmdReq_moved (internalCmdQueue st)")
  note spec = tw_removeMv_spec [OF Suc.prems(1) rm]
  show ?case
  proof (cases "items (internalCmdQueue st)")
    case Nil
    then show ?thesis using spec rm by simp
  next
    case (Cons req rest)
    then have q: "x = Some req" "circular_inv q" "items q = rest" "capacity q = capacity (internalCmdQueue st)"
      using spec by simp_all
    show ?thesis
    proof (cases "handle_cmd (fst (env n)) (snd (env n)) req (st\<lparr>internalCmdQueue := q\<rparr>)")
      case (Inl e)
      then show ?thesis using rm q(1) by simp
    next
      case (Inr st1)
      have "circular_inv (internalCmdQueue st1) \<and> rounds_left st1 < rounds_left st"
        by (rule round_decreases [OF Suc.prems(1) Cons q(2-4) Inr])
      then show ?thesis using Suc.IH [of st1] Suc.prems(2) rm q(1) Inr by auto
    qed
  qed
qed

text \<open>C11 The command loop of the logger thread ends for every queue of commands, within the square of
  the queue's places plus one: either with a fault, or with an empty queue. Commands that NEW_LOG
  queues itself are counted.\<close>

theorem handleInternalCmd_ends:
  assumes "circular_inv (internalCmdQueue st)"
    and "(capacity (internalCmdQueue st) + 1) * (capacity (internalCmdQueue st) + 1) \<le> n"
  shows "\<exists>r. handleInternalCmd env n st = Some r \<and>
    (\<forall>st'. r = Inr st' \<longrightarrow> items (internalCmdQueue st') = [])"
proof (rule loop_ends [OF assms(1)])
  define c where "c = capacity (internalCmdQueue st)"
  define k where "k = new_logs (items (internalCmdQueue st))"
  define l where "l = length (items (internalCmdQueue st))"
  have "k \<le> l" "l \<le> c" using new_logs_le length_items_le [OF assms(1)] by (simp_all add: k_def l_def c_def del: length_items)
  then have "(c + 1) * k + (l - k) \<le> (c + 1) * k + (c - k)" "(c + 1) * k + (c - k) \<le> (c + 1) * c"
    using mult_le_mono2 [of k c c] by (simp_all add: algebra_simps)
  then show "rounds_left st < n"
    using assms(2) by (simp add: rounds_left_def k_def l_def c_def del: length_items)
qed

end
