(* ===== verification/Targets.thy ===== *)
theory Targets
  imports JsLog ErrCommon PipeSink
begin

text \<open>
  Starting the logger, its targets and its sinks (logger.cc): \<open>AddTarget\<close>, \<open>AddSink\<close>,
  \<open>ModifyDefaultTarget\<close>, \<open>start\<close>, the ready call of a target with the callbacks it leads
  to, and the queue that carries them to the V8 thread. \<open>target_start_info\<close> objects are
  named by addresses. What opening a terminal or binding a socket gives is an argument.
\<close>

section \<open>State\<close>

datatype action_cb = Start_logger_cb | Start_target_cb

record target_start_info =
  needsAsyncQueue :: bool
  si_err :: err_ev
  si_cb :: "action_cb option"
  targetStartCB :: "nat option"
  targId :: u32

definition target_start_info_new :: target_start_info where
  "target_start_info_new =
     \<lparr>needsAsyncQueue = False, si_err = err_ev_new, si_cb = None, targetStartCB = None, targId = 0\<rparr>"

definition MAX_TARGET_CALLBACK_STACK :: nat where "MAX_TARGET_CALLBACK_STACK = 20"

datatype sink = PipeS pipe_sink | DgramS dgram_sink

text \<open>A callback made: the function, its first argument if there is one, the error object.\<close>

type_synonym js_call = "nat \<times> int option \<times> js_error option"

record tlogger = logger +
  infos :: "nat \<rightharpoonup> target_start_info"
  nextInfo :: nat
  readyData :: "nat \<Rightarrow> nat option"
  targetCallbackQueue :: "nat circular"
  asyncTargetRef :: bool
  js_calls :: "js_call list"
  sinks :: "(u32 \<times> sink) list"
  threadStarted :: bool

definition new_info :: "target_start_info \<Rightarrow> 'z tlogger_scheme \<Rightarrow> nat \<times> 'z tlogger_scheme" where
  "new_info i st = (nextInfo st, st\<lparr>infos := (infos st)(nextInfo st \<mapsto> i), nextInfo := nextInfo st + 1\<rparr>)"

definition call_js :: "js_call \<Rightarrow> 'z tlogger_scheme \<Rightarrow> 'z tlogger_scheme" where
  "call_js c st = st\<lparr>js_calls := js_calls st @ [c]\<rparr>"

definition delete_info :: "nat \<Rightarrow> 'z tlogger_scheme \<Rightarrow> 'z tlogger_scheme" where
  "delete_info a st = st\<lparr>infos := (infos st)(a := None)\<rparr>"

section \<open>Telling JavaScript\<close>

text \<open>Queueing for the V8 thread; when the queue stays full the info is dropped.\<close>

definition queue_info :: "err_ev \<Rightarrow> nat \<Rightarrow> target_start_info \<Rightarrow> 'z tlogger_scheme \<Rightarrow> 'z tlogger_scheme" where
  "queue_info err a i st =
     (let st = st\<lparr>infos := (infos st)(a \<mapsto> i\<lparr>si_err := fst (err_ev_move err)\<rparr>),
                  targetCallbackQueue := snd (tw_addIfRoom a (targetCallbackQueue st))\<rparr>
      in uv_async_send asyncTargetCallback st)"

definition start_logger_cb :: "err_ev \<Rightarrow> nat \<Rightarrow> 'z tlogger_scheme \<Rightarrow> 'z tlogger_scheme res" where
  "start_logger_cb err a st =
     bindR (deref (infos st) a) (\<lambda>i.
       if needsAsyncQueue i then Inr (queue_info err a i st)
       else Inr (case targetStartCB i of Some f \<Rightarrow> call_js (f, None, None) st | None \<Rightarrow> st))"

text \<open>The call with the target's id, or with -1 and the error.\<close>

definition startup_call :: "err_ev \<Rightarrow> target_start_info \<Rightarrow> 'z tlogger_scheme \<Rightarrow> 'z tlogger_scheme" where
  "startup_call err i st =
     (case targetStartCB i of
        None \<Rightarrow> st
      | Some f \<Rightarrow>
          if \<not> hasErr err then call_js (f, Some (uint (targId i)), None) st
          else call_js (f, Some (-1), Some (err_ev_to_JS err (Some ''Target startup error: ''))) st)"

definition start_target_cb :: "err_ev \<Rightarrow> nat \<Rightarrow> 'z tlogger_scheme \<Rightarrow> 'z tlogger_scheme res" where
  "start_target_cb err a st =
     bindR (deref (infos st) a) (\<lambda>i.
       if needsAsyncQueue i then Inr (queue_info err a i st)
       else Inr (delete_info a (startup_call err i st)))"

definition run_action :: "action_cb \<Rightarrow> err_ev \<Rightarrow> nat \<Rightarrow> 'z tlogger_scheme \<Rightarrow> 'z tlogger_scheme res" where
  "run_action cb = (case cb of Start_logger_cb \<Rightarrow> start_logger_cb | Start_target_cb \<Rightarrow> start_target_cb)"

text \<open>\<open>callTargetCallback\<close> empties the queue.\<close>

definition call_info :: "nat \<Rightarrow> 'z tlogger_scheme \<Rightarrow> 'z tlogger_scheme res" where
  "call_info a st = bindR (deref (infos st) a) (\<lambda>i. Inr (delete_info a (startup_call (si_err i) i st)))"

lemma call_info_queue: "call_info a st = Inr st' \<Longrightarrow> targetCallbackQueue st' = targetCallbackQueue st"
  by (auto simp: call_info_def bindR_eq_Inr delete_info_def startup_call_def call_js_def split: option.splits)

function callTarget_loop :: "'z tlogger_scheme \<Rightarrow> 'z tlogger_scheme res" where
  "callTarget_loop st =
     (case tw_remove (targetCallbackQueue st) of
        (None, q) \<Rightarrow> Inr (st\<lparr>targetCallbackQueue := q\<rparr>)
      | (Some a, q) \<Rightarrow> bindR (call_info a (st\<lparr>targetCallbackQueue := q\<rparr>)) callTarget_loop)"
  by pat_completeness auto
termination
  by (relation "measure (\<lambda>st. nat (tw_remain (targetCallbackQueue st)))")
    (auto dest!: tw_remove_decreases [OF sym] call_info_queue)

declare callTarget_loop.simps [simp del]

definition callTargetCallback :: "'z tlogger_scheme \<Rightarrow> 'z tlogger_scheme res" where
  "callTargetCallback st = bindR (callTarget_loop st) (\<lambda>st. Inr (st\<lparr>asyncTargetRef := False\<rparr>))"

section \<open>A target is ready\<close>

fun addReplace :: "'k \<Rightarrow> 'v \<Rightarrow> ('k \<times> 'v) list \<Rightarrow> ('k \<times> 'v) list" where
  "addReplace k v [] = [(k, v)]"
| "addReplace k v ((k', v') # xs) = (if k = k' then (k, v) # xs else (k', v') # addReplace k v xs)"

text \<open>The info's action, if there is an info and it has one.\<close>

definition maybe_action :: "err_ev \<Rightarrow> nat option \<Rightarrow> 'z tlogger_scheme \<Rightarrow> 'z tlogger_scheme res" where
  "maybe_action err info st =
     (case info of
        None \<Rightarrow> Inr st
      | Some a \<Rightarrow> bindR (deref (infos st) a) (\<lambda>i.
          case si_cb i of None \<Rightarrow> Inr st | Some cb \<Rightarrow> run_action cb err a st))"

text \<open>\<open>targetReady\<close>; after a failure \<open>t->myId\<close> is read from the target just deleted.\<close>

definition targetReady :: "bool \<Rightarrow> err_ev \<Rightarrow> nat \<Rightarrow> 'z tlogger_scheme \<Rightarrow> 'z tlogger_scheme res" where
  "targetReady ok err ta st =
     bindR (deref (tgts st) ta) (\<lambda>t.
     let info = readyData st ta in
     bindR (if ok
            then (if myId t = GREASE_DEFAULT_TARGET_ID
                  then maybe_action err info (st\<lparr>defaultTarget := Some ta\<rparr>)
                  else let st = st\<lparr>targets := addReplace (myId t) ta (targets st)\<rparr>
                       in (case info of
                             None \<Rightarrow> Inl BadPointer
                           | Some a \<Rightarrow> bindR (deref (infos st) a) (\<lambda>i.
                               case si_cb i of None \<Rightarrow> Inl BadPointer | Some cb \<Rightarrow> run_action cb err a st)))
            else bindR (maybe_action err info st) (\<lambda>st. Inr (st\<lparr>tgts := (tgts st)(ta := None)\<rparr>))) (\<lambda>st.
     bindR (deref (tgts st) ta) (\<lambda>t.
       Inr (case info of
              Some a \<Rightarrow> (if myId t = GREASE_DEFAULT_TARGET_ID then delete_info a st else st)
            | None \<Rightarrow> st))))"

section \<open>Making targets\<close>

definition add_target_object ::
    "targetKind \<Rightarrow> nat \<Rightarrow> u32 \<Rightarrow> delim_data \<Rightarrow> nat option \<Rightarrow> 'z tlogger_scheme \<Rightarrow> (nat \<times> 'z tlogger_scheme) res" where
  "add_target_object k sz i d info st =
     bindR (logTarget_new (junk st) sz i d k) (\<lambda>t.
       let ta = nextTgt st
       in Inr (ta, st\<lparr>tgts := (tgts st)(ta \<mapsto> t), nextTgt := ta + 1, readyData := (readyData st)(ta := info)\<rparr>))"

text \<open>A terminal: \<open>None\<close> when it opens, else the error code and the text it is set with.\<close>

type_synonym tty_result = "(int \<times> string option) option"

definition ttyTarget_new ::
    "(int \<Rightarrow> string) \<Rightarrow> tty_result \<Rightarrow> nat \<Rightarrow> u32 \<Rightarrow> delim_data \<Rightarrow> nat option \<Rightarrow> 'z tlogger_scheme \<Rightarrow>
       (nat \<times> 'z tlogger_scheme) res" where
  "ttyTarget_new strerr r sz i d info st =
     bindR (add_target_object TTY sz i d info st) (\<lambda>(ta, st).
     bindR (case r of
              None \<Rightarrow> targetReady True err_ev_new ta st
            | Some (e, m) \<Rightarrow> bindR (setError strerr e m err_ev_new) (\<lambda>err. targetReady False err ta st)) (\<lambda>st.
       Inr (ta, st)))"

text \<open>A file: \<open>post_cstor\<close> sets the info up for the queue and submits the open.\<close>

definition fileTarget_new ::
    "rotationOpts option \<Rightarrow> bytes \<Rightarrow> u32 \<Rightarrow> filesys \<Rightarrow> nat \<Rightarrow> u32 \<Rightarrow> delim_data \<Rightarrow> nat \<Rightarrow> 'z tlogger_scheme \<Rightarrow>
       (nat \<times> 'z tlogger_scheme) res" where
  "fileTarget_new opts path flags fs sz i d a st =
     bindR (file_post_cstor (fileState_new opts path flags fs)) (\<lambda>(_, ft).
     bindR (add_target_object (FILE ft) sz i d (Some a) st) (\<lambda>(ta, st).
     bindR (deref (infos st) a) (\<lambda>info.
       Inr (ta, st\<lparr>infos := (infos st)(a \<mapsto> info\<lparr>needsAsyncQueue := True\<rparr>)\<rparr>))))"

text \<open>The open has ended: \<open>None\<close> with a descriptor, else with an error code.\<close>

definition file_on_open :: "(int \<Rightarrow> string) \<Rightarrow> int option \<Rightarrow> nat \<Rightarrow> 'z tlogger_scheme \<Rightarrow> 'z tlogger_scheme res" where
  "file_on_open strerr r ta st =
     (case r of
        None \<Rightarrow> targetReady True err_ev_new ta st
      | Some e \<Rightarrow> bindR (setError strerr e None err_ev_new) (\<lambda>err. targetReady False err ta st))"

section \<open>The JavaScript calls\<close>

definition set_text :: "(nat \<Rightarrow> u8) \<Rightarrow> jsval \<Rightarrow> heapBuf \<Rightarrow> heapBuf res" where
  "set_text jk v b =
     (case toStr v of
        None \<Rightarrow> Inr b
      | Some s \<Rightarrow> bindR (heapBuf_memcpy s (length s) None (heapBuf_malloc jk (length s) b)) (\<lambda>(_, b). Inr b))"

text \<open>The option \<open>rotate\<close>; \<open>enabled\<close> is set whatever \<open>rotate_on_start\<close> says.\<close>

definition rotate_arg :: "jsval \<Rightarrow> rotationOpts" where
  "rotate_arg v =
     (let r = rotationOpts_new
      in if \<not> IsObject v then r
         else
           let r = (case toUint32 (jsGet v ''max_files'') of
                      Some n \<Rightarrow> r\<lparr>max_files := n, ropt_enabled := True\<rparr> | None \<Rightarrow> r);
               r = (case toUint32 (jsGet v ''max_file_size'') of
                      Some n \<Rightarrow> r\<lparr>max_file_size := n, ropt_enabled := True\<rparr> | None \<Rightarrow> r);
               r = (case toUint32 (jsGet v ''max_total_size'') of
                      Some n \<Rightarrow> r\<lparr>max_total_size := ucast n, ropt_enabled := True\<rparr> | None \<Rightarrow> r)
           in (case toBool (jsGet v ''rotate_on_start'') of
                 Some b \<Rightarrow> (if b then r\<lparr>rotate_on_start := True\<rparr> else r)\<lparr>ropt_enabled := True\<rparr>
               | None \<Rightarrow> r))"

text \<open>The option \<open>format\<close>: each string it has is set on the target.\<close>

definition format_setters :: "(string \<times> (bytes \<Rightarrow> nat \<Rightarrow> logTarget \<Rightarrow> logTarget res)) list" where
  "format_setters = [(''pre'', setPreFormat), (''time'', setTimeFormat), (''level'', setLevelFormat),
     (''tag'', setTagFormat), (''origin'', setOriginFormat), (''post'', setPostFormat), (''pre_msg'', setPreMsgFormat)]"

definition apply_format :: "jsval \<Rightarrow> nat \<Rightarrow> 'z tlogger_scheme \<Rightarrow> 'z tlogger_scheme res" where
  "apply_format v ta st =
     (if IsObject v
      then foldR (\<lambda>(k, f) st.
             case toStr (jsGet v k) of
               None \<Rightarrow> Inr st
             | Some s \<Rightarrow> with_target ta (\<lambda>st t. bindR (f s (length s) t) (\<lambda>t. Inr (st, t))) st) format_setters st
      else Inr st)"

definition js_function :: "jsval \<Rightarrow> nat option" where
  "js_function v = (case v of JFunction f \<Rightarrow> Some f | _ \<Rightarrow> None)"

text \<open>What the system gives an \<open>addTarget\<close>, and \<open>ToString\<close> of values that are no strings.\<close>

record target_env =
  te_tty :: tty_result
  te_fs :: filesys
  te_strerr :: "int \<Rightarrow> string"
  te_tostring :: "jsval \<Rightarrow> bytes"

text \<open>
  \<open>AddTarget\<close>. The handle of \<open>file\<close> is never empty, so whatever is no terminal is a file:
  the branches for a callback alone and for an unknown type are not reached.
\<close>

definition AddTarget :: "target_env \<Rightarrow> jsval list \<Rightarrow> 'z tlogger_scheme \<Rightarrow> (jsval js \<times> 'z tlogger_scheme) res" where
  "AddTarget e info st =
     (if \<not> (length info > 1 \<and> IsObject (info ! 0)) then Inr (Throw ''Malformed call to addTarget()'', st)
      else
        let o' = info ! 0;
            tty = jsGet o' ''tty'';
            sz = (case toInt32 (jsGet o' ''bufferSize'') of
                      Some n \<Rightarrow> (if n < 0 then bufferSize st else nat n) | None \<Rightarrow> bufferSize st);
            i = nextTargetId st;
            st = st\<lparr>nextTargetId := i + 1\<rparr>;
            cb = js_function (info ! 1);
            si = target_start_info_new\<lparr>si_cb := Some Start_target_cb, targId := i, targetStartCB := cb\<rparr>
        in bindR (set_text (junk st) (jsGet o' ''delim'') heapBuf_empty) (\<lambda>d1.
           bindR (set_text (junk st) (jsGet o' ''delim_output'') heapBuf_empty) (\<lambda>d2.
           let d = \<lparr>delim = d1, delim_output = d2\<rparr>;
               (a, st) = new_info si st;
               st = (if cb \<noteq> None then st\<lparr>asyncTargetRef := True\<rparr> else st)
           in bindR (if toStr tty \<noteq> None \<or> toInt32 tty \<noteq> None
                     then ttyTarget_new (te_strerr e) (te_tty e) sz i d (Some a) st
                     else let f = jsGet o' ''file'';
                              path = (case toStr f of Some s \<Rightarrow> s | None \<Rightarrow> te_tostring e f);
                              flags = (case toInt32 (jsGet o' ''flags'') of
                                         Some n \<Rightarrow> word_of_int n | None \<Rightarrow> DEFAULT_FLAGS_FILE_TARGET);
                              r = rotate_arg (jsGet o' ''rotate'')
                          in fileTarget_new (if ropt_enabled r then Some r else None) path flags (te_fs e) sz i d a st)
                    (\<lambda>(ta, st).
              bindR (case js_function (jsGet o' ''callback'') of
                       Some f \<Rightarrow> with_target ta (\<lambda>st t. Inr (st, setCallback (Some f) t)) st
                     | None \<Rightarrow> Inr st) (\<lambda>st.
              bindR (apply_format (jsGet o' ''format'') ta st) (\<lambda>st. Inr (Return JUndefined, st)))))))"

text \<open>The delimiter of a new default target: the given one, or a line end.\<close>

definition default_delim :: "(nat \<Rightarrow> u8) \<Rightarrow> jsval \<Rightarrow> delim_data res" where
  "default_delim jk v =
     (case toStr v of
        Some s \<Rightarrow> setDelim jk s (length s) delim_empty
      | None \<Rightarrow> bindR (heapBuf_sprintf jk [10] (delim delim_empty)) (\<lambda>b. Inr (delim_empty\<lparr>delim := b\<rparr>)))"

text \<open>
  \<open>ModifyDefaultTarget\<close>. The path of \<open>tty\<close> is not passed on, the infos have no action, and a
  new delimiter for the old target does not reach its banks.
\<close>

definition ModifyDefaultTarget :: "target_env \<Rightarrow> jsval list \<Rightarrow> 'z tlogger_scheme \<Rightarrow> 'z tlogger_scheme res" where
  "ModifyDefaultTarget e info st =
     (if \<not> (length info > 0 \<and> IsObject (info ! 0)) then Inr st
      else
        let o' = info ! 0;
            dl = jsGet o' ''delim'';
            f = jsGet o' ''file'';
            si = target_start_info_new\<lparr>targId := GREASE_DEFAULT_TARGET_ID\<rparr>
        in bindR (if toStr (jsGet o' ''tty'') \<noteq> None
                  then bindR (default_delim (junk st) dl) (\<lambda>d.
                       let (a, st) = new_info si st
                       in bindR (ttyTarget_new (te_strerr e) (te_tty e) (bufferSize st) GREASE_DEFAULT_TARGET_ID d (Some a) st)
                            (\<lambda>(ta, st). Inr (Some ta, st)))
                  else (case toStr f of
                          Some path \<Rightarrow>
                            bindR (default_delim (junk st) dl) (\<lambda>d.
                            let (a, st) = new_info (si\<lparr>targetStartCB := js_function (jsArg info 1)\<rparr>) st;
                                flags = (case toInt32 (jsGet o' ''flags'') of
                                           Some n \<Rightarrow> word_of_int n | None \<Rightarrow> DEFAULT_FLAGS_FILE_TARGET);
                                r = rotate_arg (jsGet o' ''rotate'')
                            in bindR (fileTarget_new (if ropt_enabled r then Some r else None) path flags (te_fs e)
                                        (bufferSize st) GREASE_DEFAULT_TARGET_ID d a st)
                                 (\<lambda>(ta, st). Inr (Some ta, st)))
                        | None \<Rightarrow>
                            (case (toStr dl, defaultTarget st) of
                               (Some s, Some ta) \<Rightarrow>
                                 bindR (with_target ta (\<lambda>st t.
                                          bindR (setDelim (junk st) s (length s) (tdelim t)) (\<lambda>d.
                                            Inr (st, t\<lparr>tdelim := d\<rparr>))) st) (\<lambda>st. Inr (Some ta, st))
                             | (_, ta) \<Rightarrow> Inr (ta, st)))) (\<lambda>(ta, st).
             case ta of Some ta \<Rightarrow> apply_format (jsGet o' ''format'') ta st | None \<Rightarrow> Inr st))"

text \<open>\<open>AddSink\<close>: the buffers of a pipe sink, or what \<open>socket\<close>, \<open>pipe\<close> and \<open>bind\<close> give.\<close>

record sink_env =
  se_bufs :: "nat list"
  se_fd :: int
  se_pipe :: "(int \<times> int) option"
  se_bound :: bool

definition AddSink :: "sink_env \<Rightarrow> jsval list \<Rightarrow> 'z tlogger_scheme \<Rightarrow> (jsval js \<times> 'z tlogger_scheme) res" where
  "AddSink e info st =
     (if \<not> (length info > 0 \<and> IsObject (info ! 0)) then Inr (Throw ''addSink: bad parameters'', st)
      else
        let i = nextSinkId st
        in case toStr (jsGet (info ! 0) ''pipe'') of
             Some p \<Rightarrow>
               bindR (PipeSink_new (Some p) i (se_bufs e)) (\<lambda>sk.
               bindR (PipeSink_bind sk) (\<lambda>_.
                 Inr (Return JUndefined, st\<lparr>nextSinkId := i + 1, sinks := addReplace i (PipeS sk) (sinks st)\<rparr>)))
           | None \<Rightarrow>
               (case toStr (jsGet (info ! 0) ''unixDgram'') of
                  Some p \<Rightarrow>
                    bindR (sink_bind (se_fd e) (se_pipe e) (se_bound e) (dgram_sink_new (Some p) i)) (\<lambda>(_, sk).
                      Inr (Return JUndefined, st\<lparr>nextSinkId := i + 1, sinks := addReplace i (DgramS sk) (sinks st)\<rparr>))
                | None \<Rightarrow> Inr (Throw ''addSink: unsupported Sink type'', st)))"

text \<open>Starting: the default terminal, then the logger thread.\<close>

definition setupDefaultTarget ::
    "(int \<Rightarrow> string) \<Rightarrow> tty_result \<Rightarrow> action_cb \<Rightarrow> nat \<Rightarrow> 'z tlogger_scheme \<Rightarrow> 'z tlogger_scheme res" where
  "setupDefaultTarget strerr r cb a st =
     bindR (default_delim (junk st) JUndefined) (\<lambda>d.
     bindR (deref (infos st) a) (\<lambda>i.
     bindR (ttyTarget_new strerr r (bufferSize st) GREASE_DEFAULT_TARGET_ID d (Some a)
              (st\<lparr>infos := (infos st)(a \<mapsto> i\<lparr>si_cb := Some cb\<rparr>)\<rparr>)) (\<lambda>(_, st). Inr st)))"

definition start_logger ::
    "(int \<Rightarrow> string) \<Rightarrow> tty_result \<Rightarrow> action_cb \<Rightarrow> nat \<Rightarrow> 'z tlogger_scheme \<Rightarrow> 'z tlogger_scheme res" where
  "start_logger strerr r cb a st =
     bindR (setupDefaultTarget strerr r cb a st) (\<lambda>st. Inr (st\<lparr>threadStarted := True\<rparr>))"

definition Start :: "(int \<Rightarrow> string) \<Rightarrow> tty_result \<Rightarrow> jsval list \<Rightarrow> 'z tlogger_scheme \<Rightarrow> 'z tlogger_scheme res" where
  "Start strerr r info st =
     (let (a, st) = new_info (target_start_info_new\<lparr>targetStartCB := js_function (jsArg info 0)\<rparr>) st
      in start_logger strerr r Start_logger_cb a st)"

section \<open>A file target comes to life\<close>

lemma addReplace_get: "map_of (addReplace k v xs) k' = (if k' = k then Some v else map_of xs k')"
  by (induction xs) auto

lemma logTarget_new_id: "logTarget_new jk n i d k = Inr t \<Longrightarrow> myId t = i \<and> tkind t = k"
  by (auto simp: logTarget_new_def bindR_eq_Inr)

lemma logTarget_new_ok: "\<exists>t. logTarget_new jk n i d k = Inr t"
proof -
  have "isOk (bindR (tw_add 1 (new_circular NUM_BANKS 0)) (\<lambda>q. bindR (tw_add 2 q) (tw_add (3 :: nat))))"
    by code_simp
  then show ?thesis by (auto simp: logTarget_new_def bindR_eq_Inr isOk_def split: sum.splits)
qed

text \<open>After a failed start of a target the logger reads the target it has just deleted, whatever the
  target, the error and the state.\<close>

theorem failed_target_is_read_after_delete:
  assumes "maybe_action err (readyData st ta) st = Inr st'"
  shows "targetReady False err ta st = Inl BadPointer"
  using assms by (cases "tgts st ta") (simp_all add: targetReady_def deref_def Let_def)

text \<open>The file opens, and later the queue is emptied.\<close>

lemma file_target_comes_up:
  assumes st: "tgts st ta = Some t" "readyData st ta = Some a" "myId t \<noteq> GREASE_DEFAULT_TARGET_ID"
    and info: "infos st a = Some i" "needsAsyncQueue i" "si_cb i = Some Start_target_cb" "targId i = myId t"
      "targetStartCB i = Some f"
    and queue: "circular_inv (targetCallbackQueue st)" "items (targetCallbackQueue st) = []"
      "0 < capacity (targetCallbackQueue st)"
  shows "\<exists>st1 st2. file_on_open strerr None ta st = Inr st1 \<and> find_target (myId t) st1 = Some ta \<and>
    asyncTargetCallback \<in> pending st1 \<and> callTargetCallback st1 = Inr st2 \<and>
    js_calls st2 = js_calls st @ [(f, Some (uint (myId t)), None)] \<and> infos st2 a = None \<and>
    items (targetCallbackQueue st2) = [] \<and> find_target (myId t) st2 = Some ta \<and> nextTargetId st2 = nextTargetId st"
proof -
  define st1 where "st1 = queue_info err_ev_new a i (st\<lparr>targets := addReplace (myId t) ta (targets st)\<rparr>)"
  have t1: "tgts st1 ta = Some t" by (simp add: st1_def queue_info_def uv_async_send_def st(1))
  have run: "file_on_open strerr None ta st = Inr st1"
    using st info t1 by (simp add: file_on_open_def targetReady_def deref_def Let_def run_action_def start_target_cb_def st1_def)
  obtain q where q: "tw_addIfRoom a (targetCallbackQueue st) = (True, q)" "circular_inv q" "items q = [a]"
    using tw_addIfRoom_spec [OF queue(1) surjective_pairing, of a] queue(2,3)
    by (cases "tw_addIfRoom a (targetCallbackQueue st)") (simp del: length_items)
  have f1: "targetCallbackQueue st1 = q" "infos st1 a = Some (i\<lparr>si_err := err_ev_new\<rparr>)" "js_calls st1 = js_calls st"
    "find_target (myId t) st1 = Some ta" "asyncTargetCallback \<in> pending st1" "nextTargetId st1 = nextTargetId st"
    by (simp_all add: st1_def queue_info_def uv_async_send_def q err_ev_move_def find_target_def addReplace_get)
  obtain q1 where q1: "tw_remove q = (Some a, q1)" "circular_inv q1" "items q1 = []"
    using tw_remove_spec [OF q(2) surjective_pairing] q(3) by (cases "tw_remove q") simp
  obtain q2 where q2: "tw_remove q1 = (None, q2)" "items q2 = []"
    using tw_remove_spec [OF q1(2) surjective_pairing] q1(3) by (cases "tw_remove q1") simp
  define st2 where "st2 = call_js (f, Some (uint (myId t)), None) (st1\<lparr>targetCallbackQueue := q1\<rparr>)"
  have c: "call_info a (st1\<lparr>targetCallbackQueue := q1\<rparr>) = Inr (delete_info a st2)"
    using info by (simp add: call_info_def deref_def f1(2) startup_call_def hasErr_def err_ev_new_def st2_def)
  have "callTarget_loop st1 = Inr ((delete_info a st2)\<lparr>targetCallbackQueue := q2\<rparr>)"
    using q1(1) q2(1) c
    by (simp add: callTarget_loop.simps [of st1] f1(1) callTarget_loop.simps [of "delete_info a st2"])
      (simp add: delete_info_def st2_def call_js_def)
  then show ?thesis
    using run f1 q2(2)
    by (simp add: callTargetCallback_def st2_def call_js_def delete_info_def find_target_def)
qed

lemma set_text_ok: "\<exists>b'. set_text jk v b = Inr b'"
  by (auto simp: set_text_def heapBuf_memcpy_def heapBuf_malloc_def poke_def peek_def malloc_block_def bindR_eq_Inr Let_def split: option.splits)

lemma no_rotation: "\<exists>ft. file_post_cstor (fileState_new None p fl fs) = Inr ft"
  by (simp add: file_post_cstor_def fileState_new_def rotationOpts_new_def Let_def split: prod.splits)


end
