(* ===== verification/TargetExamples.thy ===== *)
theory TargetExamples
  imports Targets Examples CommandLoop
begin

text \<open>The theorems on the command loop and on starting targets at a concrete logger.\<close>

definition demo_starting :: tlogger where
  "demo_starting = logger.extend (demo_tables (demo_list 1))
     \<lparr>infos = Map.empty, nextInfo = 0, readyData = \<lambda>_. None, targetCallbackQueue = new_circular 20 0,
      asyncTargetRef = False, js_calls = [], sinks = [], threadStarted = False\<rparr>"

lemma demo_starting_facts:
  "nextTargetId demo_starting = 4" "targetCallbackQueue demo_starting = new_circular 20 0" "js_calls demo_starting = []"
  "readyData demo_starting = (\<lambda>_. None)"
  by (simp_all add: demo_starting_def logger.defs demo_tables_def owner.defs demo_ow_def owner_init_def filters.defs
      no_filters_def)

definition demo_target_env :: target_env where
  "demo_target_env = \<lparr>te_tty = None, te_fs = (\<lambda>_. None), te_strerr = (\<lambda>_. ''''), te_tostring = (\<lambda>_. [])\<rparr>"


lemma failed_target_is_read_after_delete_witness:
  "targetReady False \<lparr>errstr = None, errno = 2\<rparr> 0 demo_starting = Inl BadPointer"
  using failed_target_is_read_after_delete [of "\<lparr>errstr = None, errno = 2\<rparr>" demo_starting 0 demo_starting]
  by (simp add: maybe_action_def demo_starting_facts)

text \<open>A queue of two places with an entry to log.\<close>

definition demo_queue :: "internalCmdReq circular" where
  "demo_queue = snd (tw_addIfRoom ((internalCmdReq_new NEW_LOG 0)\<lparr>icmd_aux := Some 7\<rparr>) (new_circular 2 (internalCmdReq_new INTERNAL_SHUTDOWN 0)))"

lemma handleInternalCmd_ends_witness:
  "\<exists>r. handleInternalCmd (\<lambda>_. ((0, 0), 0)) 9 ((demo_lg (demo_list 1) 0 [])\<lparr>internalCmdQueue := demo_queue\<rparr>) = Some r \<and>
    (\<forall>st'. r = Inr st' \<longrightarrow> items (internalCmdQueue st') = [])"
proof -
  have "circular_inv demo_queue" "capacity demo_queue = 2" by code_simp+
  then show ?thesis
    using handleInternalCmd_ends [of "(demo_lg (demo_list 1) 0 [])\<lparr>internalCmdQueue := demo_queue\<rparr>" 9 "\<lambda>_. ((0, 0), 0)"]
    by simp
qed

end
