(* ===== verification/KHash.thy ===== *)
theory KHash
  imports Prelude "HOL-Library.Monad_Syntax"
begin

text \<open>
  The open-addressing hash table under TWlib's \<open>TW_KHash_32\<close> (khash.h and the
  specialised copies of its macros in tw_khash.h): double hashing over a power of two of
  buckets, two flag bits a bucket packed sixteen to a word, and a resize that rehashes in
  place by kicking out what it meets. A result of \<open>None\<close> stands for a loop that does not
  end or an access outside an array or to a key never stored.
\<close>

section \<open>Arrays and flags\<close>

definition fetch :: "'a list \<Rightarrow> nat \<Rightarrow> 'a option" where
  "fetch xs i = (if i < length xs then Some (xs ! i) else None)"

definition store :: "'a list \<Rightarrow> nat \<Rightarrow> 'a \<Rightarrow> 'a list option" where
  "store xs i x = (if i < length xs then Some (xs[i := x]) else None)"

definition realloc :: "nat \<Rightarrow> 'a option list \<Rightarrow> 'a option list" where
  "realloc n xs = take n xs @ replicate (n - length xs) None"

definition fetch_set :: "'a option list \<Rightarrow> nat \<Rightarrow> 'a option" where
  "fetch_set xs i = Option.bind (fetch xs i) (\<lambda>x. x)"

text \<open>\<open>flag[i>>4] >> ((i&0xfU)<<1)\<close>: bit 1 means empty, bit 0 deleted.\<close>

definition flag_word :: "u32 \<Rightarrow> nat" where
  "flag_word i = unat (drop_bit 4 i)"

definition flag_shift :: "u32 \<Rightarrow> nat" where
  "flag_shift i = unat (push_bit 1 (i AND 15))"

definition ac_flag :: "u32 list \<Rightarrow> u32 \<Rightarrow> u32 option" where
  "ac_flag fl i = do { w \<leftarrow> fetch fl (flag_word i); Some (drop_bit (flag_shift i) w) }"

definition isempty :: "u32 list \<Rightarrow> u32 \<Rightarrow> bool option" where
  "isempty fl i = do { w \<leftarrow> ac_flag fl i; Some (w AND 2 \<noteq> 0) }"

definition isdel :: "u32 list \<Rightarrow> u32 \<Rightarrow> bool option" where
  "isdel fl i = do { w \<leftarrow> ac_flag fl i; Some (w AND 1 \<noteq> 0) }"

definition iseither :: "u32 list \<Rightarrow> u32 \<Rightarrow> bool option" where
  "iseither fl i = do { w \<leftarrow> ac_flag fl i; Some (w AND 3 \<noteq> 0) }"

definition set_isdel_true :: "u32 list \<Rightarrow> u32 \<Rightarrow> u32 list option" where
  "set_isdel_true fl i =
     do { w \<leftarrow> fetch fl (flag_word i); store fl (flag_word i) (w OR push_bit (flag_shift i) 1) }"

definition set_isempty_false :: "u32 list \<Rightarrow> u32 \<Rightarrow> u32 list option" where
  "set_isempty_false fl i =
     do { w \<leftarrow> fetch fl (flag_word i); store fl (flag_word i) (w AND NOT (push_bit (flag_shift i) 2)) }"

definition set_isboth_false :: "u32 list \<Rightarrow> u32 \<Rightarrow> u32 list option" where
  "set_isboth_false fl i =
     do { w \<leftarrow> fetch fl (flag_word i); store fl (flag_word i) (w AND NOT (push_bit (flag_shift i) 3)) }"

definition ac_inc :: "u32 \<Rightarrow> u32 \<Rightarrow> u32" where
  "ac_inc k m = ((drop_bit 3 k XOR push_bit 3 k) OR 1) AND m"

definition ac_fsize :: "u32 \<Rightarrow> u32" where
  "ac_fsize m = (if m < 16 then 1 else drop_bit 4 m)"

definition kroundup32 :: "u32 \<Rightarrow> u32" where
  "kroundup32 x =
     (let x = x - 1; x = x OR drop_bit 1 x; x = x OR drop_bit 2 x; x = x OR drop_bit 4 x;
          x = x OR drop_bit 8 x; x = x OR drop_bit 16 x
      in x + 1)"

text \<open>
  \<open>(khint_t)(n * 0.77 + 0.5)\<close> for a power of two \<open>n\<close>: the product is off by less than
  one in \<open>10^6\<close> there, and \<open>77 * n / 100 + 1 / 2\<close> is never nearer than 1/100 to an integer.
\<close>

definition hash_upper :: "u32 \<Rightarrow> u32" where
  "hash_upper n = word_of_nat ((77 * unat n + 50) div 100)"

section \<open>The table\<close>

record ('k, 'v) khash =
  n_buckets :: u32
  ksize :: u32
  n_occupied :: u32
  upper_bound :: u32
  hflags :: "u32 list"
  hkeys :: "'k option list"
  hvals :: "'v option list"

definition kh_init :: "('k, 'v) khash" where
  "kh_init = \<lparr>n_buckets = 0, ksize = 0, n_occupied = 0, upper_bound = 0, hflags = [], hkeys = [], hvals = []\<rparr>"

definition empty_flags :: "u32 \<Rightarrow> u32 list" where
  "empty_flags n = replicate (unat (ac_fsize n)) 0xAAAAAAAA"

definition kh_clear :: "('k, 'v) khash \<Rightarrow> ('k, 'v) khash" where
  "kh_clear h = (if hflags h = [] then h else h\<lparr>hflags := empty_flags (n_buckets h), ksize := 0, n_occupied := 0\<rparr>)"

text \<open>The condition under which a probe goes on: not empty, and deleted or of another key.\<close>

definition probe_on :: "('k, 'v) khash \<Rightarrow> 'k \<Rightarrow> u32 \<Rightarrow> bool option" where
  "probe_on h key i =
     do { e \<leftarrow> isempty (hflags h) i;
          if e then Some False
          else do { d \<leftarrow> isdel (hflags h) i;
                    if d then Some True else do { k \<leftarrow> fetch_set (hkeys h) (unat i); Some (k \<noteq> key) } } }"

partial_function (option) kh_get_loop ::
    "('k, 'v) khash \<Rightarrow> 'k \<Rightarrow> u32 \<Rightarrow> u32 \<Rightarrow> u32 \<Rightarrow> u32 \<Rightarrow> u32 option" where
  "kh_get_loop h key inc msk lst i =
     do { go \<leftarrow> probe_on h key i;
          if go
          then (let i = (i + inc) AND msk
                in if i = lst then Some (n_buckets h) else kh_get_loop h key inc msk lst i)
          else do { b \<leftarrow> iseither (hflags h) i; Some (if b then n_buckets h else i) } }"

definition kh_get :: "('k \<Rightarrow> u32) \<Rightarrow> ('k, 'v) khash \<Rightarrow> 'k \<Rightarrow> u32 option" where
  "kh_get hf h key =
     (if n_buckets h = 0 then Some 0
      else let msk = n_buckets h - 1; k = hf key; i = k AND msk
           in kh_get_loop h key (ac_inc k msk) msk i i)"

section \<open>Rehashing in place\<close>

record ('k, 'v) rehash =
  oflags :: "u32 list"
  nflags :: "u32 list"
  rkeys :: "'k option list"
  rvals :: "'v option list"

partial_function (option) free_slot :: "u32 list \<Rightarrow> u32 \<Rightarrow> u32 \<Rightarrow> u32 \<Rightarrow> u32 option" where
  "free_slot nf inc msk i =
     do { e \<leftarrow> isempty nf i; if e then Some i else free_slot nf inc msk ((i + inc) AND msk) }"

text \<open>The kick-out loop: place the entry in hand; what lay there unmoved is in hand next.\<close>

partial_function (option) kick ::
    "('k \<Rightarrow> u32) \<Rightarrow> u32 \<Rightarrow> u32 \<Rightarrow> 'k \<Rightarrow> 'v option \<Rightarrow> ('k, 'v) rehash \<Rightarrow> ('k, 'v) rehash option" where
  "kick hf n msk key val s =
     do { i \<leftarrow> free_slot (nflags s) (ac_inc (hf key) msk) msk (hf key AND msk);
          nf \<leftarrow> set_isempty_false (nflags s) i;
          unmoved \<leftarrow> (if i < n then do { b \<leftarrow> iseither (oflags s) i; Some (\<not> b) } else Some False);
          if unmoved
          then do { k' \<leftarrow> fetch_set (rkeys s) (unat i);
                    ks \<leftarrow> store (rkeys s) (unat i) (Some key);
                    v' \<leftarrow> fetch (rvals s) (unat i);
                    vs \<leftarrow> store (rvals s) (unat i) val;
                    fl \<leftarrow> set_isdel_true (oflags s) i;
                    kick hf n msk k' v' \<lparr>oflags = fl, nflags = nf, rkeys = ks, rvals = vs\<rparr> }
          else do { ks \<leftarrow> store (rkeys s) (unat i) (Some key);
                    vs \<leftarrow> store (rvals s) (unat i) val;
                    Some (s\<lparr>nflags := nf, rkeys := ks, rvals := vs\<rparr>) } }"

fun rehash_loop :: "('k \<Rightarrow> u32) \<Rightarrow> u32 \<Rightarrow> u32 \<Rightarrow> u32 list \<Rightarrow> ('k, 'v) rehash \<Rightarrow> ('k, 'v) rehash option" where
  "rehash_loop hf n msk [] s = Some s"
| "rehash_loop hf n msk (j # js) s =
     do { b \<leftarrow> iseither (oflags s) j;
          s \<leftarrow> (if b then Some s
               else do { key \<leftarrow> fetch_set (rkeys s) (unat j);
                         val \<leftarrow> fetch (rvals s) (unat j);
                         fl \<leftarrow> set_isdel_true (oflags s) j;
                         kick hf n msk key val (s\<lparr>oflags := fl\<rparr>) });
          rehash_loop hf n msk js s }"

definition kh_resize :: "('k \<Rightarrow> u32) \<Rightarrow> ('k, 'v) khash \<Rightarrow> u32 \<Rightarrow> ('k, 'v) khash option" where
  "kh_resize hf h nn =
     (let nn = kroundup32 nn; nn = (if nn < 4 then 4 else nn); old = n_buckets h
      in if hash_upper nn \<le> ksize h then Some h
         else
           let grow = (\<lambda>xs. if old < nn then realloc (unat nn) xs else xs);
               grow' = (\<lambda>xs. if old < nn then realloc (unat nn) xs else xs);
               shrink = (\<lambda>xs. if nn < old then realloc (unat nn) xs else xs);
               shrink' = (\<lambda>xs. if nn < old then realloc (unat nn) xs else xs)
           in do { s \<leftarrow> rehash_loop hf old (nn - 1) (map word_of_nat [0..<unat old])
                        \<lparr>oflags = hflags h, nflags = empty_flags nn, rkeys = grow (hkeys h), rvals = grow' (hvals h)\<rparr>;
                   Some \<lparr>n_buckets = nn, ksize = ksize h, n_occupied = ksize h, upper_bound = hash_upper nn,
                         hflags = nflags s, hkeys = shrink (rkeys s), hvals = shrink' (rvals s)\<rparr> })"

section \<open>Insertion and removal\<close>

text \<open>The loop ends with \<open>(i, x, site)\<close>.\<close>

partial_function (option) kh_put_loop ::
    "('k, 'v) khash \<Rightarrow> 'k \<Rightarrow> u32 \<Rightarrow> u32 \<Rightarrow> u32 \<Rightarrow> u32 \<Rightarrow> u32 \<Rightarrow> (u32 \<times> u32 \<times> u32) option" where
  "kh_put_loop h key inc msk lst i site =
     do { go \<leftarrow> probe_on h key i;
          if go
          then do { d \<leftarrow> isdel (hflags h) i;
                    (let site = (if d then i else site); i = (i + inc) AND msk
                     in if i = lst then Some (i, site, site) else kh_put_loop h key inc msk lst i site) }
          else Some (i, n_buckets h, site) }"

definition kh_find_site :: "('k \<Rightarrow> u32) \<Rightarrow> ('k, 'v) khash \<Rightarrow> 'k \<Rightarrow> u32 option" where
  "kh_find_site hf h key =
     (let msk = n_buckets h - 1; k = hf key; i = k AND msk
      in do { e \<leftarrow> isempty (hflags h) i;
              if e then Some i
              else do { (i, x, site) \<leftarrow> kh_put_loop h key (ac_inc k msk) msk i i (n_buckets h);
                        if x = n_buckets h
                        then do { e \<leftarrow> isempty (hflags h) i; Some (if e \<and> site \<noteq> n_buckets h then site else i) }
                        else Some x } })"

definition kh_put :: "('k \<Rightarrow> u32) \<Rightarrow> ('k, 'v) khash \<Rightarrow> 'k \<Rightarrow> (nat \<times> u32 \<times> ('k, 'v) khash) option" where
  "kh_put hf h key =
     do { h \<leftarrow> (if upper_bound h \<le> n_occupied h
                then kh_resize hf h (if push_bit 1 (ksize h) < n_buckets h then n_buckets h - 1 else n_buckets h + 1)
                else Some h);
          x \<leftarrow> kh_find_site hf h key;
          e \<leftarrow> isempty (hflags h) x;
          d \<leftarrow> isdel (hflags h) x;
          if e \<or> d
          then do { ks \<leftarrow> store (hkeys h) (unat x) (Some key);
                    fl \<leftarrow> set_isboth_false (hflags h) x;
                    Some (if e then 1 else 2, x,
                          h\<lparr>hkeys := ks, hflags := fl, ksize := ksize h + 1,
                            n_occupied := (if e then n_occupied h + 1 else n_occupied h)\<rparr>) }
          else Some (0, x, h) }"

definition kh_del :: "('k, 'v) khash \<Rightarrow> u32 \<Rightarrow> ('k, 'v) khash option" where
  "kh_del h x =
     (if x = n_buckets h then Some h
      else do { b \<leftarrow> iseither (hflags h) x;
                if b then Some h
                else do { fl \<leftarrow> set_isdel_true (hflags h) x; Some (h\<lparr>hflags := fl, ksize := ksize h - 1\<rparr>) } })"

end
