(* ===== verification/KHashProbe.thy ===== *)
theory KHashProbe
  imports KHash "HOL-Library.Multiset"
begin

text \<open>
  What the flag macros and the probe sequence of the hash table do, over natural numbers:
  two flags a bucket, and a sequence of buckets that meets each of them once.
\<close>

section \<open>Flags\<close>

definition emp :: "u32 list \<Rightarrow> nat \<Rightarrow> bool" where
  "emp fl i \<longleftrightarrow> bit (fl ! (i div 16)) (2 * (i mod 16) + 1)"

definition dl :: "u32 list \<Rightarrow> nat \<Rightarrow> bool" where
  "dl fl i \<longleftrightarrow> bit (fl ! (i div 16)) (2 * (i mod 16))"

definition live :: "u32 list \<Rightarrow> nat \<Rightarrow> bool" where
  "live fl i \<longleftrightarrow> \<not> emp fl i \<and> \<not> dl fl i"

definition covers :: "u32 list \<Rightarrow> nat \<Rightarrow> bool" where
  "covers fl i \<longleftrightarrow> i div 16 < length fl"

lemma flag_word_eq: "flag_word i = unat i div 16"
  by (simp add: flag_word_def drop_bit_eq_div unat_div)

lemma and_15: "unat ((i :: u32) AND 15) = unat i mod 16"
proof -
  have "i AND 15 = take_bit 4 i" by (simp add: take_bit_eq_mask mask_eq_exp_minus_1)
  then show ?thesis by (simp add: take_bit_eq_mod unat_mod)
qed

lemma flag_shift_eq: "flag_shift i = 2 * (unat i mod 16)"
proof -
  have "unat (i AND 15) < 2 ^ 4" using and_15 [of i] by simp
  then have "unat (2 * (i AND 15)) = 2 * unat (i AND 15)"
    by (subst unat_mult_lem [THEN iffD1]) simp_all
  then show ?thesis by (simp add: flag_shift_def push_bit_eq_mult and_15 mult.commute)
qed

lemma and_pow2: "(w :: u32) AND 1 \<noteq> 0 \<longleftrightarrow> bit w 0" "w AND 2 \<noteq> 0 \<longleftrightarrow> bit w 1" "w AND 3 \<noteq> 0 \<longleftrightarrow> bit w 0 \<or> bit w 1"
proof -
  show 1: "w AND 1 \<noteq> 0 \<longleftrightarrow> bit w 0" using and_exp_eq_0_iff_not_bit [of w 0] by simp
  show 2: "w AND 2 \<noteq> 0 \<longleftrightarrow> bit w 1" using and_exp_eq_0_iff_not_bit [of w 1] by simp
  have "w AND 3 = (w AND 1) OR (w AND 2)"
    using bit.conj_disj_distrib [of w 1 2] by simp
  then show "w AND 3 \<noteq> 0 \<longleftrightarrow> bit w 0 \<or> bit w 1" using 1 2 by (simp add: or_eq_0_iff)
qed

lemma ac_flag_ok: "covers fl (unat i) \<Longrightarrow> ac_flag fl i = Some (drop_bit (2 * (unat i mod 16)) (fl ! (unat i div 16)))"
  by (simp add: ac_flag_def fetch_def covers_def flag_word_eq flag_shift_eq)

lemma flag_reads [simp]:
  assumes "covers fl (unat i)"
  shows "isempty fl i = Some (emp fl (unat i))" "isdel fl i = Some (dl fl (unat i))"
    "iseither fl i = Some (\<not> live fl (unat i))"
  using ac_flag_ok [OF assms]
  by (auto simp: isempty_def isdel_def iseither_def and_pow2 emp_def dl_def live_def bit_drop_bit_eq add.commute)

definition upd_flag :: "nat \<Rightarrow> (u32 \<Rightarrow> u32) \<Rightarrow> u32 list \<Rightarrow> u32 list" where
  "upd_flag i f fl = fl[i div 16 := f (fl ! (i div 16))]"

lemma flag_writes:
  assumes "covers fl (unat i)"
  shows "set_isdel_true fl i = Some (upd_flag (unat i) (\<lambda>w. w OR push_bit (2 * (unat i mod 16)) 1) fl)"
    "set_isempty_false fl i = Some (upd_flag (unat i) (\<lambda>w. w AND NOT (push_bit (2 * (unat i mod 16)) 2)) fl)"
    "set_isboth_false fl i = Some (upd_flag (unat i) (\<lambda>w. w AND NOT (push_bit (2 * (unat i mod 16)) 3)) fl)"
  using assms
  by (simp_all add: set_isdel_true_def set_isempty_false_def set_isboth_false_def fetch_def store_def covers_def
      flag_word_eq flag_shift_eq upd_flag_def)

text \<open>A write at one bucket, seen from bucket \<open>j\<close>.\<close>

lemma bit_const: "bit (1 :: u32) n \<longleftrightarrow> n = 0" "bit (2 :: u32) n \<longleftrightarrow> n = 1" "bit (3 :: u32) n \<longleftrightarrow> n = 0 \<or> n = 1"
proof -
  show "bit (1 :: u32) n \<longleftrightarrow> n = 0" by (simp add: bit_1_iff)
  show "bit (2 :: u32) n \<longleftrightarrow> n = 1" using bit_exp_iff [where 'a = u32, of 1 n] by auto
  have "(3 :: u32) = mask 2" by (simp add: mask_eq_exp_minus_1)
  then have "bit (3 :: u32) n \<longleftrightarrow> n < 2" by (simp only: bit_mask_iff) auto
  then show "bit (3 :: u32) n \<longleftrightarrow> n = 0 \<or> n = 1" by linarith
qed

lemma bit_field:
  "bit (push_bit (2 * q) 1 :: u32) m \<longleftrightarrow> m < 32 \<and> m = 2 * q"
  "bit (push_bit (2 * q) 2 :: u32) m \<longleftrightarrow> m < 32 \<and> m = 2 * q + 1"
  "bit (push_bit (2 * q) 3 :: u32) m \<longleftrightarrow> m < 32 \<and> (m = 2 * q \<or> m = 2 * q + 1)"
  by (simp_all only: bit_push_bit_iff bit_const) auto

lemma upd_flag_bit:
  fixes b :: nat
  assumes "covers fl i" and local: "\<And>w m. m < 32 \<Longrightarrow> m div 2 \<noteq> i mod 16 \<Longrightarrow> bit (f w) m = bit w m"
    and "b \<le> 1"
  shows "bit (upd_flag i f fl ! (j div 16)) (2 * (j mod 16) + b) =
    (if j = i then bit (f (fl ! (i div 16))) (2 * (i mod 16) + b) else bit (fl ! (j div 16)) (2 * (j mod 16) + b))"
proof (cases "j div 16 = i div 16")
  case True
  then have "j = i \<longleftrightarrow> j mod 16 = i mod 16" by (metis div_mult_mod_eq)
  moreover have "(2 * (j mod 16) + b) div 2 = j mod 16" using assms(3) by simp
  moreover have "2 * (j mod 16) + b < 32" using assms(3) mod_less_divisor [of 16 j] by linarith
  ultimately show ?thesis
    using True assms(1) local [of "2 * (j mod 16) + b" "fl ! (i div 16)"] by (auto simp: upd_flag_def covers_def)
next
  case False
  then show ?thesis by (auto simp: upd_flag_def)
qed

lemma mark_deleted:
  assumes "covers fl (unat i)"
  shows "\<exists>fl'. set_isdel_true fl i = Some fl' \<and> length fl' = length fl \<and> emp fl' = emp fl \<and>
    dl fl' = (dl fl)(unat i := True)"
proof -
  let ?f = "\<lambda>w :: u32. w OR push_bit (2 * (unat i mod 16)) 1"
  have "bit (?f w) m = bit w m" if "m < 32" "m div 2 \<noteq> unat i mod 16" for w m
    using that by (auto simp: bit_or_iff bit_field simp del: push_bit_of_1)
  note B = upd_flag_bit [OF assms this]
  have "emp (upd_flag (unat i) ?f fl) j = emp fl j" for j
    using B [of 1 j] by (auto simp: emp_def bit_or_iff bit_field simp del: push_bit_of_1)
  moreover have "dl (upd_flag (unat i) ?f fl) j = ((dl fl)(unat i := True)) j" for j
    using B [of 0 j] by (auto simp: dl_def bit_or_iff bit_field simp del: push_bit_of_1)
  ultimately show ?thesis using flag_writes(1) [OF assms] by (auto simp: upd_flag_def)
qed

lemma mark_occupied:
  assumes "covers fl (unat i)"
  shows "\<exists>fl'. set_isempty_false fl i = Some fl' \<and> length fl' = length fl \<and> emp fl' = (emp fl)(unat i := False) \<and>
    dl fl' = dl fl"
proof -
  let ?f = "\<lambda>w :: u32. w AND NOT (push_bit (2 * (unat i mod 16)) 2)"
  have "bit (?f w) m = bit w m" if "m < 32" "m div 2 \<noteq> unat i mod 16" for w m
    using that by (auto simp: bit_and_iff bit_not_iff bit_field)
  note B = upd_flag_bit [OF assms this]
  have "emp (upd_flag (unat i) ?f fl) j = ((emp fl)(unat i := False)) j" for j
    using B [of 1 j] by (auto simp: emp_def bit_and_iff bit_not_iff bit_field)
  moreover have "dl (upd_flag (unat i) ?f fl) j = dl fl j" for j
    using B [of 0 j] by (auto simp: dl_def bit_and_iff bit_not_iff bit_field dest: bit_imp_le_length)
  ultimately show ?thesis using flag_writes(2) [OF assms] by (auto simp: upd_flag_def)
qed

lemma mark_live:
  assumes "covers fl (unat i)"
  shows "\<exists>fl'. set_isboth_false fl i = Some fl' \<and> length fl' = length fl \<and> emp fl' = (emp fl)(unat i := False) \<and>
    dl fl' = (dl fl)(unat i := False)"
proof -
  let ?f = "\<lambda>w :: u32. w AND NOT (push_bit (2 * (unat i mod 16)) 3)"
  have "bit (?f w) m = bit w m" if "m < 32" "m div 2 \<noteq> unat i mod 16" for w m
    using that by (auto simp: bit_and_iff bit_not_iff bit_field)
  note B = upd_flag_bit [OF assms this]
  have "emp (upd_flag (unat i) ?f fl) j = ((emp fl)(unat i := False)) j" for j
    using B [of 1 j] by (auto simp: emp_def bit_and_iff bit_not_iff bit_field)
  moreover have "dl (upd_flag (unat i) ?f fl) j = ((dl fl)(unat i := False)) j" for j
    using B [of 0 j] by (auto simp: dl_def bit_and_iff bit_not_iff bit_field)
  ultimately show ?thesis using flag_writes(3) [OF assms] by (auto simp: upd_flag_def)
qed

lemma empty_flags: "covers (empty_flags n) i \<Longrightarrow> emp (empty_flags n) i \<and> \<not> dl (empty_flags n) i"
proof -
  assume "covers (empty_flags n) i"
  then have "empty_flags n ! (i div 16) = 0xAAAAAAAA" by (simp add: covers_def empty_flags_def)
  moreover have "\<forall>k < 16. bit (0xAAAAAAAA :: u32) (2 * k + 1) \<and> \<not> bit (0xAAAAAAAA :: u32) (2 * k)" by code_simp
  ultimately show ?thesis by (simp add: emp_def dl_def)
qed

lemma covers_fsize: "i < unat n \<Longrightarrow> 16 dvd unat n \<or> unat n < 16 \<Longrightarrow> length fl = unat (ac_fsize n) \<Longrightarrow> covers fl i"
  by (auto simp: covers_def ac_fsize_def drop_bit_eq_div unat_div word_less_nat_alt less_mult_imp_div_less elim!: dvdE split: if_splits)

section \<open>The probe sequence\<close>

definition ppos :: "('k \<Rightarrow> u32) \<Rightarrow> nat \<Rightarrow> 'k \<Rightarrow> nat \<Rightarrow> nat" where
  "ppos hf m key t = (unat (hf key) + t * unat (ac_inc (hf key) (2 ^ m - 1))) mod 2 ^ m"

definition pword :: "('k \<Rightarrow> u32) \<Rightarrow> nat \<Rightarrow> 'k \<Rightarrow> nat \<Rightarrow> u32" where
  "pword hf m key t = word_of_nat (ppos hf m key t)"

lemma ppos_less [simp]: "ppos hf m key t < 2 ^ m"
  by (simp add: ppos_def)

lemma unat_and_msk: "m < 32 \<Longrightarrow> unat ((w :: u32) AND (2 ^ m - 1)) = unat w mod 2 ^ m"
proof -
  assume "m < 32"
  have "w AND (2 ^ m - 1) = take_bit m w" by (simp add: take_bit_eq_mask mask_eq_exp_minus_1)
  then show ?thesis by (simp add: unsigned_take_bit_eq) (simp add: take_bit_eq_mod)
qed

lemma unat_add_and_msk: "m < 32 \<Longrightarrow> unat (((v :: u32) + w) AND (2 ^ m - 1)) = (unat v + unat w) mod 2 ^ m"
proof -
  assume m: "m < 32"
  then have "(2 :: nat) ^ m dvd 2 ^ 32" by (intro le_imp_power_dvd) simp
  then show ?thesis using m by (simp add: unat_and_msk unat_word_ariths mod_mod_cancel)
qed

lemma unat_pword [simp]: "m < 32 \<Longrightarrow> unat (pword hf m key t) = ppos hf m key t"
proof -
  assume "m < 32"
  then have "ppos hf m key t < 2 ^ 32" using ppos_less [of hf m key t] power_strict_increasing [of m 32 "2 :: nat"] by linarith
  then show ?thesis by (simp add: pword_def unat_of_nat)
qed

lemma pword_0: "m < 32 \<Longrightarrow> hf key AND (2 ^ m - 1) = pword hf m key 0"
  by (rule word_unat_eq_iff [THEN iffD2]) (simp add: unat_and_msk ppos_def)

lemma pword_Suc: "m < 32 \<Longrightarrow> (pword hf m key t + ac_inc (hf key) (2 ^ m - 1)) AND (2 ^ m - 1) = pword hf m key (Suc t)"
  by (rule word_unat_eq_iff [THEN iffD2])
    (simp add: unat_add_and_msk ppos_def mod_simps algebra_simps)

lemma pword_eq: "m < 32 \<Longrightarrow> pword hf m key s = pword hf m key t \<longleftrightarrow> ppos hf m key s = ppos hf m key t"
  by (metis unat_pword pword_def)

lemma odd_inc: "0 < m \<Longrightarrow> m < 32 \<Longrightarrow> odd (unat (ac_inc k (2 ^ m - 1)))"
proof -
  assume m: "0 < m" "m < 32"
  have "bit (ac_inc k (2 ^ m - 1)) 0"
    using m by (simp add: ac_inc_def bit_and_iff bit_or_iff flip: mask_eq_exp_minus_1) (simp add: bit_mask_iff bit_1_iff)
  then have "bit (unat (ac_inc k (2 ^ m - 1))) 0" by (simp add: bit_unsigned_iff)
  then show ?thesis by (simp add: bit_0)
qed

lemma ppos_inj:
  assumes m: "0 < m" "m < 32" and "s < 2 ^ m" "t < 2 ^ m" "ppos hf m key s = ppos hf m key t"
  shows "s = t"
proof -
  have *: "s = t" if le: "s \<le> t" and "t < 2 ^ m" "ppos hf m key t = ppos hf m key s" for s t
  proof -
    define c where "c = unat (ac_inc (hf key) (2 ^ m - 1))"
    have "2 ^ m dvd (unat (hf key) + t * c) - (unat (hf key) + s * c)"
      using that mod_eq_dvd_iff_nat [of "unat (hf key) + s * c" "unat (hf key) + t * c" "2 ^ m"]
      by (simp add: ppos_def c_def)
    then have "2 ^ m dvd (t - s) * c" by (simp add: diff_mult_distrib)
    moreover have "coprime (2 ^ m) c" using odd_inc [OF m] by (simp add: c_def coprime_left_2_iff_odd)
    ultimately have "2 ^ m dvd t - s" by (simp add: coprime_dvd_mult_left_iff)
    then show ?thesis using that by (auto dest: dvd_imp_le)
  qed
  show ?thesis using * [of s t] * [of t s] assms by (cases "s \<le> t") auto
qed

lemma ppos_surj:
  assumes m: "0 < m" "m < 32" and j: "j < 2 ^ m"
  shows "\<exists>t < 2 ^ m. ppos hf m key t = j"
proof -
  have "inj_on (ppos hf m key) {..<2 ^ m}" using ppos_inj [OF m] by (auto simp: inj_on_def)
  then have "ppos hf m key ` {..<2 ^ m} = {..<2 ^ m}" by (intro endo_inj_surj) auto
  then show ?thesis using j by (metis imageE lessThan_iff)
qed

text \<open>A set of buckets that is not empty is met, at a first place.\<close>

lemma first_met:
  assumes "0 < m" "m < 32" "j < 2 ^ m" "P j"
  shows "\<exists>t < 2 ^ m. P (ppos hf m key t) \<and> (\<forall>s < t. \<not> P (ppos hf m key s))"
proof -
  obtain t where "t < 2 ^ m" "P (ppos hf m key t)" using ppos_surj [OF assms(1-3)] assms(4) by metis
  then show ?thesis using exists_least_iff [of "\<lambda>t. P (ppos hf m key t)"] by (meson le_less_trans not_less)
qed

end
