(* ===== verification/KHashOps.thy ===== *)
theory KHashOps
  imports KHashProbe
begin

text \<open>
  Lookup, insertion and deletion of the hash table. The invariant: every live key can be
  reached along its own probe sequence over buckets that were never empty since, no key is
  live twice, and the counters count.
\<close>

section \<open>The invariant\<close>

definition lvs :: "nat \<Rightarrow> u32 list \<Rightarrow> nat set" where
  "lvs m fl = {i. i < 2 ^ m \<and> live fl i}"

definition occs :: "nat \<Rightarrow> u32 list \<Rightarrow> nat set" where
  "occs m fl = {i. i < 2 ^ m \<and> \<not> emp fl i}"

definition reached :: "('k \<Rightarrow> u32) \<Rightarrow> nat \<Rightarrow> u32 list \<Rightarrow> 'k \<Rightarrow> nat \<Rightarrow> bool" where
  "reached hf m fl k i \<longleftrightarrow> (\<exists>t. ppos hf m k t = i \<and> (\<forall>s < t. \<not> emp fl (ppos hf m k s)))"

definition placed :: "('k \<Rightarrow> u32) \<Rightarrow> nat \<Rightarrow> u32 list \<Rightarrow> 'k option list \<Rightarrow> nat set \<Rightarrow> bool" where
  "placed hf m fl ks S \<longleftrightarrow> (\<forall>i \<in> S. \<exists>k. ks ! i = Some k \<and> reached hf m fl k i) \<and> inj_on ((!) ks) S"

definition table_inv :: "('k \<Rightarrow> u32) \<Rightarrow> nat \<Rightarrow> ('k, 'v) khash \<Rightarrow> bool" where
  "table_inv hf m h \<longleftrightarrow>
     2 \<le> m \<and> m < 32 \<and> n_buckets h = 2 ^ m \<and> length (hflags h) = unat (ac_fsize (2 ^ m)) \<and>
     length (hkeys h) = 2 ^ m \<and> length (hvals h) = 2 ^ m \<and>
     placed hf m (hflags h) (hkeys h) (lvs m (hflags h)) \<and>
     unat (ksize h) = card (lvs m (hflags h)) \<and> unat (n_occupied h) = card (occs m (hflags h)) \<and>
     upper_bound h = hash_upper (2 ^ m) \<and> n_occupied h \<le> upper_bound h"

lemma finite_lvs [simp]: "finite (lvs m fl)" "finite (occs m fl)"
  by (simp_all add: lvs_def occs_def)

lemma lvs_occs: "lvs m fl \<subseteq> occs m fl"
  by (auto simp: lvs_def occs_def live_def)

lemma unat_exp: "m < 32 \<Longrightarrow> unat (2 ^ m :: u32) = 2 ^ m"
proof -
  assume "m < 32"
  then have "(2 :: nat) ^ m < 2 ^ 32" by (intro power_strict_increasing) simp_all
  then have "unat (word_of_nat (2 ^ m) :: u32) = 2 ^ m" by (simp only: unat_of_nat) simp
  then show ?thesis by simp
qed

lemma covers_table:
  assumes "m < 32" "length fl = unat (ac_fsize (2 ^ m))" "i < 2 ^ m"
  shows "covers fl i"
proof (rule covers_fsize [where n = "2 ^ m"])
  show "i < unat (2 ^ m :: u32)" using assms by (simp add: unat_exp)
  have "16 dvd (2 :: nat) ^ m" if "4 \<le> m" using le_imp_power_dvd [OF that, of "2 :: nat"] by simp
  moreover have "(2 :: nat) ^ m < 16" if "m < 4" using power_strict_increasing [OF that, of "2 :: nat"] by simp
  ultimately show "16 dvd unat (2 ^ m :: u32) \<or> unat (2 ^ m :: u32) < 16"
    using assms(1) by (cases "4 \<le> m") (auto simp: unat_exp)
qed (rule assms(2))

lemma hash_upper_less:
  assumes "2 \<le> m" "m < 32"
  shows "unat (hash_upper (2 ^ m)) = (77 * 2 ^ m + 50) div 100" "unat (hash_upper (2 ^ m)) < 2 ^ m"
proof -
  have m4: "(4 :: nat) \<le> 2 ^ m" using power_increasing [OF assms(1), of "2 :: nat"] by simp
  have "(2 :: nat) ^ m < 2 ^ 32" using assms by (intro power_strict_increasing) simp_all
  then have "(77 * 2 ^ m + 50) div 100 < (2 :: nat) ^ 32" using m4 by simp
  then show 1: "unat (hash_upper (2 ^ m)) = (77 * 2 ^ m + 50) div 100"
    using assms by (simp add: hash_upper_def unat_exp unat_of_nat)
  show "unat (hash_upper (2 ^ m)) < 2 ^ m" using m4 unfolding 1 by linarith
qed

section \<open>Probing\<close>

definition going :: "('k, 'v) khash \<Rightarrow> 'k \<Rightarrow> nat \<Rightarrow> bool" where
  "going h key i \<longleftrightarrow> \<not> emp (hflags h) i \<and> (dl (hflags h) i \<or> hkeys h ! i \<noteq> Some key)"

lemma table_covers: "table_inv hf m h \<Longrightarrow> i < 2 ^ m \<Longrightarrow> covers (hflags h) i"
  using covers_table by (auto simp: table_inv_def)

lemma table_key:
  assumes "table_inv hf m h" "i \<in> lvs m (hflags h)"
  shows "\<exists>k. fetch_set (hkeys h) i = Some k \<and> hkeys h ! i = Some k \<and> reached hf m (hflags h) k i"
  using assms by (auto simp: table_inv_def placed_def fetch_set_def fetch_def lvs_def)

lemma probe_on_eq:
  assumes "table_inv hf m h" "unat i < 2 ^ m"
  shows "probe_on h key i = Some (going h key (unat i))"
proof (cases "live (hflags h) (unat i)")
  case True
  then obtain k where "fetch_set (hkeys h) (unat i) = Some k" "hkeys h ! unat i = Some k"
    using table_key [OF assms(1), of "unat i"] assms(2) by (auto simp: lvs_def)
  then show ?thesis
    using True table_covers [OF assms] by (simp add: probe_on_def going_def live_def)
next
  case False
  then show ?thesis using table_covers [OF assms] by (auto simp: probe_on_def going_def live_def)
qed

lemma key_unique:
  "table_inv hf m h \<Longrightarrow> i \<in> lvs m (hflags h) \<Longrightarrow> j \<in> lvs m (hflags h) \<Longrightarrow> hkeys h ! i = hkeys h ! j \<Longrightarrow> i = j"
  by (auto simp: table_inv_def placed_def inj_on_def)

text \<open>The probe for a key stops, at a first place of its sequence.\<close>

lemma probe_stops:
  assumes inv: "table_inv hf m h"
  shows "\<exists>T < 2 ^ m. \<not> going h key (ppos hf m key T) \<and> (\<forall>s < T. going h key (ppos hf m key s))"
proof -
  have m: "2 \<le> m" "m < 32" and "card (occs m (hflags h)) < 2 ^ m"
    using inv hash_upper_less [of m] by (auto simp: table_inv_def word_le_nat_alt)
  then have "occs m (hflags h) \<noteq> {..<2 ^ m}" by (metis card_lessThan less_irrefl)
  moreover have "occs m (hflags h) \<subseteq> {..<2 ^ m}" by (auto simp: occs_def)
  ultimately obtain j where "j < 2 ^ m" "emp (hflags h) j" by (auto simp: occs_def)
  then show ?thesis
    using first_met [of m j "\<lambda>i. \<not> going h key i" hf key] m by (auto simp: going_def)
qed

lemma ppos_return:
  assumes "0 < m" "m < 32" "Suc s < 2 ^ m"
  shows "pword hf m key (Suc s) \<noteq> pword hf m key 0"
  using ppos_inj [OF assms(1,2) assms(3), of 0 hf key] assms(2) by (auto simp: pword_eq)

lemma get_loop:
  assumes inv: "table_inv hf m h" and T: "T < 2 ^ m" "\<not> going h key (ppos hf m key T)"
    "\<forall>s < T. going h key (ppos hf m key s)" and t: "t \<le> T"
  shows "kh_get_loop h key (ac_inc (hf key) (2 ^ m - 1)) (2 ^ m - 1) (pword hf m key 0) (pword hf m key t) =
    Some (if live (hflags h) (ppos hf m key T) then pword hf m key T else n_buckets h)"
  using t
proof (induction rule: inc_induct)
  case base
  have m: "m < 32" using inv by (simp add: table_inv_def)
  show ?case
    using T(2) table_covers [OF inv ppos_less [of hf m key T]] probe_on_eq [OF inv, of "pword hf m key T"] m
    by (subst kh_get_loop.simps) simp
next
  case (step t)
  have m: "0 < m" "m < 32" using inv by (auto simp: table_inv_def)
  have "pword hf m key (Suc t) \<noteq> pword hf m key 0" using step.hyps T(1) by (intro ppos_return [OF m]) simp
  then show ?case
    using step T(3) probe_on_eq [OF inv, of "pword hf m key t" key] m
    by (subst kh_get_loop.simps) (simp add: pword_Suc Let_def)
qed

text \<open>Where the probe stops lies the key, or an empty bucket if the table has it not.\<close>

lemma stop_cases:
  assumes inv: "table_inv hf m h" and T: "\<not> going h key (ppos hf m key T)" "\<forall>s < T. going h key (ppos hf m key s)"
  shows "if \<exists>j \<in> lvs m (hflags h). hkeys h ! j = Some key
    then ppos hf m key T \<in> lvs m (hflags h) \<and> hkeys h ! ppos hf m key T = Some key
    else emp (hflags h) (ppos hf m key T)"
proof (cases "\<exists>j \<in> lvs m (hflags h). hkeys h ! j = Some key")
  case True
  then obtain j where j: "j \<in> lvs m (hflags h)" "hkeys h ! j = Some key" by blast
  then obtain t where t: "ppos hf m key t = j" "\<forall>s < t. \<not> emp (hflags h) (ppos hf m key s)"
    using table_key [OF inv j(1)] by (auto simp: reached_def)
  have "\<not> going h key j" using j by (auto simp: going_def lvs_def live_def)
  then have le: "T \<le> t" using T(2) t(1) by (meson not_less)
  have "\<not> emp (hflags h) (ppos hf m key T)"
    using t le j by (cases "T = t") (auto simp: lvs_def live_def)
  then show ?thesis using True T(1) by (auto simp: going_def lvs_def live_def)
next
  case False
  then have "\<not> (live (hflags h) (ppos hf m key T) \<and> hkeys h ! ppos hf m key T = Some key)"
    by (auto simp: lvs_def)
  then show ?thesis using False T(1) by (auto simp: going_def live_def)
qed

lemma kh_get_spec:
  assumes inv: "table_inv hf m h"
  shows "\<exists>i. kh_get hf h key = Some i \<and>
    (if \<exists>j \<in> lvs m (hflags h). hkeys h ! j = Some key
     then i \<noteq> n_buckets h \<and> unat i \<in> lvs m (hflags h) \<and> hkeys h ! unat i = Some key
     else i = n_buckets h)"
proof -
  have m: "m < 32" "n_buckets h = 2 ^ m" using inv by (auto simp: table_inv_def)
  obtain T where T: "T < 2 ^ m" "\<not> going h key (ppos hf m key T)" "\<forall>s < T. going h key (ppos hf m key s)"
    using probe_stops [OF inv] by blast
  have n: "n_buckets h \<noteq> 0" using m by (metis unat_exp unat_0 power_not_zero zero_neq_numeral)
  have "pword hf m key T \<noteq> n_buckets h"
    using m unat_pword [OF m(1), of hf key T] ppos_less [of hf m key T] unat_exp [OF m(1)] by force
  moreover have "kh_get hf h key = Some (if live (hflags h) (ppos hf m key T) then pword hf m key T else n_buckets h)"
    using get_loop [OF inv T, of 0] n m by (simp add: kh_get_def Let_def pword_0)
  ultimately show ?thesis
    using stop_cases [OF inv T(2,3)] m(1) by (auto simp: lvs_def live_def split: if_splits)
qed

section \<open>The contents\<close>

text \<open>What an iterator meets, bucket by bucket.\<close>

definition entries :: "('k, 'v) khash \<Rightarrow> ('k \<times> 'v option) list" where
  "entries h = map (\<lambda>i. (the (hkeys h ! i), hvals h ! i)) (filter (live (hflags h)) [0..<unat (n_buckets h)])"

lemma entries_keys:
  assumes "table_inv hf m h"
  shows "set (filter (live (hflags h)) [0..<unat (n_buckets h)]) = lvs m (hflags h)"
    "distinct (map fst (entries h))"
proof -
  have n: "unat (n_buckets h) = 2 ^ m" using assms by (auto simp: table_inv_def unat_exp)
  then show set: "set (filter (live (hflags h)) [0..<unat (n_buckets h)]) = lvs m (hflags h)"
    by (auto simp: lvs_def)
  have "inj_on (\<lambda>i. the (hkeys h ! i)) (lvs m (hflags h))"
    using assms by (auto simp: table_inv_def placed_def inj_on_def) (metis option.sel)
  then have "distinct (map (\<lambda>i. the (hkeys h ! i)) (filter (live (hflags h)) [0..<unat (n_buckets h)]))"
    unfolding distinct_map set by simp
  then show "distinct (map fst (entries h))" by (simp add: entries_def comp_def)
qed

lemma entries_map:
  assumes inv: "table_inv hf m h"
  shows "map_of (entries h) k = Some v \<longleftrightarrow> (\<exists>i \<in> lvs m (hflags h). hkeys h ! i = Some k \<and> hvals h ! i = v)"
proof -
  have "(k, v) \<in> set (entries h) \<longleftrightarrow> (\<exists>i \<in> lvs m (hflags h). the (hkeys h ! i) = k \<and> hvals h ! i = v)"
    unfolding entries_def set_map entries_keys(1) [OF inv] by auto
  then show ?thesis
    using entries_keys(2) [OF inv] table_key [OF inv] by (auto simp: map_of_eq_Some_iff) fastforce+
qed

lemma entries_None:
  assumes inv: "table_inv hf m h"
  shows "map_of (entries h) k = None \<longleftrightarrow> (\<forall>i \<in> lvs m (hflags h). hkeys h ! i \<noteq> Some k)"
  using entries_map [OF inv, of k] by (cases "map_of (entries h) k") auto

lemma kh_get_entries:
  assumes inv: "table_inv hf m h"
  shows "\<exists>i. kh_get hf h key = Some i \<and>
    (case map_of (entries h) key of
       None \<Rightarrow> i = n_buckets h
     | Some v \<Rightarrow> i \<noteq> n_buckets h \<and> unat i \<in> lvs m (hflags h) \<and> hkeys h ! unat i = Some key \<and> hvals h ! unat i = v)"
proof -
  obtain i where i: "kh_get hf h key = Some i" "if \<exists>j \<in> lvs m (hflags h). hkeys h ! j = Some key
     then i \<noteq> n_buckets h \<and> unat i \<in> lvs m (hflags h) \<and> hkeys h ! unat i = Some key else i = n_buckets h"
    using kh_get_spec [OF inv] by blast
  show ?thesis
  proof (cases "map_of (entries h) key")
    case None
    then have "\<not> (\<exists>j \<in> lvs m (hflags h). hkeys h ! j = Some key)" by (simp add: entries_None [OF inv])
    then show ?thesis using i None by simp
  next
    case (Some v)
    then obtain j where j: "j \<in> lvs m (hflags h)" "hkeys h ! j = Some key" "hvals h ! j = v"
      using entries_map [OF inv] by blast
    then have "\<exists>j \<in> lvs m (hflags h). hkeys h ! j = Some key" by blast
    then have "unat i \<in> lvs m (hflags h)" "hkeys h ! unat i = Some key" "i \<noteq> n_buckets h" using i(2) by simp_all
    moreover from this have "unat i = j"
      using inv j by (auto simp: table_inv_def placed_def inj_on_def)
    ultimately show ?thesis using i(1) j Some by auto
  qed
qed

section \<open>Deletion\<close>

lemma placed_mono:
  assumes "placed hf m fl ks S" "S' \<subseteq> S" "\<And>i. i < 2 ^ m \<Longrightarrow> emp fl' i \<Longrightarrow> emp fl i"
  shows "placed hf m fl' ks S'"
  using assms unfolding placed_def reached_def by (meson inj_on_subset ppos_less subsetD)

lemma unat_dec: "0 < unat (w :: u32) \<Longrightarrow> unat (w - 1) = unat w - 1"
  by (simp add: unat_sub word_le_nat_alt)

lemma kh_del_spec:
  assumes inv: "table_inv hf m h" and x: "unat x \<in> lvs m (hflags h)" "hkeys h ! unat x = Some key"
  shows "\<exists>h'. kh_del h x = Some h' \<and> table_inv hf m h' \<and> map_of (entries h') = (map_of (entries h))(key := None)"
proof -
  have m: "2 \<le> m" "m < 32" "n_buckets h = 2 ^ m" and c: "covers (hflags h) (unat x)"
    using inv x table_covers [OF inv] by (auto simp: table_inv_def lvs_def)
  have n: "x \<noteq> n_buckets h" using x(1) m unat_exp by (auto simp: lvs_def)
  obtain fl where fl: "set_isdel_true (hflags h) x = Some fl" "length fl = length (hflags h)"
    "emp fl = emp (hflags h)" "dl fl = (dl (hflags h))(unat x := True)" using mark_deleted [OF c] by blast
  define h' where "h' = h\<lparr>hflags := fl, ksize := ksize h - 1\<rparr>"
  have L: "lvs m fl = lvs m (hflags h) - {unat x}" "occs m fl = occs m (hflags h)"
    using fl(3,4) by (auto simp: lvs_def occs_def live_def)
  have pos: "0 < card (lvs m (hflags h))" using x(1) by (auto simp: card_gt_0_iff)
  have "kh_del h x = Some h'" using n c x(1) fl(1) by (simp add: kh_del_def h'_def lvs_def)
  moreover have inv': "table_inv hf m h'"
    using inv fl(2,3) L pos x(1) placed_mono [of hf m "hflags h" "hkeys h" "lvs m (hflags h)" "lvs m fl" fl]
    by (auto simp: table_inv_def h'_def unat_dec)
  moreover have "map_of (entries h') = (map_of (entries h))(key := None)"
  proof
    fix k
    have "map_of (entries h') k = Some v \<longleftrightarrow> ((map_of (entries h))(key := None)) k = Some v" for v
    proof -
      have "j = unat x" if "j \<in> lvs m (hflags h)" "hkeys h ! j = Some key" for j
        using key_unique [OF inv that(1) x(1)] that(2) x(2) by simp
      moreover have "map_of (entries h') k = Some v \<longleftrightarrow>
          (\<exists>j \<in> lvs m (hflags h) - {unat x}. hkeys h ! j = Some k \<and> hvals h ! j = v)"
        unfolding entries_map [OF inv'] by (simp add: h'_def L)
      moreover have "(\<exists>j \<in> lvs m (hflags h) - {unat x}. hkeys h ! j = Some k \<and> hvals h ! j = v) \<longleftrightarrow>
          (\<exists>j \<in> lvs m (hflags h). hkeys h ! j = Some k \<and> hvals h ! j = v)" if "k \<noteq> key"
      proof -
        have "hkeys h ! unat x \<noteq> Some k" using x(2) that by simp
        then show ?thesis by blast
      qed
      ultimately show ?thesis using entries_map [OF inv, of k v] by (cases "k = key") (simp_all, blast)
    qed
    then show "map_of (entries h') k = ((map_of (entries h))(key := None)) k"
      by (metis not_None_eq)
  qed
  ultimately show ?thesis by blast
qed

section \<open>Insertion into a table with room\<close>

lemma placed_insert:
  assumes pl: "placed hf m fl ks S" and i: "i \<notin> S" "i < length ks" and key: "\<forall>j \<in> S. ks ! j \<noteq> Some key"
    and r: "reached hf m fl key i" and fl': "emp fl' = (emp fl)(i := False)" and S: "\<forall>j \<in> S. j \<noteq> i"
  shows "placed hf m fl' (ks[i := Some key]) (insert i S)"
proof -
  have less: "reached hf m fl k j \<Longrightarrow> reached hf m fl' k j" for k j
    using fl' by (auto simp: reached_def)
  have "inj_on ((!) (ks[i := Some key])) (insert i S)"
    using pl i key by (auto simp: placed_def inj_on_def nth_list_update)
  moreover have "\<forall>j \<in> insert i S. \<exists>k. ks[i := Some key] ! j = Some k \<and> reached hf m fl' k j"
    using pl i less r by (auto simp: placed_def nth_list_update)
  ultimately show ?thesis by (simp add: placed_def)
qed

lemma put_loop:
  assumes inv: "table_inv hf m h" and T: "T < 2 ^ m" "\<not> going h key (ppos hf m key T)"
    "\<forall>s < T. going h key (ppos hf m key s)" and t: "t \<le> T"
  shows "site = n_buckets h \<or> (\<exists>s < t. site = pword hf m key s \<and> dl (hflags h) (ppos hf m key s)) \<Longrightarrow>
    \<exists>site'. kh_put_loop h key (ac_inc (hf key) (2 ^ m - 1)) (2 ^ m - 1) (pword hf m key 0) (pword hf m key t) site =
        Some (pword hf m key T, n_buckets h, site') \<and>
      (site' = n_buckets h \<or> (\<exists>s < T. site' = pword hf m key s \<and> dl (hflags h) (ppos hf m key s)))"
  using t
proof (induction arbitrary: site rule: inc_induct)
  case base
  have m: "m < 32" using inv by (simp add: table_inv_def)
  then show ?case
    using base T(2) probe_on_eq [OF inv, of "pword hf m key T"] by (subst kh_put_loop.simps) simp
next
  case (step t)
  have m: "0 < m" "m < 32" using inv by (auto simp: table_inv_def)
  define site' where "site' = (if dl (hflags h) (ppos hf m key t) then pword hf m key t else site)"
  have "pword hf m key (Suc t) \<noteq> pword hf m key 0" using step.hyps T(1) by (intro ppos_return [OF m]) simp
  then have "kh_put_loop h key (ac_inc (hf key) (2 ^ m - 1)) (2 ^ m - 1) (pword hf m key 0) (pword hf m key t) site =
      kh_put_loop h key (ac_inc (hf key) (2 ^ m - 1)) (2 ^ m - 1) (pword hf m key 0) (pword hf m key (Suc t)) site'"
    using step.hyps T(3) probe_on_eq [OF inv, of "pword hf m key t" key] m table_covers [OF inv ppos_less [of hf m key t]]
    by (subst kh_put_loop.simps) (simp add: pword_Suc Let_def site'_def)
  moreover have "site' = n_buckets h \<or> (\<exists>s < Suc t. site' = pword hf m key s \<and> dl (hflags h) (ppos hf m key s))"
    using step.prems by (auto simp: site'_def less_Suc_eq)
  ultimately show ?case using step.IH by simp
qed

lemma find_site:
  assumes inv: "table_inv hf m h" and absent: "\<forall>j \<in> lvs m (hflags h). hkeys h ! j \<noteq> Some key"
  shows "\<exists>S. kh_find_site hf h key = Some (pword hf m key S) \<and> \<not> live (hflags h) (ppos hf m key S) \<and>
    reached hf m (hflags h) key (ppos hf m key S)"
proof -
  have m: "2 \<le> m" "m < 32" "n_buckets h = 2 ^ m" using inv by (auto simp: table_inv_def)
  obtain T where T: "T < 2 ^ m" "\<not> going h key (ppos hf m key T)" "\<forall>s < T. going h key (ppos hf m key s)"
    using probe_stops [OF inv] by blast
  have e: "emp (hflags h) (ppos hf m key T)" using stop_cases [OF inv T(2,3)] absent by auto
  have r: "reached hf m (hflags h) key (ppos hf m key s)" if "s \<le> T" for s
    using T(3) that by (auto simp: reached_def going_def)
  note c = table_covers [OF inv ppos_less [of hf m key T]] table_covers [OF inv ppos_less [of hf m key 0]]
  show ?thesis
  proof (cases "T = 0")
    case True
    then show ?thesis
      using e r [of T] m c by (intro exI [of _ 0]) (auto simp: kh_find_site_def Let_def pword_0 live_def)
  next
    case False
    then have "\<not> emp (hflags h) (ppos hf m key 0)" using T(3) by (auto simp: going_def)
    moreover obtain site where run: "kh_put_loop h key (ac_inc (hf key) (2 ^ m - 1)) (2 ^ m - 1) (pword hf m key 0)
          (pword hf m key 0) (n_buckets h) = Some (pword hf m key T, n_buckets h, site)"
      and site: "site = n_buckets h \<or> (\<exists>s < T. site = pword hf m key s \<and> dl (hflags h) (ppos hf m key s))"
      using put_loop [OF inv T, of 0 "n_buckets h"] by auto
    ultimately have f: "kh_find_site hf h key = Some (if site \<noteq> n_buckets h then site else pword hf m key T)"
      using m c e by (simp add: kh_find_site_def Let_def pword_0)
    show ?thesis
    proof (cases "site = n_buckets h")
      case True
      then show ?thesis using f e r [of T] by (intro exI [of _ T]) (simp add: live_def)
    next
      case False
      then obtain s where "s < T" "site = pword hf m key s" "dl (hflags h) (ppos hf m key s)" using site by blast
      then show ?thesis using f False r [of s] by (intro exI [of _ s]) (simp add: live_def)
    qed
  qed
qed

lemma unat_inc: "unat (w :: u32) < 2 ^ m \<Longrightarrow> m < 32 \<Longrightarrow> unat (w + 1) = unat w + 1"
proof -
  assume "unat w < 2 ^ m" "m < 32"
  moreover from this have "(2 :: nat) ^ m \<le> 2 ^ 31" by (intro power_increasing) simp_all
  ultimately show ?thesis by (simp add: unat_word_ariths)
qed

lemma card_less_table: "(i :: nat) < 2 ^ m \<Longrightarrow> i \<notin> S \<Longrightarrow> S \<subseteq> {..<2 ^ m} \<Longrightarrow> card S < (2 :: nat) ^ m"
  using psubset_card_mono [of "{..<2 ^ m}" S] by auto

text \<open>The last part of an insertion, at a free bucket the key reaches.\<close>

definition put_at :: "u32 \<Rightarrow> 'k \<Rightarrow> u32 list \<Rightarrow> ('k, 'v) khash \<Rightarrow> ('k, 'v) khash" where
  "put_at x key fl h =
     h\<lparr>hkeys := (hkeys h)[unat x := Some key], hflags := fl, ksize := ksize h + 1,
       n_occupied := (if emp (hflags h) (unat x) then n_occupied h + 1 else n_occupied h)\<rparr>"

lemma put_at_inv:
  assumes inv: "table_inv hf m h" and room: "n_occupied h < upper_bound h"
    and x: "unat x < 2 ^ m" "\<not> live (hflags h) (unat x)" "reached hf m (hflags h) key (unat x)"
    and absent: "\<forall>j \<in> lvs m (hflags h). hkeys h ! j \<noteq> Some key"
    and fl: "length fl = length (hflags h)" "emp fl = (emp (hflags h))(unat x := False)" "dl fl = (dl (hflags h))(unat x := False)"
  shows "table_inv hf m (put_at x key fl h)" "lvs m fl = insert (unat x) (lvs m (hflags h))"
proof -
  have m: "m < 32" using inv by (simp add: table_inv_def)
  show L: "lvs m fl = insert (unat x) (lvs m (hflags h))"
    using fl x(1) by (auto simp: lvs_def live_def)
  have O: "occs m fl = insert (unat x) (occs m (hflags h))" using fl x(1) by (auto simp: occs_def)
  have notin: "unat x \<notin> lvs m (hflags h)" using x(2) by (simp add: lvs_def)
  have "card (lvs m (hflags h)) < 2 ^ m" by (rule card_less_table [OF x(1) notin]) (auto simp: lvs_def)
  then have s: "unat (ksize h + 1) = card (lvs m fl)"
    using inv notin m by (subst unat_inc) (auto simp: L table_inv_def)
  have o: "unat (if emp (hflags h) (unat x) then n_occupied h + 1 else n_occupied h) = card (occs m fl)"
  proof (cases "emp (hflags h) (unat x)")
    case True
    then have "unat x \<notin> occs m (hflags h)" by (simp add: occs_def)
    moreover from this have "card (occs m (hflags h)) < 2 ^ m" by (rule card_less_table [OF x(1)]) (auto simp: occs_def)
    ultimately show ?thesis using inv True m by (subst if_P) (auto simp: O table_inv_def unat_inc)
  next
    case False
    then have "unat x \<in> occs m (hflags h)" using x(1) by (simp add: occs_def)
    then show ?thesis using inv False by (simp add: O insert_absorb table_inv_def)
  qed
  have "placed hf m fl ((hkeys h)[unat x := Some key]) (lvs m fl)"
    unfolding L using inv notin x absent fl
    by (intro placed_insert [where fl = "hflags h"]) (auto simp: table_inv_def)
  moreover have "(if emp (hflags h) (unat x) then n_occupied h + 1 else n_occupied h) \<le> upper_bound h"
    using room by (auto simp: inc_le)
  ultimately show "table_inv hf m (put_at x key fl h)"
    using inv s o fl(1) unfolding table_inv_def put_at_def by simp
qed

lemma put_found:
  assumes inv: "table_inv hf m h" and room: "n_occupied h < upper_bound h" and absent: "map_of (entries h) key = None"
  shows "\<exists>r x fl. kh_put hf h key = Some (r, x, put_at x key fl h) \<and> r \<noteq> 0 \<and> unat x < 2 ^ m \<and>
    \<not> live (hflags h) (unat x) \<and> reached hf m (hflags h) key (unat x) \<and> length fl = length (hflags h) \<and>
    emp fl = (emp (hflags h))(unat x := False) \<and> dl fl = (dl (hflags h))(unat x := False)"
proof -
  have m: "m < 32" and len: "length (hkeys h) = 2 ^ m" using inv by (auto simp: table_inv_def)
  have ab: "\<forall>j \<in> lvs m (hflags h). hkeys h ! j \<noteq> Some key" using absent entries_None [OF inv] by blast
  obtain S where S: "kh_find_site hf h key = Some (pword hf m key S)" "\<not> live (hflags h) (ppos hf m key S)"
    "reached hf m (hflags h) key (ppos hf m key S)" using find_site [OF inv ab] by blast
  define x where "x = pword hf m key S"
  have x: "unat x < 2 ^ m" "\<not> live (hflags h) (unat x)" "reached hf m (hflags h) key (unat x)"
    using S m by (simp_all add: x_def)
  have c: "covers (hflags h) (unat x)" by (rule table_covers [OF inv x(1)])
  obtain fl where fl: "set_isboth_false (hflags h) x = Some fl" "length fl = length (hflags h)"
    "emp fl = (emp (hflags h))(unat x := False)" "dl fl = (dl (hflags h))(unat x := False)" using mark_live [OF c] by blast
  have "kh_put hf h key = Some (if emp (hflags h) (unat x) then 1 else 2, x, put_at x key fl h)"
    using room S(1) x c fl(1) len by (auto simp: kh_put_def x_def [symmetric] store_def put_at_def live_def)
  then show ?thesis using x fl(2-4) by (auto split: if_splits)
qed

lemma put_with_room:
  assumes inv: "table_inv hf m h" and room: "n_occupied h < upper_bound h" and absent: "map_of (entries h) key = None"
  shows "\<exists>r x h'. kh_put hf h key = Some (r, x, h') \<and> table_inv hf m h' \<and> r \<noteq> 0 \<and>
    unat x \<in> lvs m (hflags h') \<and> hkeys h' ! unat x = Some key \<and> map_of (entries h') |` (- {key}) = map_of (entries h)"
proof -
  have len: "length (hkeys h) = 2 ^ m" using inv by (auto simp: table_inv_def)
  have ab: "\<forall>j \<in> lvs m (hflags h). hkeys h ! j \<noteq> Some key" using absent entries_None [OF inv] by blast
  obtain r x fl where run: "kh_put hf h key = Some (r, x, put_at x key fl h)" "r \<noteq> 0"
    and x: "unat x < 2 ^ m" "\<not> live (hflags h) (unat x)" "reached hf m (hflags h) key (unat x)"
    and fl: "length fl = length (hflags h)" "emp fl = (emp (hflags h))(unat x := False)"
      "dl fl = (dl (hflags h))(unat x := False)" using put_found [OF inv room absent] by blast
  define h' where "h' = put_at x key fl h"
  note P = put_at_inv [OF inv room x ab fl, folded h'_def]
  have h': "hflags h' = fl" "hkeys h' = (hkeys h)[unat x := Some key]" "hvals h' = hvals h"
    by (simp_all add: h'_def put_at_def)
  have "(map_of (entries h') |` (- {key})) k = Some v \<longleftrightarrow> map_of (entries h) k = Some v" for k v
  proof (cases "k = key")
    case True
    then show ?thesis using absent by simp
  next
    case False
    define ks where "ks = (hkeys h)[unat x := Some key]"
    have "unat x \<notin> lvs m (hflags h)" using x(2) by (simp add: lvs_def)
    then have "\<forall>j \<in> lvs m (hflags h). unat x \<noteq> j" by blast
    then have "\<forall>j \<in> lvs m (hflags h). ks ! j = hkeys h ! j" by (simp add: ks_def)
    moreover have "ks ! unat x \<noteq> Some k" using False x(1) len by (simp add: ks_def)
    ultimately have "(\<exists>j \<in> lvs m fl. ks ! j = Some k \<and> hvals h ! j = v) \<longleftrightarrow>
        (\<exists>j \<in> lvs m (hflags h). hkeys h ! j = Some k \<and> hvals h ! j = v)"
      unfolding P(2) by auto
    then show ?thesis using False entries_map [OF P(1)] entries_map [OF inv] by (simp add: h' ks_def)
  qed
  then have "map_of (entries h') |` (- {key}) = map_of (entries h)" by (metis (no_types) ext not_None_eq)
  moreover have "unat x \<in> lvs m (hflags h')" "hkeys h' ! unat x = Some key"
    using P(2) x(1) len by (simp_all add: h')
  ultimately show ?thesis using run P(1) by (auto simp: h'_def)
qed

end
