(* ===== verification/KHashResize.thy ===== *)
theory KHashResize
  imports KHashOps
begin

text \<open>
  Rehashing in place. At any moment each entry of the old table lies in a bucket taken
  in the new one, or in a bucket of the old one not moved yet, or is the one in hand.
  What the kick-out loop moves out was unmoved, so it ends.
\<close>

definition pend :: "nat \<Rightarrow> u32 list \<Rightarrow> nat set" where
  "pend n fl = {i. i < n \<and> live fl i}"

definition cell_set :: "'k option list \<Rightarrow> 'v option list \<Rightarrow> nat set \<Rightarrow> ('k option \<times> 'v option) set" where
  "cell_set ks vs S = (\<lambda>i. (ks ! i, vs ! i)) ` S"

definition lying :: "nat \<Rightarrow> nat \<Rightarrow> ('k, 'v) rehash \<Rightarrow> nat set" where
  "lying m n s = occs m (nflags s) \<union> pend n (oflags s)"

text \<open>The entries \<open>C\<close> of a table with \<open>n\<close> buckets are on their way to one with \<open>2 ^ m\<close>.\<close>

definition rehash_shape :: "('k \<Rightarrow> u32) \<Rightarrow> nat \<Rightarrow> nat \<Rightarrow> nat \<Rightarrow> ('k, 'v) rehash \<Rightarrow> bool" where
  "rehash_shape hf m n L s \<longleftrightarrow>
     2 \<le> m \<and> m < 32 \<and> n < 2 ^ 32 \<and> (\<forall>i < n. covers (oflags s) i) \<and> length (nflags s) = unat (ac_fsize (2 ^ m)) \<and>
     n \<le> L \<and> 2 ^ m \<le> L \<and> length (rkeys s) = L \<and> length (rvals s) = L \<and> (\<forall>i < 2 ^ m. \<not> dl (nflags s) i) \<and>
     pend n (oflags s) \<inter> occs m (nflags s) = {} \<and> placed hf m (nflags s) (rkeys s) (occs m (nflags s)) \<and>
     (\<forall>i \<in> pend n (oflags s). rkeys s ! i \<noteq> None) \<and> inj_on ((!) (rkeys s)) (lying m n s)"

definition all_placed :: "('k \<Rightarrow> u32) \<Rightarrow> nat \<Rightarrow> nat \<Rightarrow> nat \<Rightarrow> ('k option \<times> 'v option) set \<Rightarrow> ('k, 'v) rehash \<Rightarrow> bool" where
  "all_placed hf m n L C s \<longleftrightarrow>
     rehash_shape hf m n L s \<and> cell_set (rkeys s) (rvals s) (lying m n s) = C \<and> card (lying m n s) < 2 ^ m"

definition one_in_hand ::
    "('k \<Rightarrow> u32) \<Rightarrow> nat \<Rightarrow> nat \<Rightarrow> nat \<Rightarrow> ('k option \<times> 'v option) set \<Rightarrow> 'k \<Rightarrow> 'v option \<Rightarrow> ('k, 'v) rehash \<Rightarrow> bool" where
  "one_in_hand hf m n L C key val s \<longleftrightarrow>
     rehash_shape hf m n L s \<and> insert (Some key, val) (cell_set (rkeys s) (rvals s) (lying m n s)) = C \<and>
     Some key \<notin> (!) (rkeys s) ` lying m n s \<and> card (lying m n s) + 1 < 2 ^ m"

lemma finite_lying [simp]: "finite (lying m n s)" "finite (pend n fl)"
  by (simp_all add: lying_def pend_def)

section \<open>A free bucket\<close>

lemma free_slot_loop:
  assumes m: "m < 32" and fl: "length fl = unat (ac_fsize (2 ^ m))"
    and T: "emp fl (ppos hf m key T)" "\<forall>s < T. \<not> emp fl (ppos hf m key s)" and t: "t \<le> T"
  shows "free_slot fl (ac_inc (hf key) (2 ^ m - 1)) (2 ^ m - 1) (pword hf m key t) = Some (pword hf m key T)"
  using t
proof (induction rule: inc_induct)
  case base
  then show ?case using T(1) m covers_table [OF m fl ppos_less [of hf m key T]] by (subst free_slot.simps) simp
next
  case (step t)
  then show ?case
    using T(2) m covers_table [OF m fl ppos_less [of hf m key t]] by (subst free_slot.simps) (simp add: pword_Suc)
qed

lemma free_slot_found:
  assumes m: "2 \<le> m" "m < 32" and fl: "length fl = unat (ac_fsize (2 ^ m))" and room: "card (occs m fl) < 2 ^ m"
  shows "\<exists>i. free_slot fl (ac_inc (hf key) (2 ^ m - 1)) (2 ^ m - 1) (hf key AND (2 ^ m - 1)) = Some i \<and>
    unat i < 2 ^ m \<and> emp fl (unat i) \<and> reached hf m fl key (unat i)"
proof -
  have "occs m fl \<noteq> {..<2 ^ m}" using room by (metis card_lessThan less_irrefl)
  moreover have "occs m fl \<subseteq> {..<2 ^ m}" by (auto simp: occs_def)
  ultimately obtain j where "j < 2 ^ m" "emp fl j" by (auto simp: occs_def)
  then obtain T where T: "emp fl (ppos hf m key T)" "\<forall>s < T. \<not> emp fl (ppos hf m key s)"
    using first_met [of m j "emp fl" hf key] m by auto
  then show ?thesis
    using free_slot_loop [OF m(2) fl T, of 0] m by (auto simp: pword_0 reached_def)
qed

section \<open>One entry\<close>

text \<open>The bucket \<open>i\<close> takes the entry in hand.\<close>

definition taken :: "u32 list \<Rightarrow> u32 list \<Rightarrow> nat \<Rightarrow> 'k \<Rightarrow> 'v option \<Rightarrow> ('k, 'v) rehash \<Rightarrow> ('k, 'v) rehash" where
  "taken fl nf i key val s =
     \<lparr>oflags = fl, nflags = nf, rkeys = (rkeys s)[i := Some key], rvals = (rvals s)[i := val]\<rparr>"

lemma cell_set_mem: "(Some k, v) \<in> cell_set ks vs S \<longleftrightarrow> (\<exists>i \<in> S. ks ! i = Some k \<and> vs ! i = v)"
  unfolding cell_set_def by (simp add: image_iff) metis

lemma cell_set_card: "inj_on ((!) ks) S \<Longrightarrow> card (cell_set ks vs S) = card S"
  unfolding cell_set_def by (rule card_image) (auto simp: inj_on_def)

lemma cell_set_same: "i \<notin> S \<Longrightarrow> cell_set (ks[i := k]) (vs[i := v]) S = cell_set ks vs S"
  unfolding cell_set_def by (rule image_cong [OF refl]) (metis nth_list_update_neq)

lemma cell_set_put:
  "i < length ks \<Longrightarrow> i < length vs \<Longrightarrow>
    cell_set (ks[i := k]) (vs[i := v]) (insert i S) = insert (k, v) (cell_set ks vs (S - {i}))"
  using cell_set_same [of i "S - {i}" ks k vs v] by (simp add: cell_set_def insert_Diff_single [symmetric, of i S] del: insert_Diff_single)

lemma cell_set_split: "i \<in> S \<Longrightarrow> cell_set ks vs S = insert (ks ! i, vs ! i) (cell_set ks vs (S - {i}))"
  unfolding cell_set_def by blast

lemma inj_on_update:
  assumes "inj_on ((!) ks) S" "i < length ks" "k \<notin> (!) ks ` S" "S' \<subseteq> insert i S"
  shows "inj_on ((!) (ks[i := k])) S'"
  using assms by (auto simp: inj_on_def nth_list_update subset_iff)

lemma taken_shape:
  assumes sh: "rehash_shape hf m n L s" and key: "Some key \<notin> (!) (rkeys s) ` lying m n s"
    and i: "i < 2 ^ m" "emp (nflags s) i" "reached hf m (nflags s) key i"
    and nf: "length nf = length (nflags s)" "emp nf = (emp (nflags s))(i := False)" "dl nf = dl (nflags s)"
    and fl: "length fl = length (oflags s)" "pend n fl = pend n (oflags s) - {i}"
  shows "rehash_shape hf m n L (taken fl nf i key val s)" "lying m n (taken fl nf i key val s) = insert i (lying m n s)"
proof -
  have O: "occs m nf = insert i (occs m (nflags s))" using nf i(1) by (auto simp: occs_def)
  show L: "lying m n (taken fl nf i key val s) = insert i (lying m n s)"
    using O fl(2) by (auto simp: lying_def taken_def)
  have notin: "i \<notin> occs m (nflags s)" using i(2) by (simp add: occs_def)
  have len: "i < length (rkeys s)" using sh i(1) by (auto simp: rehash_shape_def)
  have "\<forall>j \<in> occs m (nflags s). rkeys s ! j \<noteq> Some key" using key by (force simp: lying_def image_iff)
  then have "placed hf m nf ((rkeys s)[i := Some key]) (occs m nf)"
    unfolding O using sh notin i(3) nf(2) len
    by (intro placed_insert [where fl = "nflags s"]) (auto simp: rehash_shape_def)
  moreover have "inj_on ((!) ((rkeys s)[i := Some key])) (insert i (lying m n s))"
    using sh key len by (intro inj_on_update) (auto simp: rehash_shape_def)
  moreover have "\<forall>i < n. covers fl i" using sh fl(1) by (simp add: rehash_shape_def covers_def)
  moreover have "pend n fl \<inter> occs m nf = {}" using sh O fl(2) by (auto simp: rehash_shape_def)
  moreover have "\<forall>j \<in> pend n fl. (rkeys s)[i := Some key] ! j \<noteq> None"
    using sh fl(2) len by (auto simp: rehash_shape_def nth_list_update)
  ultimately show "rehash_shape hf m n L (taken fl nf i key val s)"
    using sh nf unfolding rehash_shape_def L by (simp add: taken_def)
qed

text \<open>The kick-out loop: it ends, and then nothing is in hand.\<close>

lemma kick_step:
  assumes one: "one_in_hand hf m n L C key val s"
  shows "\<exists>i nf. free_slot (nflags s) (ac_inc (hf key) (2 ^ m - 1)) (2 ^ m - 1) (hf key AND (2 ^ m - 1)) = Some i \<and>
    set_isempty_false (nflags s) i = Some nf \<and> unat i < 2 ^ m \<and> emp (nflags s) (unat i) \<and>
    reached hf m (nflags s) key (unat i) \<and> length nf = length (nflags s) \<and>
    emp nf = (emp (nflags s))(unat i := False) \<and> dl nf = dl (nflags s)"
proof -
  have m: "2 \<le> m" "m < 32" and fl: "length (nflags s) = unat (ac_fsize (2 ^ m))"
    using one by (auto simp: one_in_hand_def rehash_shape_def)
  have "card (occs m (nflags s)) \<le> card (lying m n s)" by (rule card_mono) (simp_all add: lying_def pend_def)
  moreover have "card (lying m n s) + 1 < 2 ^ m" using one by (simp add: one_in_hand_def)
  ultimately have "card (occs m (nflags s)) < 2 ^ m" by linarith
  then obtain i where i: "free_slot (nflags s) (ac_inc (hf key) (2 ^ m - 1)) (2 ^ m - 1) (hf key AND (2 ^ m - 1)) = Some i"
    "unat i < 2 ^ m" "emp (nflags s) (unat i)" "reached hf m (nflags s) key (unat i)"
    using free_slot_found [OF m fl, of hf key] by blast
  moreover obtain nf where "set_isempty_false (nflags s) i = Some nf" "length nf = length (nflags s)"
    "emp nf = (emp (nflags s))(unat i := False)" "dl nf = dl (nflags s)"
    using mark_occupied [OF covers_table [OF m(2) fl i(2)]] by blast
  ultimately show ?thesis by (intro exI [of _ i] exI [of _ nf]) simp
qed

lemma one_in_handD:
  assumes "one_in_hand hf m n L C key val s"
  shows "rehash_shape hf m n L s" "insert (Some key, val) (cell_set (rkeys s) (rvals s) (lying m n s)) = C"
    "Some key \<notin> (!) (rkeys s) ` lying m n s" "card (lying m n s) + 1 < 2 ^ m" "n < 2 ^ 32"
    "i < 2 ^ m \<Longrightarrow> i < length (rkeys s)" "i < 2 ^ m \<Longrightarrow> i < length (rvals s)"
    "i < n \<Longrightarrow> covers (oflags s) i"
  using assms by (auto simp: one_in_hand_def rehash_shape_def)

text \<open>The free bucket holds nothing unmoved: the entry in hand stays there.\<close>

lemma kick_place:
  assumes one: "one_in_hand hf m n L C key val s" and nw: "nw = word_of_nat n"
    and i: "free_slot (nflags s) (ac_inc (hf key) (2 ^ m - 1)) (2 ^ m - 1) (hf key AND (2 ^ m - 1)) = Some i"
      "set_isempty_false (nflags s) i = Some nf"
    and i': "unat i < 2 ^ m" "emp (nflags s) (unat i)" "reached hf m (nflags s) key (unat i)"
    and nf: "length nf = length (nflags s)" "emp nf = (emp (nflags s))(unat i := False)" "dl nf = dl (nflags s)"
    and no: "unat i \<notin> pend n (oflags s)"
  shows "\<exists>s'. kick hf nw (2 ^ m - 1) key val s = Some s' \<and> all_placed hf m n L C s' \<and> oflags s' = oflags s"
proof -
  note D = one_in_handD [OF one]
  define s' where "s' = taken (oflags s) nf (unat i) key val s"
  have n: "i < nw \<longleftrightarrow> unat i < n" using D(5) nw by (simp add: word_less_nat_alt unat_of_nat)
  have "unat i \<notin> lying m n s" using no i'(2) by (simp add: lying_def occs_def)
  moreover have "pend n (oflags s) = pend n (oflags s) - {unat i}" using no by blast
  note S = taken_shape [OF D(1,3) i' nf refl this, of val, folded s'_def]
  ultimately have "all_placed hf m n L C s'"
    using S D(2,4) D(6,7) [OF i'(1)] by (simp add: all_placed_def s'_def taken_def cell_set_put)
  moreover have "kick hf nw (2 ^ m - 1) key val s = Some s'"
    using no D(6,7) [OF i'(1)] D(8) [of "unat i"] i n
    by (subst kick.simps) (auto simp: pend_def store_def s'_def taken_def)
  ultimately show ?thesis by (auto simp: s'_def taken_def)
qed

text \<open>Otherwise what lies there is in hand next.\<close>

lemma kick_out:
  assumes one: "one_in_hand hf m n L C key val s" and nw: "nw = word_of_nat n"
    and i: "free_slot (nflags s) (ac_inc (hf key) (2 ^ m - 1)) (2 ^ m - 1) (hf key AND (2 ^ m - 1)) = Some i"
      "set_isempty_false (nflags s) i = Some nf"
    and i': "unat i < 2 ^ m" "emp (nflags s) (unat i)" "reached hf m (nflags s) key (unat i)"
    and nf: "length nf = length (nflags s)" "emp nf = (emp (nflags s))(unat i := False)" "dl nf = dl (nflags s)"
    and yes: "unat i \<in> pend n (oflags s)"
  shows "\<exists>k' v' s'. kick hf nw (2 ^ m - 1) key val s = kick hf nw (2 ^ m - 1) k' v' s' \<and>
    one_in_hand hf m n L C k' v' s' \<and> pend n (oflags s') = pend n (oflags s) - {unat i}"
proof -
  note D = one_in_handD [OF one]
  have n: "i < nw" "unat i < n" "live (oflags s) (unat i)"
    using yes D(5) nw by (simp_all add: word_less_nat_alt unat_of_nat pend_def)
  obtain k' where k': "rkeys s ! unat i = Some k'" using yes D(1) by (auto simp: rehash_shape_def)
  define v' where "v' = rvals s ! unat i"
  obtain fl where fl: "set_isdel_true (oflags s) i = Some fl" "length fl = length (oflags s)"
    "emp fl = emp (oflags s)" "dl fl = (dl (oflags s))(unat i := True)"
    using mark_deleted [OF D(8) [OF n(2)]] by blast
  have P: "pend n fl = pend n (oflags s) - {unat i}" using fl(3,4) by (auto simp: pend_def live_def)
  define s' where "s' = taken fl nf (unat i) key val s"
  note S = taken_shape [OF D(1,3) i' nf fl(2) P, of val, folded s'_def]
  have mem: "unat i \<in> lying m n s" using yes by (simp add: lying_def)
  then have L: "lying m n s' = lying m n s" using S(2) by (simp add: insert_absorb)
  have run: "kick hf nw (2 ^ m - 1) key val s = kick hf nw (2 ^ m - 1) k' v' s'"
    using D(6,7) [OF i'(1)] D(8) [OF n(2)] i n fl(1) k'
    by (subst kick.simps) (simp add: store_def fetch_def fetch_set_def s'_def taken_def v'_def)
  have "Some k' \<noteq> Some key" using D(3) mem k' by (metis imageI)
  moreover have inj: "inj_on ((!) (rkeys s)) (lying m n s)" using D(1) by (simp add: rehash_shape_def)
  have "rkeys s' ! j \<noteq> Some k'" if "j \<in> lying m n s" "j \<noteq> unat i" for j
    using inj_onD [OF inj _ that(1) mem] that k' by (auto simp: s'_def taken_def)
  moreover have "rkeys s' ! unat i = Some key" using D(6) [OF i'(1)] by (simp add: s'_def taken_def)
  ultimately have "\<forall>j \<in> lying m n s. rkeys s' ! j \<noteq> Some k'" by metis
  then have "Some k' \<notin> (!) (rkeys s') ` lying m n s'" unfolding L by (simp add: image_iff) metis
  moreover have "cell_set (rkeys s') (rvals s') (lying m n s') =
      insert (Some key, val) (cell_set (rkeys s) (rvals s) (lying m n s - {unat i}))"
    using S(2) D(6,7) [OF i'(1)] by (simp add: s'_def taken_def cell_set_put)
  then have "insert (Some k', v') (cell_set (rkeys s') (rvals s') (lying m n s')) = C"
    using D(2) cell_set_split [OF mem, of "rkeys s" "rvals s"] k' by (auto simp: v'_def)
  ultimately have "one_in_hand hf m n L C k' v' s'"
    using S(1) D(4) L by (simp add: one_in_hand_def)
  then show ?thesis using run P by (intro exI [of _ k'] exI [of _ v'] exI [of _ s']) (simp add: s'_def taken_def)
qed

lemma kick_ends:
  assumes "one_in_hand hf m n L C key val s" "nw = word_of_nat n"
  shows "\<exists>s'. kick hf nw (2 ^ m - 1) key val s = Some s' \<and> all_placed hf m n L C s' \<and>
    pend n (oflags s') \<subseteq> pend n (oflags s)"
  using assms(1)
proof (induction "card (pend n (oflags s))" arbitrary: key val s rule: less_induct)
  case less
  obtain i nf where i: "free_slot (nflags s) (ac_inc (hf key) (2 ^ m - 1)) (2 ^ m - 1) (hf key AND (2 ^ m - 1)) = Some i"
    "set_isempty_false (nflags s) i = Some nf" and i': "unat i < 2 ^ m" "emp (nflags s) (unat i)"
    "reached hf m (nflags s) key (unat i)" and nf: "length nf = length (nflags s)"
    "emp nf = (emp (nflags s))(unat i := False)" "dl nf = dl (nflags s)" using kick_step [OF less.prems] by blast
  show ?case
  proof (cases "unat i \<in> pend n (oflags s)")
    case False
    then show ?thesis using kick_place [OF less.prems assms(2) i i' nf] by fastforce
  next
    case True
    then obtain k' v' s' where s': "kick hf nw (2 ^ m - 1) key val s = kick hf nw (2 ^ m - 1) k' v' s'"
      "one_in_hand hf m n L C k' v' s'" "pend n (oflags s') = pend n (oflags s) - {unat i}"
      using kick_out [OF less.prems assms(2) i i' nf] by blast
    have "card (pend n (oflags s')) < card (pend n (oflags s))"
      unfolding s'(3) by (rule card_Diff1_less) (simp_all add: True)
    then show ?thesis using less.hyps [OF _ s'(2)] s'(1,3) by auto
  qed
qed

section \<open>All entries\<close>

lemma take_up:
  assumes all: "all_placed hf m n L C s" and j: "j \<in> pend n (oflags s)"
    and fl: "length fl = length (oflags s)" "emp fl = emp (oflags s)" "dl fl = (dl (oflags s))(j := True)"
  shows "\<exists>key. rkeys s ! j = Some key \<and> one_in_hand hf m n L C key (rvals s ! j) (s\<lparr>oflags := fl\<rparr>)"
    "pend n fl = pend n (oflags s) - {j}"
proof -
  have sh: "rehash_shape hf m n L s" using all by (simp add: all_placed_def)
  show P: "pend n fl = pend n (oflags s) - {j}" using fl(2,3) by (auto simp: pend_def live_def)
  define s' where "s' = s\<lparr>oflags := fl\<rparr>"
  obtain key where key: "rkeys s ! j = Some key" using sh j by (auto simp: rehash_shape_def)
  have notocc: "j \<notin> occs m (nflags s)" using sh j by (auto simp: rehash_shape_def)
  then have L: "lying m n s' = lying m n s - {j}" using P by (auto simp: lying_def s'_def)
  have mem: "j \<in> lying m n s" using j by (simp add: lying_def)
  have inj: "inj_on ((!) (rkeys s)) (lying m n s)" using sh by (simp add: rehash_shape_def)
  have "rehash_shape hf m n L s'"
    using sh P fl(1) inj_on_subset [OF inj, of "lying m n s - {j}"] unfolding rehash_shape_def L
    by (auto simp: s'_def covers_def)
  moreover have "insert (Some key, rvals s ! j) (cell_set (rkeys s') (rvals s') (lying m n s')) = C"
    using all cell_set_split [OF mem, of "rkeys s" "rvals s"] key unfolding L by (simp add: all_placed_def s'_def)
  moreover have "Some key \<notin> (!) (rkeys s') ` lying m n s'"
    using inj_on_image_mem_iff [OF inj mem, of "lying m n s - {j}"] key unfolding L by (simp add: s'_def)
  moreover have "card (lying m n s') + 1 < 2 ^ m"
    using all card_Suc_Diff1 [OF finite_lying(1) mem] by (simp add: L all_placed_def)
  ultimately show "\<exists>key. rkeys s ! j = Some key \<and> one_in_hand hf m n L C key (rvals s ! j) (s\<lparr>oflags := fl\<rparr>)"
    using key by (simp add: one_in_hand_def s'_def)
qed

lemma rehash_ends:
  assumes "all_placed hf m n L C s" "pend n (oflags s) \<subseteq> {j..}" "j \<le> n"
  shows "\<exists>s'. rehash_loop hf (word_of_nat n) (2 ^ m - 1) (map word_of_nat [j..<n]) s = Some s' \<and>
    all_placed hf m n L C s' \<and> pend n (oflags s') = {}"
  using assms
proof (induction "n - j" arbitrary: j s)
  case 0
  then have "pend n (oflags s) = {}" by (auto simp: pend_def)
  with 0 show ?case by simp
next
  case (Suc d)
  note all = Suc.prems(1)
  have j: "j < n" "d = n - Suc j" using Suc.hyps(2) by simp_all
  have sh: "rehash_shape hf m n L s" using all by (simp add: all_placed_def)
  have w: "unat (word_of_nat j :: u32) = j" using sh j(1) by (simp add: rehash_shape_def unat_of_nat)
  have c: "covers (oflags s) j" and len: "j < length (rkeys s)" "j < length (rvals s)"
    using sh j(1) by (auto simp: rehash_shape_def)
  have list: "map word_of_nat [j..<n] = (word_of_nat j :: u32) # map word_of_nat [Suc j..<n]"
    using j(1) by (simp add: upt_conv_Cons)
  show ?case
  proof (cases "live (oflags s) j")
    case False
    then have "pend n (oflags s) \<subseteq> {Suc j..}"
      using Suc.prems(2) by (auto simp: pend_def Suc_le_eq le_less)
    then show ?thesis using Suc.hyps(1) [OF j(2) all] j(1) False c w by (simp add: list)
  next
    case True
    then have jp: "j \<in> pend n (oflags s)" using j(1) by (simp add: pend_def)
    obtain fl where fl: "set_isdel_true (oflags s) (word_of_nat j) = Some fl" "length fl = length (oflags s)"
      "emp fl = emp (oflags s)" "dl fl = (dl (oflags s))(j := True)"
      using mark_deleted [of "oflags s" "word_of_nat j"] c w by auto
    obtain key where key: "rkeys s ! j = Some key" "one_in_hand hf m n L C key (rvals s ! j) (s\<lparr>oflags := fl\<rparr>)"
      using take_up(1) [OF all jp fl(2-4)] by blast
    obtain s2 where s2: "kick hf (word_of_nat n) (2 ^ m - 1) key (rvals s ! j) (s\<lparr>oflags := fl\<rparr>) = Some s2"
      "all_placed hf m n L C s2" "pend n (oflags s2) \<subseteq> pend n fl"
      using kick_ends [OF key(2) refl] by auto
    have "pend n (oflags s2) \<subseteq> {j..} - {j}"
      using s2(3) Suc.prems(2) unfolding take_up(2) [OF all jp fl(2-4)] by blast
    moreover have "{j..} - {j} = {Suc j..}" by auto
    ultimately have "pend n (oflags s2) \<subseteq> {Suc j..}" by simp
    moreover have "Suc j \<le> n" using j(1) by simp
    ultimately obtain s' where "rehash_loop hf (word_of_nat n) (2 ^ m - 1) (map word_of_nat [Suc j..<n]) s2 = Some s'"
      "all_placed hf m n L C s'" "pend n (oflags s') = {}"
      using Suc.hyps(1) [OF j(2) s2(2)] by blast
    then show ?thesis
      using True c w fl(1) key(1) len s2(1) by (simp add: list fetch_set_def fetch_def)
  qed
qed

section \<open>The whole resize\<close>

definition old_table :: "nat \<Rightarrow> ('k, 'v) khash \<Rightarrow> bool" where
  "old_table n h \<longleftrightarrow>
     unat (n_buckets h) = n \<and> length (hkeys h) = n \<and> length (hvals h) = n \<and> (\<forall>i < n. covers (hflags h) i) \<and>
     (\<forall>i \<in> pend n (hflags h). hkeys h ! i \<noteq> None) \<and> inj_on ((!) (hkeys h)) (pend n (hflags h)) \<and>
     card (pend n (hflags h)) = unat (ksize h) \<and>
     (\<forall>k v. map_of (entries h) k = Some v \<longleftrightarrow> (Some k, v) \<in> cell_set (hkeys h) (hvals h) (pend n (hflags h)))"

lemma old_table_init: "old_table 0 kh_init"
  by (simp add: old_table_def kh_init_def pend_def entries_def cell_set_def)

lemma old_table_inv: "table_inv hf m h \<Longrightarrow> old_table (2 ^ m) h"
proof -
  assume inv: "table_inv hf m h"
  have P: "pend (2 ^ m) (hflags h) = lvs m (hflags h)" by (simp add: pend_def lvs_def)
  have "(Some k, v) \<in> cell_set (hkeys h) (hvals h) (lvs m (hflags h)) \<longleftrightarrow> map_of (entries h) k = Some v" for k v
    unfolding entries_map [OF inv] cell_set_mem ..
  then show ?thesis
    using inv table_covers [OF inv] unfolding old_table_def P
    by (auto simp: table_inv_def unat_exp placed_def)
qed

lemma unat_less_32: "unat (w :: u32) < 2 ^ 32"
proof -
  have "unat w < 2 ^ LENGTH(32)" by (rule unsigned_less)
  then show ?thesis by simp
qed

lemma start_shape:
  assumes old: "old_table n h" and m: "2 \<le> m" "m < 32" and ks: "length ks = max n (2 ^ m)" "\<forall>i < n. ks ! i = hkeys h ! i"
    and vs: "length vs = max n (2 ^ m)" "\<forall>i < n. vs ! i = hvals h ! i" and room: "unat (ksize h) < 2 ^ m"
  shows "all_placed hf m n (max n (2 ^ m)) (cell_set (hkeys h) (hvals h) (pend n (hflags h)))
    \<lparr>oflags = hflags h, nflags = empty_flags (2 ^ m), rkeys = ks, rvals = vs\<rparr>"
proof -
  define s where "s = \<lparr>oflags = hflags h, nflags = empty_flags (2 ^ m), rkeys = ks, rvals = vs\<rparr>"
  have len: "length (empty_flags (2 ^ m)) = unat (ac_fsize (2 ^ m))" by (simp add: empty_flags_def)
  have e: "emp (empty_flags (2 ^ m)) i \<and> \<not> dl (empty_flags (2 ^ m)) i" if "i < 2 ^ m" for i
    using empty_flags [OF covers_table [OF m(2) len that]] .
  have O: "occs m (empty_flags (2 ^ m)) = {}" using e by (auto simp: occs_def)
  then have L: "lying m n s = pend n (hflags h)" by (simp add: lying_def s_def)
  have same: "ks ! i = hkeys h ! i" "vs ! i = hvals h ! i" if "i \<in> pend n (hflags h)" for i
    using that ks vs by (simp_all add: pend_def)
  have "inj_on ((!) ks) (pend n (hflags h))"
    using old inj_on_cong [of "pend n (hflags h)" "(!) ks" "(!) (hkeys h)"] same by (simp add: old_table_def)
  moreover have "\<forall>i \<in> pend n (hflags h). ks ! i \<noteq> None" using old same by (simp add: old_table_def)
  moreover have "n < 2 ^ 32" using old unat_less_32 [of "n_buckets h"] by (simp add: old_table_def)
  ultimately have "rehash_shape hf m n (max n (2 ^ m)) s"
    using old m ks vs e O len unfolding rehash_shape_def L by (simp add: s_def placed_def old_table_def)
  moreover have "cell_set ks vs (pend n (hflags h)) = cell_set (hkeys h) (hvals h) (pend n (hflags h))"
    unfolding cell_set_def by (rule image_cong) (simp_all add: same)
  ultimately show ?thesis
    using old room unfolding s_def [symmetric] all_placed_def L by (simp add: s_def old_table_def)
qed

text \<open>The table made of what the rehashing leaves.\<close>

lemma end_table:
  assumes all: "all_placed hf m n L C s" "pend n (oflags s) = {}"
    and h: "n_buckets h' = 2 ^ m" "ksize h' = sz" "n_occupied h' = sz" "upper_bound h' = hash_upper (2 ^ m)"
      "hflags h' = nflags s" "hkeys h' = take (2 ^ m) (rkeys s)" "hvals h' = take (2 ^ m) (rvals s)"
    and sz: "sz < hash_upper (2 ^ m)" "card (lying m n s) = unat sz"
  shows "table_inv hf m h'" "map_of (entries h') k = Some v \<longleftrightarrow> (Some k, v) \<in> C"
proof -
  have sh: "rehash_shape hf m n L s" and C: "cell_set (rkeys s) (rvals s) (lying m n s) = C"
    using all(1) by (simp_all add: all_placed_def)
  have O: "occs m (nflags s) = lying m n s" using all(2) by (simp add: lying_def)
  have V: "lvs m (nflags s) = occs m (nflags s)" using sh by (auto simp: lvs_def occs_def live_def rehash_shape_def)
  have take: "take (2 ^ m) (rkeys s) ! i = rkeys s ! i" "take (2 ^ m) (rvals s) ! i = rvals s ! i"
    if "i \<in> lvs m (nflags s)" for i using that by (simp_all add: lvs_def)
  have "inj_on ((!) (take (2 ^ m) (rkeys s))) (lvs m (nflags s)) \<longleftrightarrow> inj_on ((!) (rkeys s)) (lvs m (nflags s))"
    by (rule inj_on_cong) (simp add: take)
  then have "placed hf m (nflags s) (take (2 ^ m) (rkeys s)) (lvs m (nflags s))"
    using sh take unfolding V [symmetric] rehash_shape_def placed_def by (simp add: V [symmetric])
  then show inv: "table_inv hf m h'"
    using sh sz by (simp add: table_inv_def h rehash_shape_def V O)
  have "cell_set (hkeys h') (hvals h') (lvs m (nflags s)) = C"
    using C unfolding O [symmetric] V [symmetric] cell_set_def h by (simp add: take cong: image_cong)
  then show "map_of (entries h') k = Some v \<longleftrightarrow> (Some k, v) \<in> C"
    using cell_set_mem [of k v "hkeys h'" "hvals h'" "lvs m (nflags s)"] by (simp add: entries_map [OF inv] h(5))
qed

lemma realloc_length [simp]: "length (realloc n xs) = n"
  by (simp add: realloc_def)

lemma realloc_nth: "length xs \<le> n \<Longrightarrow> i < length xs \<Longrightarrow> realloc n xs ! i = xs ! i"
  by (simp add: realloc_def nth_append)

definition rehash_start :: "nat \<Rightarrow> ('k, 'v) khash \<Rightarrow> ('k, 'v) rehash" where
  "rehash_start m h = \<lparr>oflags = hflags h, nflags = empty_flags (2 ^ m),
     rkeys = (if n_buckets h < 2 ^ m then realloc (2 ^ m) (hkeys h) else hkeys h),
     rvals = (if n_buckets h < 2 ^ m then realloc (2 ^ m) (hvals h) else hvals h)\<rparr>"

definition rehash_end :: "nat \<Rightarrow> ('k, 'v) rehash \<Rightarrow> ('k, 'v) khash \<Rightarrow> ('k, 'v) khash" where
  "rehash_end m s h = \<lparr>n_buckets = 2 ^ m, ksize = ksize h, n_occupied = ksize h, upper_bound = hash_upper (2 ^ m),
    hflags = nflags s, hkeys = take (2 ^ m) (rkeys s), hvals = take (2 ^ m) (rvals s)\<rparr>"

lemma old_less: "old_table n h \<Longrightarrow> m < 32 \<Longrightarrow> (n_buckets h < 2 ^ m \<longleftrightarrow> n < 2 ^ m) \<and> (2 ^ m < n_buckets h \<longleftrightarrow> 2 ^ m < n)"
  by (simp add: word_less_nat_alt unat_exp old_table_def)

lemma rehash_start_arrays:
  assumes "old_table n h" "m < 32"
  shows "length (rkeys (rehash_start m h)) = max n (2 ^ m)" "i < n \<Longrightarrow> rkeys (rehash_start m h) ! i = hkeys h ! i"
    "length (rvals (rehash_start m h)) = max n (2 ^ m)" "i < n \<Longrightarrow> rvals (rehash_start m h) ! i = hvals h ! i"
  using assms old_less [OF assms] by (auto simp: rehash_start_def old_table_def realloc_nth)

lemma kh_resize_run:
  assumes old: "old_table n h" and m: "2 \<le> m" "m < 32"
    and nn: "(if kroundup32 nn < 4 then 4 else kroundup32 nn) = 2 ^ m" and sz: "ksize h < hash_upper (2 ^ m)"
    and run: "rehash_loop hf (word_of_nat n) (2 ^ m - 1) (map word_of_nat [0..<n]) (rehash_start m h) = Some s"
    and len: "length (rkeys s) = max n (2 ^ m)" "length (rvals s) = max n (2 ^ m)"
  shows "kh_resize hf h nn = Some (rehash_end m s h)"
proof -
  have n: "unat (n_buckets h) = n" "word_of_nat n = n_buckets h" using old by (auto simp: old_table_def)
  have ends: "take (2 ^ m) (rkeys s) = (if 2 ^ m < n_buckets h then realloc (2 ^ m) (rkeys s) else rkeys s)"
    "take (2 ^ m) (rvals s) = (if 2 ^ m < n_buckets h then realloc (2 ^ m) (rvals s) else rvals s)"
    using len old_less [OF old m(2)] by (auto simp: realloc_def)
  have "\<not> hash_upper (2 ^ m) \<le> ksize h" using sz by simp
  then have "kh_resize hf h nn =
      rehash_loop hf (n_buckets h) (2 ^ m - 1) (map word_of_nat [0..<n]) (rehash_start m h) \<bind>
        (\<lambda>s. Some \<lparr>n_buckets = 2 ^ m, ksize = ksize h, n_occupied = ksize h, upper_bound = hash_upper (2 ^ m), hflags = nflags s,
          hkeys = (if 2 ^ m < n_buckets h then realloc (2 ^ m) (rkeys s) else rkeys s),
          hvals = (if 2 ^ m < n_buckets h then realloc (2 ^ m) (rvals s) else rvals s)\<rparr>)"
    unfolding kh_resize_def Let_def nn rehash_start_def unat_exp [OF m(2)] n(1) by (simp only: if_False)
  then show ?thesis using run by (simp only: n(2) bind.bind_lunit rehash_end_def ends)
qed

lemma kh_resize_spec:
  assumes old: "old_table n h" and m: "2 \<le> m" "m < 32"
    and nn: "(if kroundup32 nn < 4 then 4 else kroundup32 nn) = 2 ^ m" and sz: "ksize h < hash_upper (2 ^ m)"
  shows "\<exists>h'. kh_resize hf h nn = Some h' \<and> table_inv hf m h' \<and> map_of (entries h') = map_of (entries h) \<and>
    ksize h' = ksize h \<and> n_occupied h' < upper_bound h'"
proof -
  define C where "C = cell_set (hkeys h) (hvals h) (pend n (hflags h))"
  have room: "unat (ksize h) < 2 ^ m" using sz hash_upper_less(2) [OF m] by (simp add: word_less_nat_alt)
  have "all_placed hf m n (max n (2 ^ m)) C (rehash_start m h)"
    unfolding C_def using start_shape [OF old m, of "rkeys (rehash_start m h)" "rvals (rehash_start m h)" hf] room
      rehash_start_arrays [OF old m(2)] by (simp add: rehash_start_def)
  then obtain s where s: "rehash_loop hf (word_of_nat n) (2 ^ m - 1) (map word_of_nat [0..<n]) (rehash_start m h) = Some s"
    "all_placed hf m n (max n (2 ^ m)) C s" "pend n (oflags s) = {}"
    using rehash_ends [of hf m n "max n (2 ^ m)" C "rehash_start m h" 0] by auto
  have len: "length (rkeys s) = max n (2 ^ m)" "length (rvals s) = max n (2 ^ m)"
    using s(2) by (simp_all add: all_placed_def rehash_shape_def)
  have "card C = unat (ksize h)" using old by (simp add: C_def old_table_def cell_set_card)
  then have card: "card (lying m n s) = unat (ksize h)"
    using s(2) by (auto simp: all_placed_def rehash_shape_def cell_set_card)
  note E = end_table [OF s(2,3), of "rehash_end m s h" "ksize h", OF _ _ _ _ _ _ _ sz card]
  have "map_of (entries (rehash_end m s h)) k = Some v \<longleftrightarrow> map_of (entries h) k = Some v" for k v
    using E(2) [of k v] old by (simp add: rehash_end_def C_def old_table_def)
  then have "map_of (entries (rehash_end m s h)) = map_of (entries h)" by (metis (no_types) ext not_None_eq)
  then show ?thesis using kh_resize_run [OF old m nn sz s(1) len] E(1) sz by (simp add: rehash_end_def)
qed

end
