(* ===== verification/HashTable.thy ===== *)
theory HashTable
  imports KHashResize QueueSpec
begin

text \<open>
  TWlib's \<open>TW_KHash_32\<close> (tw_khash.h), the class of the logger's tables of targets,
  filters, sinks and labels, on top of the table of khash.h. The data the class keeps in
  boxes of its own are the values here; its lock is not part of the model.
\<close>

section \<open>Insertion in general\<close>

lemma kroundup32_steps:
  "2 \<le> m \<Longrightarrow> m < 32 \<Longrightarrow> kroundup32 (2 ^ m - 1) = 2 ^ m"
  "2 \<le> m \<Longrightarrow> m < 31 \<Longrightarrow> kroundup32 (2 ^ m + 1) = 2 ^ (m + 1)"
proof -
  have A: "\<forall>m \<in> set [2..<32]. kroundup32 (2 ^ m - 1) = 2 ^ m" and B: "\<forall>m \<in> set [2..<31]. kroundup32 (2 ^ m + 1) = 2 ^ (m + 1)"
    by (simp_all add: kroundup32_def Let_def upt_rec)
  show "2 \<le> m \<Longrightarrow> m < 32 \<Longrightarrow> kroundup32 (2 ^ m - 1) = 2 ^ m" by (rule bspec [OF A]) (simp only: set_upt atLeastLessThan_iff)
  show "2 \<le> m \<Longrightarrow> m < 31 \<Longrightarrow> kroundup32 (2 ^ m + 1) = 2 ^ (m + 1)" by (rule bspec [OF B]) (simp only: set_upt atLeastLessThan_iff)
qed

lemma not_small: "2 \<le> m \<Longrightarrow> m < 32 \<Longrightarrow> \<not> (2 :: u32) ^ m < 4"
  using power_increasing [of 2 m "2 :: nat"] by (simp add: word_less_nat_alt unat_exp)

text \<open>The invariant of a table at any time.\<close>

definition kh_inv :: "('k \<Rightarrow> u32) \<Rightarrow> ('k, 'v) khash \<Rightarrow> bool" where
  "kh_inv hf h \<longleftrightarrow> h = kh_init \<or> (\<exists>m. table_inv hf m h)"

definition grown_size :: "('k, 'v) khash \<Rightarrow> u32" where
  "grown_size h = (if push_bit 1 (ksize h) < n_buckets h then n_buckets h - 1 else n_buckets h + 1)"

lemma kh_put_resized:
  assumes "upper_bound h \<le> n_occupied h" and "kh_resize hf h (grown_size h) = Some h1" and "n_occupied h1 < upper_bound h1"
  shows "kh_put hf h key = kh_put hf h1 key"
proof -
  have "\<not> upper_bound h1 \<le> n_occupied h1" using assms(3) by simp
  then show ?thesis
    unfolding kh_put_def [of hf h] kh_put_def [of hf h1] if_P [OF assms(1)] assms(2) [unfolded grown_size_def] by simp
qed

text \<open>A full table is rehashed to as many buckets, when half of them are deleted ones, or to twice as many.\<close>

lemma grow_target:
  assumes inv: "kh_inv hf h" and full: "upper_bound h \<le> n_occupied h" and sz: "unat (ksize h) < 2 ^ 29"
  shows "\<exists>m n. old_table n h \<and> 2 \<le> m \<and> m < 32 \<and>
    (if kroundup32 (grown_size h) < 4 then 4 else kroundup32 (grown_size h)) = 2 ^ m \<and> ksize h < hash_upper (2 ^ m)"
  using inv unfolding kh_inv_def
proof (elim disjE exE)
  assume h: "h = kh_init"
  have "(if kroundup32 1 < 4 then 4 else kroundup32 1) = (2 :: u32) ^ 2" "(0 :: u32) < hash_upper (2 ^ 2)" by code_simp+
  moreover have "grown_size h = 1" "ksize h = 0" "old_table 0 h" unfolding h by (simp_all add: grown_size_def kh_init_def old_table_init [unfolded kh_init_def])
  ultimately show ?thesis
    by - (rule exI [of _ 2], rule exI [of _ 0], simp split: if_splits)
next
  fix m assume inv: "table_inv hf m h"
  then have m: "2 \<le> m" "m < 32" "n_buckets h = 2 ^ m" "upper_bound h = hash_upper (2 ^ m)"
    and cards: "unat (ksize h) \<le> unat (n_occupied h)" "n_occupied h \<le> upper_bound h"
    using card_mono [OF finite_lvs(2) lvs_occs [of m "hflags h"]] by (auto simp: table_inv_def)
  have sz_le: "unat (ksize h) \<le> (77 * 2 ^ m + 50) div 100"
    using cards m(4) hash_upper_less(1) [OF m(1,2)] by (auto simp: word_le_nat_alt)
  have m4: "(4 :: nat) \<le> 2 ^ m" using power_increasing [OF m(1), of "2 :: nat"] by simp
  have dbl: "unat (push_bit 1 (ksize h)) = 2 * unat (ksize h)"
    using sz by (simp add: push_bit_eq_mult unat_word_ariths mult.commute)
  show ?thesis
  proof (cases "push_bit 1 (ksize h) < n_buckets h")
    case True
    then have "2 * unat (ksize h) < 2 ^ m" using dbl m by (simp add: word_less_nat_alt unat_exp)
    then have "ksize h < hash_upper (2 ^ m)"
      using m4 hash_upper_less(1) [OF m(1,2)] by (simp add: word_less_nat_alt)
    moreover have "grown_size h = 2 ^ m - 1" using True m by (simp add: grown_size_def)
    ultimately show ?thesis
      using old_table_inv [OF inv] m by - (rule exI [of _ m], rule exI [of _ "2 ^ m"], simp add: kroundup32_steps not_small)
  next
    case False
    then have "2 ^ m \<le> 2 * unat (ksize h)" using dbl m by (simp add: word_less_nat_alt unat_exp)
    then have "(2 :: nat) ^ m < 2 ^ 30" using sz by simp
    then have m30: "m < 30" using power_less_imp_less_exp [of "2 :: nat" m 30] by simp
    have "unat (hash_upper (2 ^ (m + 1))) = (77 * 2 ^ (m + 1) + 50) div 100"
      using m(1) m30 by (intro hash_upper_less(1)) simp_all
    then have "ksize h < hash_upper (2 ^ (m + 1))" using sz_le m4 by (simp add: word_less_nat_alt)
    moreover have "grown_size h = 2 ^ m + 1" using False m by (simp add: grown_size_def)
    ultimately show ?thesis
      using old_table_inv [OF inv] m m30 kroundup32_steps(2) [OF m(1)] not_small [of "m + 1"]
      by - (rule exI [of _ "m + 1"], rule exI [of _ "2 ^ m"], simp)
  qed
qed

lemma grow_full:
  assumes "kh_inv hf h" and "upper_bound h \<le> n_occupied h" and "unat (ksize h) < 2 ^ 29"
  shows "\<exists>m h1. kh_resize hf h (grown_size h) = Some h1 \<and> table_inv hf m h1 \<and>
    map_of (entries h1) = map_of (entries h) \<and> n_occupied h1 < upper_bound h1"
  using grow_target [OF assms] kh_resize_spec [of _ h _ "grown_size h" hf] by metis

lemma kh_put_spec:
  assumes inv: "kh_inv hf h" and sz: "unat (ksize h) < 2 ^ 29" and absent: "map_of (entries h) key = None"
  shows "\<exists>m r x h'. kh_put hf h key = Some (r, x, h') \<and> table_inv hf m h' \<and> r \<noteq> 0 \<and>
    unat x \<in> lvs m (hflags h') \<and> hkeys h' ! unat x = Some key \<and> map_of (entries h') |` (- {key}) = map_of (entries h)"
proof (cases "n_occupied h < upper_bound h")
  case True
  then obtain m where "table_inv hf m h" using inv by (auto simp: kh_inv_def kh_init_def)
  from put_with_room [OF this True absent] show ?thesis by blast
next
  case False
  then have full: "upper_bound h \<le> n_occupied h" by simp
  obtain m h1 where h1: "kh_resize hf h (grown_size h) = Some h1"
    "table_inv hf m h1" "map_of (entries h1) = map_of (entries h)" "n_occupied h1 < upper_bound h1"
    using grow_full [OF inv full sz] by blast
  show ?thesis
    using put_with_room [OF h1(2,4), of key] absent h1(3) kh_put_resized [OF full h1(1,4), of key] by auto
qed

section \<open>The class\<close>

definition set_value :: "u32 \<Rightarrow> 'v \<Rightarrow> ('k, 'v) khash \<Rightarrow> ('k, 'v) khash option" where
  "set_value x d h = do { vs \<leftarrow> store (hvals h) (unat x) (Some d); Some (h\<lparr>hvals := vs\<rparr>) }"

definition table_new :: "('k \<Rightarrow> u32) \<Rightarrow> int \<Rightarrow> ('k, 'v) khash option" where
  "table_new hf n = (if n > 0 then kh_resize hf kh_init (word_of_int n) else Some kh_init)"

definition table_addReplace :: "('k \<Rightarrow> u32) \<Rightarrow> 'k \<Rightarrow> 'v \<Rightarrow> ('k, 'v) khash \<Rightarrow> (bool \<times> ('k, 'v) khash) option" where
  "table_addReplace hf key dat h =
     do { k \<leftarrow> kh_get hf h key;
          if k \<noteq> n_buckets h
          then do { h \<leftarrow> set_value k dat h; Some (True, h) }
          else do { (r, k, h) \<leftarrow> kh_put hf h key; h \<leftarrow> set_value k dat h; Some (True, h) } }"

text \<open>The form that gives the old data back; without any, what \<open>oldref\<close> was stays.\<close>

definition table_addReplace_old ::
    "('k \<Rightarrow> u32) \<Rightarrow> 'k \<Rightarrow> 'v \<Rightarrow> 'v \<Rightarrow> ('k, 'v) khash \<Rightarrow> ('v \<times> ('k, 'v) khash) option" where
  "table_addReplace_old hf key dat oldref h =
     do { k \<leftarrow> kh_get hf h key;
          if k \<noteq> n_buckets h
          then do { old \<leftarrow> fetch (hvals h) (unat k); h \<leftarrow> set_value k dat h;
                    Some (case old of Some d \<Rightarrow> d | None \<Rightarrow> oldref, h) }
          else do { (r, k, h) \<leftarrow> kh_put hf h key; h \<leftarrow> set_value k dat h; Some (oldref, h) } }"

definition table_addNoreplace :: "('k \<Rightarrow> u32) \<Rightarrow> 'k \<Rightarrow> 'v \<Rightarrow> ('k, 'v) khash \<Rightarrow> (bool \<times> ('k, 'v) khash) option" where
  "table_addNoreplace hf key dat h =
     do { k \<leftarrow> kh_get hf h key;
          if k = n_buckets h
          then do { (r, k, h) \<leftarrow> kh_put hf h key; h \<leftarrow> set_value k dat h; Some (True, h) }
          else Some (False, h) }"

text \<open>The forms that give a pointer to the data give its bucket here; \<open>d0\<close> is \<open>DATA()\<close>.\<close>

definition table_addReplaceNew :: "('k \<Rightarrow> u32) \<Rightarrow> 'v \<Rightarrow> 'k \<Rightarrow> ('k, 'v) khash \<Rightarrow> (u32 \<times> ('k, 'v) khash) option" where
  "table_addReplaceNew hf d0 key h =
     do { k \<leftarrow> kh_get hf h key;
          if k \<noteq> n_buckets h
          then do { h \<leftarrow> set_value k d0 h; Some (k, h) }
          else do { (r, k, h) \<leftarrow> kh_put hf h key; h \<leftarrow> set_value k d0 h; Some (k, h) } }"

definition table_addNoreplaceNew :: "('k \<Rightarrow> u32) \<Rightarrow> 'v \<Rightarrow> 'k \<Rightarrow> ('k, 'v) khash \<Rightarrow> (u32 option \<times> ('k, 'v) khash) option" where
  "table_addNoreplaceNew hf d0 key h =
     do { k \<leftarrow> kh_get hf h key;
          if k = n_buckets h
          then do { (r, k, h) \<leftarrow> kh_put hf h key; h \<leftarrow> set_value k d0 h; Some (Some k, h) }
          else Some (None, h) }"

definition table_findOrNew :: "('k \<Rightarrow> u32) \<Rightarrow> 'v \<Rightarrow> 'k \<Rightarrow> ('k, 'v) khash \<Rightarrow> (u32 \<times> ('k, 'v) khash) option" where
  "table_findOrNew hf d0 key h =
     do { k \<leftarrow> kh_get hf h key;
          if k \<noteq> n_buckets h then Some (k, h)
          else do { (r, k, h) \<leftarrow> kh_put hf h key; h \<leftarrow> set_value k d0 h; Some (k, h) } }"

text \<open>\<open>remove(key, fill)\<close> and \<open>find(key, fill)\<close>: what \<open>fill\<close> is set to, if it is.\<close>

definition table_remove :: "('k \<Rightarrow> u32) \<Rightarrow> 'k \<Rightarrow> ('k, 'v) khash \<Rightarrow> (bool \<times> 'v option \<times> ('k, 'v) khash) option" where
  "table_remove hf key h =
     do { k \<leftarrow> kh_get hf h key;
          if k \<noteq> n_buckets h
          then do { d \<leftarrow> fetch (hvals h) (unat k); h \<leftarrow> kh_del h k; Some (True, d, h) }
          else Some (False, None, h) }"

definition table_find :: "('k \<Rightarrow> u32) \<Rightarrow> 'k \<Rightarrow> ('k, 'v) khash \<Rightarrow> 'v option option" where
  "table_find hf key h =
     do { k \<leftarrow> kh_get hf h key;
          if k \<noteq> n_buckets h then fetch (hvals h) (unat k) else Some None }"

definition table_removeAll :: "('k, 'v) khash \<Rightarrow> ('k, 'v) khash" where
  "table_removeAll h = kh_clear h"

definition table_size :: "('k, 'v) khash \<Rightarrow> u32" where
  "table_size h = ksize h"

text \<open>The iterator, a bucket number; the end is the number of buckets.\<close>

partial_function (option) iter_skip :: "('k, 'v) khash \<Rightarrow> u32 \<Rightarrow> u32 option" where
  "iter_skip h i =
     (if i = n_buckets h then Some i
      else do { b \<leftarrow> iseither (hflags h) i; if b then iter_skip h (i + 1) else Some i })"

definition gotoStart :: "('k, 'v) khash \<Rightarrow> u32 option" where
  "gotoStart h = iter_skip h 0"

definition getNext :: "('k, 'v) khash \<Rightarrow> u32 \<Rightarrow> (bool \<times> u32) option" where
  "getNext h i =
     (if i = n_buckets h then Some (False, i)
      else do { i \<leftarrow> iter_skip h (i + 1); Some (i \<noteq> n_buckets h, i) })"

definition atEnd :: "('k, 'v) khash \<Rightarrow> u32 \<Rightarrow> bool" where
  "atEnd h i \<longleftrightarrow> i = n_buckets h"

text \<open>\<open>key()\<close> and \<open>data()\<close>; \<open>NULL\<close> at the end.\<close>

definition iter_key :: "('k, 'v) khash \<Rightarrow> u32 \<Rightarrow> 'k option" where
  "iter_key h i = (if i \<noteq> n_buckets h then fetch_set (hkeys h) (unat i) else None)"

definition iter_data :: "('k, 'v) khash \<Rightarrow> u32 \<Rightarrow> 'v option" where
  "iter_data h i = (if i \<noteq> n_buckets h then fetch_set (hvals h) (unat i) else None)"

definition iter_setData :: "('k, 'v) khash \<Rightarrow> u32 \<Rightarrow> 'v \<Rightarrow> ('k, 'v) khash option" where
  "iter_setData h i d = (if i \<noteq> n_buckets h then set_value i d h else Some h)"

text \<open>The loop of \<open>flushAll\<close> and its like: \<open>while(!iter.atEnd()) { ... iter.data() ...; iter.getNext(); }\<close>.\<close>

partial_function (option) iterate :: "('k, 'v) khash \<Rightarrow> u32 \<Rightarrow> ('k \<times> 'v) list option" where
  "iterate h i =
     (if atEnd h i then Some []
      else do { k \<leftarrow> iter_key h i; d \<leftarrow> iter_data h i; (b, i) \<leftarrow> getNext h i; rest \<leftarrow> iterate h i;
                Some ((k, d) # rest) })"

section \<open>The logger's hash function\<close>

text \<open>No \<open>tw_hash\<close> exists for pointers to the logger's keys: the general one gives 0.\<close>

definition tw_hash :: "'k \<Rightarrow> u64" where
  "tw_hash key = 0"

definition int64_hash :: "u64 \<Rightarrow> u32" where
  "int64_hash key = ucast (drop_bit 33 key XOR key XOR push_bit 11 key)"

definition key_hash :: "'k \<Rightarrow> u32" where
  "key_hash key = int64_hash (tw_hash key)"

section \<open>The table as a map\<close>

definition tmap :: "('k, 'v) khash \<Rightarrow> 'k \<Rightarrow> 'v option" where
  "tmap h k = Option.bind (map_of (entries h) k) (\<lambda>v. v)"

definition tw_inv :: "('k \<Rightarrow> u32) \<Rightarrow> ('k, 'v) khash \<Rightarrow> bool" where
  "tw_inv hf h \<longleftrightarrow> kh_inv hf h \<and> (\<forall>k. map_of (entries h) k \<noteq> Some None)"

lemma entries_init [simp]: "entries kh_init = []"
  by (simp add: entries_def kh_init_def)

lemma tw_inv_init [simp]: "tw_inv hf kh_init" "tmap kh_init = Map.empty"
  by (simp_all add: tw_inv_def kh_inv_def tmap_def fun_eq_iff)

lemma tmap_entries: "tw_inv hf h \<Longrightarrow> map_of (entries h) k = map_option Some (tmap h k)"
  by (cases "map_of (entries h) k"; cases "the (map_of (entries h) k)") (auto simp: tw_inv_def tmap_def)

text \<open>The table after its contents have become \<open>M\<close>.\<close>

lemma tw_inv_from:
  assumes "table_inv hf m h" "map_of (entries h) = map_option Some \<circ> M"
  shows "tw_inv hf h" "tmap h = M"
  using assms by (auto simp: tw_inv_def kh_inv_def tmap_def fun_eq_iff split: option.splits bind_splits)

lemma set_value_spec:
  assumes inv: "table_inv hf m h" and x: "unat x \<in> lvs m (hflags h)" "hkeys h ! unat x = Some key"
  shows "\<exists>h'. set_value x d h = Some h' \<and> table_inv hf m h' \<and> map_of (entries h') = (map_of (entries h))(key \<mapsto> Some d)"
proof -
  define vs where "vs = (hvals h)[unat x := Some d]"
  define h' where "h' = h\<lparr>hvals := vs\<rparr>"
  have len: "unat x < length (hvals h)" using inv x(1) by (auto simp: table_inv_def lvs_def)
  have inv': "table_inv hf m h'" using inv by (auto simp: table_inv_def h'_def vs_def)
  have "set_value x d h = Some h'" using len by (simp add: set_value_def store_def h'_def vs_def)
  moreover have new: "map_of (entries h') k = Some v \<longleftrightarrow> (\<exists>i \<in> lvs m (hflags h). hkeys h ! i = Some k \<and> vs ! i = v)" for k v
    unfolding entries_map [OF inv'] by (simp add: h'_def)
  have "map_of (entries h') k = Some v \<longleftrightarrow> ((map_of (entries h))(key \<mapsto> Some d)) k = Some v" for k v
  proof (cases "k = key")
    case True
    have "vs ! i = Some d" if "i \<in> lvs m (hflags h)" "hkeys h ! i = Some key" for i
      using key_unique [OF inv that(1) x(1)] that(2) x(2) len by (simp add: vs_def)
    moreover have "vs ! unat x = Some d" using len by (simp add: vs_def)
    ultimately have "(\<exists>i \<in> lvs m (hflags h). hkeys h ! i = Some k \<and> vs ! i = v) \<longleftrightarrow> v = Some d" using x True by metis
    then show ?thesis using True unfolding new by auto
  next
    case False
    have "vs ! i = hvals h ! i" if "hkeys h ! i = Some k" for i
      using that False x(2) by (cases "i = unat x") (simp_all add: vs_def)
    then have "(\<exists>i \<in> lvs m (hflags h). hkeys h ! i = Some k \<and> vs ! i = v) \<longleftrightarrow>
        (\<exists>i \<in> lvs m (hflags h). hkeys h ! i = Some k \<and> hvals h ! i = v)" by metis
    then show ?thesis using False unfolding new by (simp add: entries_map [OF inv])
  qed
  then have "map_of (entries h') = (map_of (entries h))(key \<mapsto> Some d)" by (metis (no_types) ext not_None_eq)
  ultimately show ?thesis using inv' by blast
qed

lemma iter_setData_spec:
  assumes inv: "table_inv hf m h" and x: "unat i \<in> lvs m (hflags h)" "hkeys h ! unat i = Some key"
  shows "\<exists>h'. iter_setData h i d = Some h' \<and> table_inv hf m h' \<and> map_of (entries h') = (map_of (entries h))(key \<mapsto> Some d)"
proof -
  have "i \<noteq> n_buckets h" using inv x(1) by (auto simp: table_inv_def lvs_def unat_exp)
  then show ?thesis using set_value_spec [OF inv x, of d] by (simp add: iter_setData_def)
qed

text \<open>A lookup, whatever the state of the table.\<close>

lemma kh_get_init: "kh_get hf kh_init key = Some (n_buckets kh_init)"
  by (simp add: kh_get_def kh_init_def)

lemma get_cases:
  assumes inv: "tw_inv hf h"
  obtains (absent) "kh_get hf h key = Some (n_buckets h)" "tmap h key = None" "map_of (entries h) key = None"
  | (present) i m d where "kh_get hf h key = Some i" "i \<noteq> n_buckets h" "table_inv hf m h" "unat i \<in> lvs m (hflags h)"
      "hkeys h ! unat i = Some key" "hvals h ! unat i = Some d" "tmap h key = Some d"
proof (cases "tmap h key")
  case None
  then have n: "map_of (entries h) key = None" using tmap_entries [OF inv, of key] by simp
  have "kh_get hf h key = Some (n_buckets h)"
    using inv kh_get_entries [of hf _ h key] n kh_get_init by (auto simp: tw_inv_def kh_inv_def)
  then show thesis using absent None n by blast
next
  case (Some d)
  then have e: "map_of (entries h) key = Some (Some d)" using tmap_entries [OF inv, of key] by simp
  then have "h \<noteq> kh_init" by auto
  then obtain m where m: "table_inv hf m h" using inv by (auto simp: tw_inv_def kh_inv_def)
  from kh_get_entries [OF m, of key] e Some m show thesis by (auto intro: present)
qed

section \<open>The operations on the map\<close>

lemma size_entries: "kh_inv hf h \<Longrightarrow> unat (ksize h) = card (dom (map_of (entries h)))"
proof -
  assume "kh_inv hf h"
  then consider "h = kh_init" | m where "table_inv hf m h" by (auto simp: kh_inv_def)
  then show ?thesis
  proof cases
    case 1
    then show ?thesis by (simp add: kh_init_def entries_def)
  next
    case 2
    have "card (dom (map_of (entries h))) = length (entries h)"
      using distinct_card [OF entries_keys(2) [OF 2]] by (simp add: dom_map_of_conv_image_fst)
    also have "\<dots> = card (set (filter (live (hflags h)) [0..<unat (n_buckets h)]))"
      unfolding entries_def by (simp add: distinct_card del: set_filter set_upt)
    also have "\<dots> = unat (ksize h)" unfolding entries_keys(1) [OF 2] using 2 by (simp add: table_inv_def)
    finally show ?thesis by simp
  qed
qed

lemma size_tmap: "tw_inv hf h \<Longrightarrow> unat (ksize h) = card (dom (tmap h))"
proof -
  assume inv: "tw_inv hf h"
  have "dom (map_of (entries h)) = dom (tmap h)" using tmap_entries [OF inv] by (auto simp: dom_def)
  then show ?thesis using inv size_entries [of hf h] by (simp add: tw_inv_def)
qed

lemma put_value:
  assumes inv: "tw_inv hf h" and room: "card (dom (tmap h)) < 2 ^ 29" and absent: "tmap h key = None"
  shows "\<exists>r x h1 h2. kh_put hf h key = Some (r, x, h1) \<and> set_value x d h1 = Some h2 \<and> tw_inv hf h2 \<and>
    tmap h2 = (tmap h)(key \<mapsto> d)"
proof -
  have e: "map_of (entries h) key = None" using tmap_entries [OF inv, of key] absent by simp
  obtain m r x h1 where h1: "kh_put hf h key = Some (r, x, h1)" "table_inv hf m h1" "unat x \<in> lvs m (hflags h1)"
    "hkeys h1 ! unat x = Some key" "map_of (entries h1) |` (- {key}) = map_of (entries h)"
    using kh_put_spec [of hf h key] inv room size_tmap [OF inv] e by (auto simp: tw_inv_def)
  obtain h2 where h2: "set_value x d h1 = Some h2" "table_inv hf m h2"
    "map_of (entries h2) = (map_of (entries h1))(key \<mapsto> Some d)" using set_value_spec [OF h1(2-4)] by blast
  have "map_of (entries h2) = map_option Some \<circ> ((tmap h)(key \<mapsto> d))"
  proof
    fix k show "map_of (entries h2) k = (map_option Some \<circ> ((tmap h)(key \<mapsto> d))) k"
      using tmap_entries [OF inv, of k] fun_cong [OF h1(5), of k] by (cases "k = key") (simp_all add: h2(3))
  qed
  from tw_inv_from [OF h2(2) this] show ?thesis using h1(1) h2(1) by blast
qed

lemma addReplace_spec:
  assumes inv: "tw_inv hf h" and room: "card (dom (tmap h)) < 2 ^ 29"
  shows "\<exists>h'. table_addReplace hf key d h = Some (True, h') \<and> tw_inv hf h' \<and> tmap h' = (tmap h)(key \<mapsto> d)"
  using inv
proof (cases rule: get_cases [of hf h key])
  case absent
  then show ?thesis using put_value [OF inv room absent(2), of d] by (auto simp: table_addReplace_def)
next
  case (present i m d')
  obtain h' where h': "set_value i d h = Some h'" "table_inv hf m h'"
    "map_of (entries h') = (map_of (entries h))(key \<mapsto> Some d)" using set_value_spec [OF present(3-5)] by blast
  have "map_of (entries h') = map_option Some \<circ> ((tmap h)(key \<mapsto> d))"
    using tmap_entries [OF inv] by (auto simp: h'(3))
  from tw_inv_from [OF h'(2) this] show ?thesis using present(1,2) h'(1) by (simp add: table_addReplace_def)
qed

lemma addNoreplace_spec:
  assumes inv: "tw_inv hf h" and room: "card (dom (tmap h)) < 2 ^ 29"
  shows "\<exists>h'. table_addNoreplace hf key d h = Some (tmap h key = None, h') \<and> tw_inv hf h' \<and>
    tmap h' = (if tmap h key = None then (tmap h)(key \<mapsto> d) else tmap h)"
  using inv
proof (cases rule: get_cases [of hf h key])
  case absent
  then show ?thesis using put_value [OF inv room absent(2), of d] by (auto simp: table_addNoreplace_def)
next
  case present
  then show ?thesis using inv by (simp add: table_addNoreplace_def)
qed

lemma find_spec: "tw_inv hf h \<Longrightarrow> table_find hf key h = Some (tmap h key)"
  by (cases rule: get_cases [of hf h key]; simp)
    (auto simp: table_find_def fetch_def lvs_def table_inv_def)

lemma remove_spec:
  assumes inv: "tw_inv hf h"
  shows "\<exists>h'. table_remove hf key h = Some (tmap h key \<noteq> None, tmap h key, h') \<and> tw_inv hf h' \<and>
    tmap h' = (tmap h)(key := None)"
  using inv
proof (cases rule: get_cases [of hf h key])
  case absent
  then show ?thesis using inv by (simp add: table_remove_def fun_upd_idem)
next
  case (present i m d)
  obtain h' where h': "kh_del h i = Some h'" "table_inv hf m h'" "map_of (entries h') = (map_of (entries h))(key := None)"
    using kh_del_spec [OF present(3-5)] by blast
  have "map_of (entries h') = map_option Some \<circ> ((tmap h)(key := None))"
    using tmap_entries [OF inv] by (auto simp: h'(3))
  moreover have "unat i < length (hvals h)" using present(3,4) by (auto simp: table_inv_def lvs_def)
  ultimately show ?thesis
    using tw_inv_from [OF h'(2)] present h'(1) by (simp add: table_remove_def fetch_def)
qed

lemma clear_spec:
  assumes inv: "tw_inv hf h"
  shows "tw_inv hf (table_removeAll h) \<and> tmap (table_removeAll h) = Map.empty"
proof (cases "h = kh_init")
  case True
  then show ?thesis by (simp add: table_removeAll_def kh_clear_def) (simp add: kh_init_def)
next
  case False
  then obtain m where m: "table_inv hf m h" using inv by (auto simp: tw_inv_def kh_inv_def)
  then have m': "m < 32" "n_buckets h = 2 ^ m" "length (hflags h) = unat (ac_fsize (2 ^ m))" by (auto simp: table_inv_def)
  have len: "length (empty_flags (2 ^ m)) = unat (ac_fsize (2 ^ m))" by (simp add: empty_flags_def)
  have e: "emp (empty_flags (2 ^ m)) i" if "i < 2 ^ m" for i
    using empty_flags [OF covers_table [OF m'(1) len that]] by blast
  then have L: "lvs m (empty_flags (2 ^ m)) = {}" "occs m (empty_flags (2 ^ m)) = {}"
    by (auto simp: lvs_def occs_def live_def)
  have "hflags h \<noteq> []" using covers_table [OF m'(1,3), of 0] by (auto simp: covers_def)
  then have c: "table_removeAll h = h\<lparr>hflags := empty_flags (2 ^ m), ksize := 0, n_occupied := 0\<rparr>"
    by (simp add: table_removeAll_def kh_clear_def m'(2))
  then have inv': "table_inv hf m (table_removeAll h)" using m len L by (simp add: table_inv_def placed_def)
  have "map_of (entries (table_removeAll h)) = map_option Some \<circ> Map.empty"
  proof
    fix k show "map_of (entries (table_removeAll h)) k = (map_option Some \<circ> Map.empty) k"
      using entries_None [OF inv', of k] L by (simp add: c)
  qed
  from tw_inv_from [OF inv' this] show ?thesis by simp
qed

end
