(* ===== verification/HashTableSpec.thy ===== *)
theory HashTableSpec
  imports HashTable
begin

text \<open>
  The contract of a table of the logger and what follows from it; the hash table keeps it,
  whatever the hash function. Any sequence of operations answers as on a finite map, and an
  iterator meets every entry once.
\<close>

section \<open>The interface\<close>

locale map_table =
  fixes tinv :: "'t \<Rightarrow> bool"
    and lookup :: "'t \<Rightarrow> 'k \<Rightarrow> 'v option"
    and capacity_left :: "'t \<Rightarrow> bool"
    and put :: "'k \<Rightarrow> 'v \<Rightarrow> 't \<Rightarrow> (bool \<times> 't) option"
    and put_new :: "'k \<Rightarrow> 'v \<Rightarrow> 't \<Rightarrow> (bool \<times> 't) option"
    and find :: "'k \<Rightarrow> 't \<Rightarrow> 'v option option"
    and rem :: "'k \<Rightarrow> 't \<Rightarrow> (bool \<times> 'v option \<times> 't) option"
  assumes put: "tinv t \<Longrightarrow> capacity_left t \<Longrightarrow>
      \<exists>t'. put k v t = Some (True, t') \<and> tinv t' \<and> lookup t' = (lookup t)(k \<mapsto> v)"
    and put_new: "tinv t \<Longrightarrow> capacity_left t \<Longrightarrow>
      \<exists>t'. put_new k v t = Some (lookup t k = None, t') \<and> tinv t' \<and>
        lookup t' = (if lookup t k = None then (lookup t)(k \<mapsto> v) else lookup t)"
    and find: "tinv t \<Longrightarrow> find k t = Some (lookup t k)"
    and rem: "tinv t \<Longrightarrow>
      \<exists>t'. rem k t = Some (lookup t k \<noteq> None, lookup t k, t') \<and> tinv t' \<and> lookup t' = (lookup t)(k := None)"
begin

lemma found_after_put:
  "tinv t \<Longrightarrow> capacity_left t \<Longrightarrow> \<exists>t'. put k v t = Some (True, t') \<and> find k t' = Some (Some v)"
  using put [of t k v] find by fastforce

lemma others_after_put:
  "tinv t \<Longrightarrow> capacity_left t \<Longrightarrow> k' \<noteq> k \<Longrightarrow> \<exists>t'. put k v t = Some (True, t') \<and> find k' t' = find k' t"
  using put [of t k v] find by fastforce

lemma first_put_stays:
  "tinv t \<Longrightarrow> capacity_left t \<Longrightarrow> find k t = Some (Some v) \<Longrightarrow>
    \<exists>t'. put_new k w t = Some (False, t') \<and> find k t' = Some (Some v)"
  using put_new [of t k w] find by fastforce

lemma gone_after_rem: "tinv t \<Longrightarrow> \<exists>b d t'. rem k t = Some (b, d, t') \<and> find k t' = Some None"
  using rem [of t k] find by fastforce

end

interpretation khash: map_table "tw_inv hf" tmap "\<lambda>h. card (dom (tmap h)) < 2 ^ 29"
  "table_addReplace hf" "table_addNoreplace hf" "table_find hf" "table_remove hf" for hf
  by unfold_locales (rule addReplace_spec addNoreplace_spec find_spec remove_spec; assumption)+

section \<open>Any sequence of operations\<close>

datatype ('k, 'v) table_op = AddReplace 'k 'v | AddNoreplace 'k 'v | Find 'k | RemoveKey 'k | RemoveAll | Size

datatype 'v table_answer = Flag bool | Found "'v option" | Removed_data bool "'v option" | Cleared | Count nat | Stuck

fun table_step :: "('k \<Rightarrow> u32) \<Rightarrow> ('k, 'v) table_op \<Rightarrow> ('k, 'v) khash \<Rightarrow> 'v table_answer \<times> ('k, 'v) khash" where
  "table_step hf (AddReplace k v) h = (case table_addReplace hf k v h of Some (b, h) \<Rightarrow> (Flag b, h) | None \<Rightarrow> (Stuck, h))"
| "table_step hf (AddNoreplace k v) h = (case table_addNoreplace hf k v h of Some (b, h) \<Rightarrow> (Flag b, h) | None \<Rightarrow> (Stuck, h))"
| "table_step hf (Find k) h = (case table_find hf k h of Some d \<Rightarrow> (Found d, h) | None \<Rightarrow> (Stuck, h))"
| "table_step hf (RemoveKey k) h =
     (case table_remove hf k h of Some (b, d, h) \<Rightarrow> (Removed_data b d, h) | None \<Rightarrow> (Stuck, h))"
| "table_step hf RemoveAll h = (Cleared, table_removeAll h)"
| "table_step hf Size h = (Count (unat (table_size h)), h)"

fun map_step :: "('k, 'v) table_op \<Rightarrow> ('k \<rightharpoonup> 'v) \<Rightarrow> 'v table_answer \<times> ('k \<rightharpoonup> 'v)" where
  "map_step (AddReplace k v) m = (Flag True, m(k \<mapsto> v))"
| "map_step (AddNoreplace k v) m = (Flag (m k = None), if m k = None then m(k \<mapsto> v) else m)"
| "map_step (Find k) m = (Found (m k), m)"
| "map_step (RemoveKey k) m = (Removed_data (m k \<noteq> None) (m k), m(k := None))"
| "map_step RemoveAll m = (Cleared, Map.empty)"
| "map_step Size m = (Count (card (dom m)), m)"

lemma table_step_refines:
  assumes inv: "tw_inv hf h" and room: "card (dom (tmap h)) < 2 ^ 29"
  shows "\<exists>r h'. table_step hf x h = (r, h') \<and> map_step x (tmap h) = (r, tmap h') \<and> tw_inv hf h'"
proof (cases x)
  case (AddReplace k v)
  then show ?thesis using khash.put [OF inv room, of k v] by auto
next
  case (AddNoreplace k v)
  then show ?thesis using khash.put_new [OF inv room, of k v] by auto
next
  case (Find k)
  then show ?thesis using khash.find [OF inv, of k] inv by simp
next
  case (RemoveKey k)
  then show ?thesis using khash.rem [OF inv, of k] by auto
next
  case RemoveAll
  then show ?thesis using clear_spec [OF inv] by auto
next
  case Size
  then show ?thesis using size_tmap [OF inv] inv by (simp add: table_size_def)
qed

lemma map_step_grows: "map_step x m = (r, m') \<Longrightarrow> finite (dom m) \<Longrightarrow> finite (dom m') \<and> card (dom m') \<le> card (dom m) + 1"
  by (cases x) (auto simp: card_insert_if split: if_splits
      intro: le_SucI [OF card_Diff1_le])

lemma table_run_refines:
  assumes "tw_inv hf h" "card (dom (tmap h)) + length ops < 2 ^ 29" "finite (dom (tmap h))"
  shows "\<exists>answers h'. run_steps (table_step hf) ops h = (answers, h') \<and>
    run_steps map_step ops (tmap h) = (answers, tmap h') \<and> tw_inv hf h'"
  using assms
proof (induction ops arbitrary: h)
  case (Cons x ops)
  then have room: "card (dom (tmap h)) < 2 ^ 29" by simp
  obtain r h1 where s: "table_step hf x h = (r, h1)" "map_step x (tmap h) = (r, tmap h1)" "tw_inv hf h1"
    using table_step_refines [OF Cons.prems(1) room] by blast
  have "finite (dom (tmap h1))" "card (dom (tmap h1)) + length ops < 2 ^ 29"
    using map_step_grows [OF s(2) Cons.prems(3)] Cons.prems(2) by simp_all
  from Cons.IH [OF s(3) this(2,1)] show ?case using s by auto
qed auto

text \<open>C12 Whatever the hash function, any fewer than \<open>2 ^ 29\<close> operations on a new table end, never
  leave its arrays, and answer as the same operations on a finite map.\<close>

theorem hash_table_refines_map:
  assumes "length ops < 2 ^ 29"
  shows "\<exists>answers h m. run_steps (table_step hf) ops kh_init = (answers, h) \<and>
    run_steps map_step ops Map.empty = (answers, m) \<and> (\<forall>k. table_find hf k h = Some (m k))"
  using table_run_refines [of hf kh_init ops] assms khash.find by fastforce

lemma hash_table_refines_map_witness:
  "\<exists>h. run_steps (table_step (\<lambda>k. k)) [AddReplace 5 (1 :: nat), AddNoreplace 5 2, AddReplace 21 3, RemoveKey 5, Find 21, Find 5, Size]
      kh_init = ([Flag True, Flag False, Flag True, Removed_data True (Some 1), Found (Some 3), Found None, Count 1], h)"
  using hash_table_refines_map [of "[AddReplace 5 (1 :: nat), AddNoreplace 5 2, AddReplace 21 3, RemoveKey 5, Find 21, Find 5, Size]"
      "\<lambda>k. k"] by auto

section \<open>Iteration\<close>

lemma iter_skip_to:
  assumes cov: "\<forall>j < unat (n_buckets h). covers (hflags h) j"
    and j: "j \<le> unat (n_buckets h)" "\<forall>l. i \<le> l \<and> l < j \<longrightarrow> \<not> live (hflags h) l"
      "j = unat (n_buckets h) \<or> live (hflags h) j" and i: "i \<le> j"
  shows "iter_skip h (word_of_nat i) = Some (word_of_nat j)"
  using i j(2)
proof (induction rule: inc_induct)
  case base
  have w: "unat (word_of_nat j :: u32) = j" using j(1) unat_less_32 [of "n_buckets h"] by (simp add: unat_of_nat)
  then have "word_of_nat j = n_buckets h \<longleftrightarrow> j = unat (n_buckets h)" by (metis word_unat_eq_iff)
  then show ?case using j cov w by (subst iter_skip.simps) auto
next
  case (step l)
  have w: "unat (word_of_nat l :: u32) = l" using step.hyps(2) j(1) unat_less_32 [of "n_buckets h"] by (simp add: unat_of_nat)
  have "word_of_nat l \<noteq> n_buckets h" using step.hyps(2) j(1) w by auto
  moreover have "iter_skip h (word_of_nat l + 1) = Some (word_of_nat j)" using step by (simp add: add.commute)
  moreover have "covers (hflags h) l" "\<not> live (hflags h) l" using step cov j(1) by simp_all
  ultimately show ?case using w by (subst iter_skip.simps) simp
qed

lemma next_live:
  assumes "i \<le> n"
  shows "\<exists>j. i \<le> j \<and> j \<le> n \<and> (\<forall>l. i \<le> l \<and> l < j \<longrightarrow> \<not> live fl l) \<and> (j = n \<or> live fl j) \<and>
    filter (live fl) [i..<n] = filter (live fl) [j..<n]"
  using assms
proof (induction rule: inc_induct)
  case base
  show ?case by (intro exI [of _ n]) auto
next
  case (step i)
  then obtain j where j: "Suc i \<le> j" "j \<le> n" "\<forall>l. Suc i \<le> l \<and> l < j \<longrightarrow> \<not> live fl l" "j = n \<or> live fl j"
    "filter (live fl) [Suc i..<n] = filter (live fl) [j..<n]" by blast
  show ?case
  proof (cases "live fl i")
    case True
    then show ?thesis using step.hyps by (intro exI [of _ i]) auto
  next
    case False
    then have "\<forall>l. i \<le> l \<and> l < j \<longrightarrow> \<not> live fl l" using j(3) by (metis Suc_leI le_neq_implies_less)
    moreover have "filter (live fl) [i..<n] = filter (live fl) [j..<n]"
      using False step.hyps j(5) by (simp add: upt_conv_Cons)
    ultimately show ?thesis using j by (intro exI [of _ j]) simp
  qed
qed

definition full_entries :: "('k, 'v) khash \<Rightarrow> nat list \<Rightarrow> ('k \<times> 'v) list" where
  "full_entries h is = map (\<lambda>i. (the (hkeys h ! i), the (hvals h ! i))) is"

lemma live_cell:
  assumes "tw_inv hf h" "table_inv hf m h" "j \<in> lvs m (hflags h)"
  shows "\<exists>k d. fetch_set (hkeys h) j = Some k \<and> hkeys h ! j = Some k \<and> fetch_set (hvals h) j = Some d \<and> hvals h ! j = Some d"
proof -
  obtain k where k: "fetch_set (hkeys h) j = Some k" "hkeys h ! j = Some k" using table_key [OF assms(2,3)] by blast
  then have "map_of (entries h) k = Some (hvals h ! j)" using entries_map [OF assms(2)] assms(3) by blast
  then have "hvals h ! j \<noteq> None" using assms(1) unfolding tw_inv_def by metis
  then show ?thesis using k assms(2,3) by (auto simp: fetch_set_def fetch_def table_inv_def lvs_def)
qed

lemma iterate_from:
  assumes inv: "tw_inv hf h" "table_inv hf m h" and j: "j \<le> 2 ^ m" "j = 2 ^ m \<or> live (hflags h) j"
  shows "iterate h (word_of_nat j) = Some (full_entries h (filter (live (hflags h)) [j..<2 ^ m]))"
  using j
proof (induction "2 ^ m - j" arbitrary: j rule: less_induct)
  case less
  have m: "m < 32" "n_buckets h = 2 ^ m" and n: "unat (n_buckets h) = 2 ^ m" using inv(2) by (auto simp: table_inv_def unat_exp)
  have w: "unat (word_of_nat j :: u32) = j" using less.prems(1) unat_less_32 [of "n_buckets h"] n by (simp add: unat_of_nat)
  have e: "atEnd h (word_of_nat j) \<longleftrightarrow> j = 2 ^ m" unfolding atEnd_def by (metis w n word_unat_eq_iff)
  show ?case
  proof (cases "j = 2 ^ m")
    case True
    then show ?thesis using e by (subst iterate.simps) (simp add: full_entries_def)
  next
    case False
    then have lt: "j < 2 ^ m" and lv: "j \<in> lvs m (hflags h)" using less.prems by (auto simp: lvs_def)
    obtain k d where kd: "fetch_set (hkeys h) j = Some k" "hkeys h ! j = Some k" "fetch_set (hvals h) j = Some d"
      "hvals h ! j = Some d" using live_cell [OF inv lv] by blast
    obtain j' where j': "Suc j \<le> j'" "j' \<le> 2 ^ m" "\<forall>l. Suc j \<le> l \<and> l < j' \<longrightarrow> \<not> live (hflags h) l"
      "j' = 2 ^ m \<or> live (hflags h) j'"
      "filter (live (hflags h)) [Suc j..<2 ^ m] = filter (live (hflags h)) [j'..<2 ^ m]"
      using next_live [of "Suc j" "2 ^ m" "hflags h"] lt by auto
    have "iter_skip h (word_of_nat (Suc j)) = Some (word_of_nat j')"
      using table_covers [OF inv(2)] j' by (intro iter_skip_to) (simp_all add: n)
    then have "iter_skip h (word_of_nat j + 1) = Some (word_of_nat j')" by (simp add: add.commute)
    moreover have "iterate h (word_of_nat j') = Some (full_entries h (filter (live (hflags h)) [j'..<2 ^ m]))"
      using less.hyps [of j'] j' lt by simp
    moreover have "word_of_nat j \<noteq> n_buckets h" using e False by (simp add: atEnd_def)
    moreover have "filter (live (hflags h)) [j..<2 ^ m] = j # filter (live (hflags h)) [j'..<2 ^ m]"
      using lt lv j'(5) by (simp add: upt_conv_Cons lvs_def)
    ultimately show ?thesis
      using e False kd w by (subst iterate.simps) (simp add: iter_key_def iter_data_def getNext_def full_entries_def)
  qed
qed

lemma iterate_table:
  assumes inv: "tw_inv hf h"
  shows "\<exists>i. gotoStart h = Some i \<and> iterate h i = Some (map (\<lambda>(k, d). (k, the d)) (entries h))"
proof (cases "h = kh_init")
  case True
  then have "gotoStart h = Some 0" by (simp add: gotoStart_def iter_skip.simps kh_init_def)
  then show ?thesis using True by (simp add: iterate.simps atEnd_def) (simp add: kh_init_def)
next
  case False
  then obtain m where m: "table_inv hf m h" using inv by (auto simp: tw_inv_def kh_inv_def)
  have n: "unat (n_buckets h) = 2 ^ m" using m by (auto simp: table_inv_def unat_exp)
  obtain j where j: "j \<le> 2 ^ m" "\<forall>l. 0 \<le> l \<and> l < j \<longrightarrow> \<not> live (hflags h) l" "j = 2 ^ m \<or> live (hflags h) j"
    "filter (live (hflags h)) [0..<2 ^ m] = filter (live (hflags h)) [j..<2 ^ m]"
    using next_live [of 0 "2 ^ m" "hflags h"] by auto
  have "iter_skip h (word_of_nat 0) = Some (word_of_nat j)"
    using table_covers [OF m] j by (intro iter_skip_to) (simp_all add: n)
  then have "gotoStart h = Some (word_of_nat j)" by (simp add: gotoStart_def)
  moreover have "full_entries h (filter (live (hflags h)) [0..<2 ^ m]) = map (\<lambda>(k, d). (k, the d)) (entries h)"
    by (simp add: full_entries_def entries_def n)
  ultimately show ?thesis using iterate_from [OF inv m j(1,3)] j(4) by auto
qed

lemma map_of_the: "map_of (map (\<lambda>(k, d). (k, the d)) xs) k = map_option the (map_of xs k)"
  by (induction xs) auto

text \<open>C16 An iterator over a table made by any fewer than \<open>2 ^ 29\<close> operations starts, ends, and meets
  every key of the map once, with its data.\<close>

theorem iterator_meets_every_entry:
  assumes "length ops < 2 ^ 29"
  shows "\<exists>answers h i xs. run_steps (table_step hf) ops kh_init = (answers, h) \<and> gotoStart h = Some i \<and>
    iterate h i = Some xs \<and> distinct (map fst xs) \<and> map_of xs = snd (run_steps map_step ops Map.empty)"
proof -
  obtain answers h where run: "run_steps (table_step hf) ops kh_init = (answers, h)"
    "run_steps map_step ops Map.empty = (answers, tmap h)" and inv: "tw_inv hf h"
    using table_run_refines [of hf kh_init ops] assms by auto
  obtain i where i: "gotoStart h = Some i" "iterate h i = Some (map (\<lambda>(k, d). (k, the d)) (entries h))"
    using iterate_table [OF inv] by blast
  have "map fst (map (\<lambda>(k, d). (k, the d)) (entries h)) = map fst (entries h)" by (simp add: case_prod_beta comp_def)
  moreover have "distinct (map fst (entries h))"
    using inv entries_keys(2) by (auto simp: tw_inv_def kh_inv_def)
  ultimately have "distinct (map fst (map (\<lambda>(k, d). (k, the d)) (entries h)))" by (simp only:)
  moreover have "map_of (map (\<lambda>(k, d). (k, the d)) (entries h)) = tmap h"
    by (rule ext) (simp add: map_of_the tmap_entries [OF inv] option.map_comp comp_def option.map_ident)
  ultimately show ?thesis using run i by (metis snd_conv)
qed

lemma iterator_meets_every_entry_witness:
  "\<exists>h i xs. run_steps (table_step (\<lambda>k. k)) [AddReplace 5 (1 :: nat), AddReplace 21 3] kh_init = ([Flag True, Flag True], h) \<and>
     gotoStart h = Some i \<and> iterate h i = Some xs \<and> distinct (map fst xs) \<and> map_of xs = [5 \<mapsto> 1, 21 \<mapsto> 3]"
  using iterator_meets_every_entry [of "[AddReplace 5 (1 :: nat), AddReplace 21 3]" "\<lambda>k. k"]
    table_run_refines [of "\<lambda>k. k" kh_init "[AddReplace 5 (1 :: nat), AddReplace 21 3]"]
  by auto

end
