(* ===== verification/HashTableOrder.thy ===== *)
theory HashTableOrder
  imports HashTableSpec Targets
begin

section \<open>The probe sequence of the logger's hash\<close>

lemma key_hash_0 [simp]: "key_hash k = 0"
  by (simp add: key_hash_def tw_hash_def int64_hash_def)

lemma inc_1: "0 < m \<Longrightarrow> m < 32 \<Longrightarrow> ac_inc 0 (2 ^ m - 1) = 1"
proof -
  assume "0 < m" "m < 32"
  then have "1 AND (2 ^ m - 1) = (1 :: u32)"
    by (intro bit_word_eqI) (auto simp: bit_and_iff bit_1_iff bit_mask_iff simp flip: mask_eq_exp_minus_1)
  then show ?thesis by (simp add: ac_inc_def)
qed

lemma ppos_key_hash: "0 < m \<Longrightarrow> m < 32 \<Longrightarrow> ppos key_hash m k t = t mod 2 ^ m"
  by (simp add: ppos_def inc_1)

section \<open>Tables filled from the front\<close>

definition laid :: "nat \<Rightarrow> ('k \<times> 'v) list \<Rightarrow> ('k, 'v) khash \<Rightarrow> bool" where
  "laid m L h \<longleftrightarrow>
     table_inv key_hash m h \<and> length L < 2 ^ m \<and>
     (\<forall>i < 2 ^ m. (emp (hflags h) i \<longleftrightarrow> length L \<le> i) \<and> \<not> dl (hflags h) i) \<and>
     (\<forall>i < length L. hkeys h ! i = Some (fst (L ! i)) \<and> hvals h ! i = Some (snd (L ! i)))"

definition laid_out :: "('k \<times> 'v) list \<Rightarrow> ('k, 'v) khash \<Rightarrow> bool" where
  "laid_out L h \<longleftrightarrow> h = kh_init \<and> L = [] \<or> (\<exists>m. laid m L h)"

lemma not_laid_init: "\<not> laid m L kh_init"
proof
  assume "laid m L kh_init"
  then have "m < 32" "(0 :: u32) = 2 ^ m" by (auto simp: laid_def table_inv_def kh_init_def)
  then show False by (metis unat_exp unat_0 power_eq_0_iff zero_neq_numeral)
qed

lemma filter_front: "n \<le> N \<Longrightarrow> filter (\<lambda>i. i < n) [0..<N] = [0..<n]"
  by (induction N) (auto simp: le_Suc_eq)

lemma laid_facts:
  assumes l: "laid m L h"
  shows "lvs m (hflags h) = {..<length L}" "entries h = map (\<lambda>(k, v). (k, Some v)) L" "tw_inv key_hash h"
proof -
  have inv: "table_inv key_hash m h" and n: "unat (n_buckets h) = 2 ^ m" and len: "length L < 2 ^ m"
    using l by (auto simp: laid_def table_inv_def unat_exp)
  show lv: "lvs m (hflags h) = {..<length L}" using l by (auto simp: lvs_def live_def laid_def)
  have "filter (live (hflags h)) [0..<2 ^ m] = filter (\<lambda>i. i < length L) [0..<2 ^ m]"
    using l by (intro filter_cong) (auto simp: laid_def live_def)
  also have "\<dots> = [0..<length L]" using len by (intro filter_front) simp
  finally have "entries h = map (\<lambda>i. (the (hkeys h ! i), hvals h ! i)) [0..<length L]" by (simp add: entries_def n)
  also have "\<dots> = map (\<lambda>(k, v). (k, Some v)) L"
    using l by (intro nth_equalityI) (auto simp: laid_def split_beta)
  finally show e: "entries h = map (\<lambda>(k, v). (k, Some v)) L" .
  have "map_of (entries h) k \<noteq> Some None" for k
    unfolding e by (auto dest: map_of_SomeD)
  then show "tw_inv key_hash h" using inv by (auto simp: tw_inv_def kh_inv_def)
qed

lemma laid_map: "laid m L h \<Longrightarrow> map_of (entries h) k = map_option Some (map_of L k)"
  using map_of_map [of Some L] by (simp add: laid_facts(2))

section \<open>Adding\<close>

lemma addReplace_new: "map_of L k = None \<Longrightarrow> addReplace k v L = L @ [(k, v)]"
  by (induction L) (auto split: if_splits)

lemma addReplace_old:
  "distinct (map fst L) \<Longrightarrow> i < length L \<Longrightarrow> fst (L ! i) = k \<Longrightarrow> addReplace k v L = L[i := (k, v)]"
proof (induction L arbitrary: i)
  case (Cons x L)
  show ?case
  proof (cases i)
    case (Suc j)
    then have "fst (L ! j) \<in> fst ` set L" using Cons.prems(2) by simp
    then show ?thesis using Cons Suc by (cases x) auto
  qed (use Cons.prems in \<open>cases x, simp\<close>)
qed simp

lemma replace_laid:
  assumes l: "laid m L h" and old: "map_of L k \<noteq> None"
  shows "\<exists>h'. table_addReplace key_hash k v h = Some (True, h') \<and> laid m (addReplace k v L) h'"
proof -
  have inv: "table_inv key_hash m h" using l by (simp add: laid_def)
  obtain d where "map_of (entries h) k = Some (Some d)" using old laid_map [OF l, of k] by auto
  then obtain i where i: "kh_get key_hash h k = Some i" "i \<noteq> n_buckets h" "unat i \<in> lvs m (hflags h)"
    "hkeys h ! unat i = Some k" using kh_get_entries [OF inv, of k] by auto
  have il: "unat i < length L" using i(3) laid_facts(1) [OF l] by simp
  have "distinct (map fst (entries h))" by (rule entries_keys(2) [OF inv])
  then have "distinct (map fst L)" by (simp add: laid_facts(2) [OF l] comp_def case_prod_beta)
  moreover have "fst (L ! unat i) = k" using l il i(4) by (simp add: laid_def)
  ultimately have a: "addReplace k v L = L[unat i := (k, v)]" using il by (intro addReplace_old) simp_all
  have len: "unat i < length (hvals h)" using inv i(3) by (auto simp: table_inv_def lvs_def)
  define h' where "h' = h\<lparr>hvals := (hvals h)[unat i := Some v]\<rparr>"
  have "table_addReplace key_hash k v h = Some (True, h')"
    using i(1,2) len by (simp add: table_addReplace_def set_value_def store_def h'_def)
  moreover have "table_inv key_hash m h'" using inv by (auto simp: table_inv_def h'_def)
  then have "laid m (addReplace k v L) h'"
    using l i(4) len unfolding a laid_def by (auto simp: h'_def nth_list_update)
  ultimately show ?thesis by blast
qed

lemma append_laid:
  assumes l: "laid m L h" and room: "n_occupied h < upper_bound h" and new: "map_of L k = None"
  shows "\<exists>r x h1 h2. kh_put key_hash h k = Some (r, x, h1) \<and> set_value x v h1 = Some h2 \<and> laid m (L @ [(k, v)]) h2"
proof -
  have inv: "table_inv key_hash m h" using l by (simp add: laid_def)
  have m: "0 < m" "m < 32" using inv by (auto simp: table_inv_def)
  have ab: "map_of (entries h) k = None" using laid_map [OF l, of k] new by simp
  obtain r x fl where run: "kh_put key_hash h k = Some (r, x, put_at x k fl h)"
    and x: "unat x < 2 ^ m" "\<not> live (hflags h) (unat x)" "reached key_hash m (hflags h) k (unat x)"
    and fl: "length fl = length (hflags h)" "emp fl = (emp (hflags h))(unat x := False)"
      "dl fl = (dl (hflags h))(unat x := False)" using put_found [OF inv room ab] by blast
  have "length L \<le> unat x" using l x(1,2) by (auto simp: laid_def live_def)
  moreover have "unat x \<le> length L"
  proof (rule ccontr)
    assume gt: "\<not> unat x \<le> length L"
    obtain t where t: "ppos key_hash m k t = unat x" "\<forall>s < t. \<not> emp (hflags h) (ppos key_hash m k s)"
      using x(3) by (auto simp: reached_def)
    have "unat x \<le> t" using t(1) ppos_key_hash [OF m] by (metis mod_less_eq_dividend)
    then have "\<not> emp (hflags h) (ppos key_hash m k (length L))" using gt t(2) by simp
    then show False using l ppos_key_hash [OF m, of k "length L"] by (simp add: laid_def)
  qed
  ultimately have pos: "unat x = length L" by simp
  have no: "\<forall>j \<in> lvs m (hflags h). hkeys h ! j \<noteq> Some k" using ab entries_None [OF inv] by blast
  note P = put_at_inv [OF inv room x no fl]
  have lens: "length (hkeys h) = 2 ^ m" "length (hvals h) = 2 ^ m" using inv by (auto simp: table_inv_def)
  define h2 where "h2 = (put_at x k fl h)\<lparr>hvals := (hvals h)[unat x := Some v]\<rparr>"
  have set: "set_value x v (put_at x k fl h) = Some h2"
    using x(1) lens by (simp add: set_value_def store_def h2_def put_at_def)
  have inv2: "table_inv key_hash m h2" using P(1) by (auto simp: table_inv_def h2_def put_at_def)
  have "card (occs m fl) < 2 ^ m" using inv2 hash_upper_less(2) [of m] by (auto simp: table_inv_def h2_def put_at_def word_le_nat_alt)
  moreover have "occs m fl = {..length L}" using l fl(2) x(1) pos by (auto simp: occs_def laid_def le_less)
  ultimately have "length L + 1 < 2 ^ m" by simp
  then have "laid m (L @ [(k, v)]) h2"
    using l inv2 fl pos x(1) lens unfolding laid_def
    by (auto simp: h2_def put_at_def nth_append nth_list_update less_Suc_eq)
  then show ?thesis using run set by blast
qed

section \<open>Rehashing keeps the order\<close>

definition moved :: "nat \<Rightarrow> nat \<Rightarrow> nat \<Rightarrow> nat \<Rightarrow> 'k option list \<Rightarrow> 'v option list \<Rightarrow> ('k, 'v) rehash \<Rightarrow> bool" where
  "moved m n j l ks vs s \<longleftrightarrow>
     length (nflags s) = unat (ac_fsize (2 ^ m)) \<and> (\<forall>i < n. covers (oflags s) i) \<and>
     (\<forall>i < 2 ^ m. (emp (nflags s) i \<longleftrightarrow> min j l \<le> i) \<and> \<not> dl (nflags s) i) \<and>
     (\<forall>i < n. live (oflags s) i \<longleftrightarrow> j \<le> i \<and> i < l) \<and> rkeys s = ks \<and> rvals s = vs"

lemma move_one:
  assumes m: "2 \<le> m" "m < 32" "n < 2 ^ 32" and mv: "moved m n j l ks vs s" and j: "j < n" "j < l" "j < 2 ^ m"
    and ks: "j < length ks" "j < length vs" "ks ! j = Some key" and w: "(w :: u32) = word_of_nat j" "nw = word_of_nat n"
  shows "\<exists>fl s'. set_isdel_true (oflags s) w = Some fl \<and>
    kick key_hash nw (2 ^ m - 1) key (vs ! j) (s\<lparr>oflags := fl\<rparr>) = Some s' \<and> moved m n (Suc j) l ks vs s'"
proof -
  have wj: "unat w = j" using j(1) m(3) by (simp add: w unat_of_nat)
  obtain fl where fl: "set_isdel_true (oflags s) w = Some fl" "length fl = length (oflags s)" "emp fl = emp (oflags s)"
    "dl fl = (dl (oflags s))(j := True)"
    using mark_deleted [of "oflags s" w] mv j(1) by (auto simp: moved_def wj)
  have len: "length (nflags s) = unat (ac_fsize (2 ^ m))" using mv by (simp add: moved_def)
  have pj: "ppos key_hash m key t = t" if "t \<le> j" for t
    using that j(3) m by (simp add: ppos_key_hash)
  have "emp (nflags s) (ppos key_hash m key j)" "\<forall>t < j. \<not> emp (nflags s) (ppos key_hash m key t)"
    using mv j by (auto simp: moved_def pj)
  from free_slot_loop [OF m(2) len this, of 0]
  have free: "free_slot (nflags s) (ac_inc 0 (2 ^ m - 1)) (2 ^ m - 1) 0 = Some (pword key_hash m key j)"
    using pword_0 [OF m(2), of key_hash key] by simp
  have pw: "pword key_hash m key j = w" by (simp add: pword_def pj w)
  obtain nf where nf: "set_isempty_false (nflags s) w = Some nf" "length nf = length (nflags s)"
    "emp nf = (emp (nflags s))(j := False)" "dl nf = dl (nflags s)"
    using mark_occupied [OF covers_table [OF m(2) len, of "unat w"]] j(3) wj by auto
  have cov: "covers fl j" using mv j(1) fl(2) by (simp add: moved_def covers_def)
  have nl: "\<not> live fl j" using fl(4) by (simp add: live_def)
  define s' where "s' = s\<lparr>oflags := fl, nflags := nf\<rparr>"
  have arr: "rkeys s = ks" "rvals s = vs" using mv by (simp_all add: moved_def)
  have "kick key_hash nw (2 ^ m - 1) key (vs ! j) (s\<lparr>oflags := fl\<rparr>) = Some s'"
    using free pw nf(1) cov nl ks wj by (subst kick.simps) (simp add: store_def arr s'_def list_update_same_conv)
  moreover have "moved m n (Suc j) l ks vs s'"
    using mv fl nf j by (auto simp: moved_def s'_def covers_def live_def min_def le_Suc_eq)
  ultimately show ?thesis using fl(1) by blast
qed

lemma move_all:
  assumes m: "2 \<le> m" "m < 32" "n < 2 ^ 32" and mv: "moved m n j l ks vs s" and j: "j \<le> n" and l: "l < 2 ^ m"
    and ks: "n \<le> length ks" "n \<le> length vs" "\<forall>i < l. \<exists>k. ks ! i = Some k"
  shows "\<exists>s'. rehash_loop key_hash (word_of_nat n) (2 ^ m - 1) (map word_of_nat [j..<n]) s = Some s' \<and> moved m n n l ks vs s'"
  using mv j
proof (induction "n - j" arbitrary: j s)
  case 0
  then show ?case by simp
next
  case (Suc d)
  have j: "j < n" "d = n - Suc j" using Suc.hyps(2) by simp_all
  have w: "unat (word_of_nat j :: u32) = j" using j(1) m(3) by (simp add: unat_of_nat)
  have c: "covers (oflags s) j" "live (oflags s) j \<longleftrightarrow> j < l" using Suc.prems(1) j(1) by (auto simp: moved_def)
  have arr: "rkeys s = ks" "rvals s = vs" using Suc.prems(1) by (simp_all add: moved_def)
  have list: "map word_of_nat [j..<n] = (word_of_nat j :: u32) # map word_of_nat [Suc j..<n]"
    using j(1) by (simp add: upt_conv_Cons)
  show ?case
  proof (cases "j < l")
    case False
    then have "moved m n (Suc j) l ks vs s" using Suc.prems(1) by (auto simp: moved_def min_def)
    then show ?thesis using Suc.hyps(1) [OF j(2)] j(1) False c w by (simp add: list)
  next
    case True
    then obtain key where key: "ks ! j = Some key" using ks(3) by blast
    have lens: "j < length ks" "j < length vs" "j < 2 ^ m" using j(1) ks(1,2) True l by simp_all
    obtain fl s2 where s2: "set_isdel_true (oflags s) (word_of_nat j) = Some fl"
      "kick key_hash (word_of_nat n) (2 ^ m - 1) key (vs ! j) (s\<lparr>oflags := fl\<rparr>) = Some s2" "moved m n (Suc j) l ks vs s2"
      using move_one [OF m Suc.prems(1) j(1) True lens(3,1,2) key refl refl] by blast
    then show ?thesis
      using Suc.hyps(1) [OF j(2) s2(3)] j(1) True c w key lens by (simp add: list fetch_set_def fetch_def arr)
  qed
qed

lemma moved_start:
  assumes l: "laid_out L h" and old: "old_table n h" and m: "2 \<le> m" "m < 32"
  shows "moved m n 0 (length L) (rkeys (rehash_start m h)) (rvals (rehash_start m h)) (rehash_start m h)" "length L \<le> n"
    "\<forall>i < length L. hkeys h ! i = Some (fst (L ! i)) \<and> hvals h ! i = Some (snd (L ! i))"
proof -
  have n: "n = unat (n_buckets h)" using old by (simp add: old_table_def)
  have live: "\<forall>i < n. live (hflags h) i \<longleftrightarrow> i < length L" and L: "length L \<le> n"
    using l by (auto simp: laid_out_def n kh_init_def laid_def live_def table_inv_def unat_exp)
  show "length L \<le> n" by (rule L)
  show "\<forall>i < length L. hkeys h ! i = Some (fst (L ! i)) \<and> hvals h ! i = Some (snd (L ! i))"
    using l by (auto simp: laid_out_def laid_def)
  have len: "length (empty_flags (2 ^ m)) = unat (ac_fsize (2 ^ m))" by (simp add: empty_flags_def)
  have "emp (empty_flags (2 ^ m)) i \<and> \<not> dl (empty_flags (2 ^ m)) i" if "i < 2 ^ m" for i
    using empty_flags [OF covers_table [OF m(2) len that]] .
  then show "moved m n 0 (length L) (rkeys (rehash_start m h)) (rvals (rehash_start m h)) (rehash_start m h)"
    using live len old by (simp add: moved_def rehash_start_def old_table_def)
qed

lemma resize_laid:
  assumes l: "laid_out L h" and full: "upper_bound h \<le> n_occupied h" and sz: "length L < 2 ^ 29"
  shows "\<exists>m h1. kh_resize key_hash h (grown_size h) = Some h1 \<and> laid m L h1 \<and> n_occupied h1 < upper_bound h1"
proof -
  have inv: "kh_inv key_hash h" using l by (auto simp: laid_out_def kh_inv_def laid_def)
  have ks: "unat (ksize h) = length L"
  proof (cases "h = kh_init")
    case True
    then have "L = []" using l not_laid_init by (auto simp: laid_out_def)
    then show ?thesis by (simp add: True kh_init_def)
  next
    case False
    then obtain m where "laid m L h" using l by (auto simp: laid_out_def)
    then have "lvs m (hflags h) = {..<length L}" "table_inv key_hash m h" by (rule laid_facts(1), simp add: laid_def)
    then show ?thesis by (simp add: table_inv_def)
  qed
  obtain m n where mn: "old_table n h" "2 \<le> m" "m < 32"
    "(if kroundup32 (grown_size h) < 4 then 4 else kroundup32 (grown_size h)) = 2 ^ m" "ksize h < hash_upper (2 ^ m)"
    using grow_target [OF inv full] ks sz by auto
  define ks vs where "ks = rkeys (rehash_start m h)" and "vs = rvals (rehash_start m h)"
  note start = moved_start [OF l mn(1-3), folded ks_def vs_def]
  note arrays = rehash_start_arrays [OF mn(1,3), folded ks_def vs_def]
  have room: "length L < 2 ^ m" using mn(5) hash_upper_less(2) [OF mn(2,3)] \<open>unat (ksize h) = length L\<close>
    by (simp add: word_less_nat_alt)
  have "n < 2 ^ 32" using mn(1) unat_less_32 [of "n_buckets h"] by (simp add: old_table_def)
  moreover have "\<forall>i < length L. \<exists>k. ks ! i = Some k" using start(2,3) arrays(2) by auto
  ultimately obtain s where s: "rehash_loop key_hash (word_of_nat n) (2 ^ m - 1) (map word_of_nat [0..<n]) (rehash_start m h) = Some s"
    "moved m n n (length L) ks vs s"
    using move_all [OF mn(2,3) _ start(1) _ room] arrays(1,3) by auto
  have run: "kh_resize key_hash h (grown_size h) = Some (rehash_end m s h)"
    using s(2) arrays(1,3) by (intro kh_resize_run [OF mn s(1)]) (simp_all add: moved_def)
  have "table_inv key_hash m (rehash_end m s h)" "n_occupied (rehash_end m s h) < upper_bound (rehash_end m s h)"
    using kh_resize_spec [OF mn, of key_hash] run by auto
  moreover have "laid m L (rehash_end m s h)" if "table_inv key_hash m (rehash_end m s h)"
    using that s(2) start(2,3) arrays(2,4) room by (auto simp: laid_def moved_def rehash_end_def)
  ultimately show ?thesis using run by blast
qed

lemma addReplace_laid:
  assumes l: "laid_out L h" and sz: "length L < 2 ^ 29"
  shows "\<exists>h'. table_addReplace key_hash k v h = Some (True, h') \<and> laid_out (addReplace k v L) h'"
proof (cases "map_of L k")
  case (Some d)
  then obtain m where "laid m L h" using l by (auto simp: laid_out_def)
  from replace_laid [OF this, of k v] Some show ?thesis by (auto simp: laid_out_def)
next
  case None
  have inv: "tw_inv key_hash h" using l laid_facts(3) by (auto simp: laid_out_def)
  have "map_of (entries h) k = None" using l None laid_map [of _ L h k] by (auto simp: laid_out_def)
  then have get: "kh_get key_hash h k = Some (n_buckets h)"
    by (cases rule: get_cases [OF inv, of k]) (auto simp: tmap_def)
  obtain r x h1 h2 m where "kh_put key_hash h k = Some (r, x, h1)" "set_value x v h1 = Some h2" "laid m (L @ [(k, v)]) h2"
  proof (cases "n_occupied h < upper_bound h")
    case True
    then obtain m where "laid m L h" using l by (auto simp: laid_out_def kh_init_def)
    from append_laid [OF this True None] that show thesis by blast
  next
    case False
    then have full: "upper_bound h \<le> n_occupied h" by simp
    obtain m h1 where h1: "kh_resize key_hash h (grown_size h) = Some h1" "laid m L h1" "n_occupied h1 < upper_bound h1"
      using resize_laid [OF l full sz] by blast
    from append_laid [OF h1(2,3) None, of v] kh_put_resized [OF full h1(1,3), of k] that show thesis by auto
  qed
  then show ?thesis using get addReplace_new [OF None] by (auto simp: table_addReplace_def laid_out_def)
qed

text \<open>The table after a list of registrations.\<close>

fun add_all :: "('k \<times> 'v) list \<Rightarrow> ('k, 'v) khash \<Rightarrow> ('k, 'v) khash option" where
  "add_all [] h = Some h"
| "add_all ((k, v) # xs) h = do { (b, h) \<leftarrow> table_addReplace key_hash k v h; add_all xs h }"

lemma addReplace_length: "length (addReplace k v L) \<le> length L + 1"
  by (induction L) auto

lemma add_all_laid:
  assumes "laid_out L h" "length L + length xs < 2 ^ 29"
  shows "\<exists>h'. add_all xs h = Some h' \<and> laid_out (fold (\<lambda>(k, v). addReplace k v) xs L) h'"
  using assms
proof (induction xs arbitrary: L h)
  case (Cons x xs)
  obtain k v where x: "x = (k, v)" by (cases x)
  obtain h1 where h1: "table_addReplace key_hash k v h = Some (True, h1)" "laid_out (addReplace k v L) h1"
    using addReplace_laid [OF Cons.prems(1), of k v] Cons.prems(2) by auto
  have "length (addReplace k v L) + length xs < 2 ^ 29" using Cons.prems(2) addReplace_length [of k v L] by simp
  from Cons.IH [OF h1(2) this] show ?case using h1(1) by (simp add: x)
qed simp

text \<open>C15 A table of the logger to which fewer than \<open>2 ^ 29\<close> entries are added or replaced is iterated in
  the order in which its keys came first, each with its last data: as the list that \<open>addReplace\<close>
  makes. The logger's targets and sinks, which it only adds, are such tables.\<close>

theorem table_is_insertion_ordered_list:
  assumes "length xs < 2 ^ 29"
  shows "\<exists>h i. add_all xs kh_init = Some h \<and> gotoStart h = Some i \<and>
    iterate h i = Some (fold (\<lambda>(k, v). addReplace k v) xs [])"
proof -
  have "laid_out [] (kh_init :: ('a, 'b) khash)" by (simp add: laid_out_def)
  then obtain h where h: "add_all xs kh_init = Some h" "laid_out (fold (\<lambda>(k, v). addReplace k v) xs []) h"
    using add_all_laid [of "[]" kh_init xs] assms by auto
  have "tw_inv key_hash h" using h(2) laid_facts(3) by (auto simp: laid_out_def)
  moreover have "map (\<lambda>(k, d). (k, the d)) (entries h) = fold (\<lambda>(k, v). addReplace k v) xs []"
    using h(2) laid_facts(2) [of _ "fold (\<lambda>(k, v). addReplace k v) xs []" h]
    by (auto simp: laid_out_def comp_def case_prod_beta)
  ultimately show ?thesis using iterate_table [of key_hash h] h(1) by auto
qed

lemma table_is_insertion_ordered_list_witness:
  "\<exists>h i. add_all [(7 :: u32, 1 :: nat), (3, 2), (7, 4)] kh_init = Some h \<and> gotoStart h = Some i \<and> iterate h i = Some [(7, 4), (3, 2)]"
  using table_is_insertion_ordered_list [of "[(7 :: u32, 1 :: nat), (3, 2), (7, 4)]"] by simp

end
