(* ===== verification/Calm.thy ===== *)
theory Calm
  imports CommandLoop
begin

text \<open>
  Which logs an operation of the targets can touch. The master buffers have the first
  \<open>PRIMARY_BUFFER_ENTRIES\<close> addresses of the heap; everything the overflow of a message
  allocates, puts in a chain, counts and frees lies behind them.
\<close>

section \<open>Addresses behind the master buffers\<close>

abbreviation (input) N_MASTERS :: nat where "N_MASTERS \<equiv> PRIMARY_BUFFER_ENTRIES"

definition high_chain :: "overflowWriteOut \<Rightarrow> bool" where
  "high_chain w \<longleftrightarrow> (\<forall>a. Some a \<in> set (ovbufs w) \<longrightarrow> N_MASTERS \<le> a)"

definition high_data :: "writeCBData \<Rightarrow> bool" where
  "high_data d \<longleftrightarrow> (\<forall>w. woverflow d = Some w \<longrightarrow> high_chain w)"

definition high_cmd :: "internalCmdReq \<Rightarrow> bool" where
  "high_cmd c \<longleftrightarrow> (\<forall>a. icmd c = WRITE_TARGET_OVERFLOW \<longrightarrow> icmd_aux c = Some a \<longrightarrow> N_MASTERS \<le> a)"

definition high_owner :: "'z owner_scheme \<Rightarrow> bool" where
  "high_owner ow \<longleftrightarrow> N_MASTERS \<le> nextLog ow \<and>
     circular_inv (v8LogCallbacks ow) \<and> (\<forall>d \<in> set (items (v8LogCallbacks ow)). high_data d) \<and>
     circular_inv (internalCmdQueue ow) \<and> (\<forall>c \<in> set (items (internalCmdQueue ow)). high_cmd c)"

definition high_target :: "logTarget \<Rightarrow> bool" where
  "high_target t \<longleftrightarrow> (\<forall>w \<in> set (ovInflight t). high_chain w)"

definition low_same :: "'z owner_scheme \<Rightarrow> 'z owner_scheme \<Rightarrow> bool" where
  "low_same ow ow' \<longleftrightarrow> (\<forall>a < N_MASTERS. logs ow' a = logs ow a) \<and>
     masterBufferAvail ow' = masterBufferAvail ow \<and> bufferSize ow' = bufferSize ow"

text \<open>An operation on the owner, and one on the owner and a target, that keep to the addresses
  behind the master buffers.\<close>

definition calm :: "'z owner_scheme \<Rightarrow> 'z owner_scheme \<Rightarrow> bool" where
  "calm ow ow' \<longleftrightarrow> (high_owner ow \<longrightarrow> high_owner ow' \<and> low_same ow ow')"

definition calm_target :: "'z owner_scheme \<Rightarrow> logTarget \<Rightarrow> 'z owner_scheme \<Rightarrow> logTarget \<Rightarrow> bool" where
  "calm_target ow t ow' t' \<longleftrightarrow>
     (high_owner ow \<longrightarrow> high_target t \<longrightarrow> high_owner ow' \<and> high_target t' \<and> low_same ow ow')"

lemma calm_refl [simp]: "calm ow ow"
  by (simp add: calm_def low_same_def)

lemma calm_trans: "calm a b \<Longrightarrow> calm b c \<Longrightarrow> calm a c"
  by (auto simp: calm_def low_same_def)

lemma calm_high: "calm ow ow' \<Longrightarrow> high_owner ow \<Longrightarrow> high_owner ow'"
  by (simp add: calm_def)

lemma calm_targetI: "calm ow ow' \<Longrightarrow> ovInflight t' = ovInflight t \<Longrightarrow> calm_target ow t ow' t'"
  by (simp add: calm_target_def calm_def high_target_def)

lemma calm_target_trans: "calm_target a t b u \<Longrightarrow> calm_target b u c v \<Longrightarrow> calm_target a t c v"
  by (auto simp: calm_target_def low_same_def)

lemma calm_then: "calm ow ow1 \<Longrightarrow> calm_target ow1 t ow' t' \<Longrightarrow> calm_target ow t ow' t'"
  by (auto simp: calm_target_def calm_def low_same_def)

lemma calm_target_same: "calm_target ow t ow' t' \<Longrightarrow> ovInflight t = ovInflight t0 \<Longrightarrow> calm_target ow t0 ow' t'"
  by (simp add: calm_target_def high_target_def)

lemma calm_targetH: "(high_target t \<Longrightarrow> calm_target ow t ow' t') \<Longrightarrow> calm_target ow t ow' t'"
  by (auto simp: calm_target_def)

named_theorems calms \<open>operations that keep to the addresses behind the master buffers\<close>

section \<open>Operations on the owner\<close>

lemma calm_simps [simp]:
  "calm ow (uv_async_send h ow1) = calm ow ow1" "calm ow (refGreaseInGrease ow1) = calm ow ow1"
  "calm ow (refFromV8 ow1) = calm ow ow1" "calm ow (stopFlushTimer ow1) = calm ow ow1"
  "calm ow (ow1\<lparr>header_buffer := hb, footer_buffer := fb\<rparr>) = calm ow ow1"
  by (simp_all add: calm_def high_owner_def low_same_def uv_async_send_def refGreaseInGrease_def startFlushTimer_def
      stopFlushTimer_def refFromV8_def Let_def)

lemma calm_unref [calms]: "unrefGreaseInGrease ow = Inr ow' \<Longrightarrow> calm ow ow'"
  by (auto simp: unrefGreaseInGrease_def calm_def high_owner_def low_same_def stopFlushTimer_def Let_def split: if_splits)

lemma calm_unref_V8 [calms]: "unrefFromV8_inV8 ow = Inr ow' \<Longrightarrow> calm ow ow'"
  by (auto simp: unrefFromV8_inV8_def calm_def high_owner_def low_same_def Let_def split: if_splits)

lemma decRef_all_low:
  "decRef_all ls mem = Inr mem' \<Longrightarrow> (\<forall>a. Some a \<in> set ls \<longrightarrow> N_MASTERS \<le> a) \<Longrightarrow> b < N_MASTERS \<Longrightarrow> mem' b = mem b"
proof (induction ls mem rule: decRef_all.induct)
  case (3 a ls mem)
  then obtain l where l: "deref mem a = Inr l" "decRef_all ls (mem(a := decRef l)) = Inr mem'" by (auto simp: bindR_eq_Inr)
  have "mem' b = (mem(a := decRef l)) b" using 3(3,4) by (intro 3(1) [OF l(1,2)]) auto
  then show ?case using 3(3,4) by auto
qed auto

lemma calm_delete_overflow [calms]: "delete_overflow w ow = Inr ow' \<Longrightarrow> high_chain w \<Longrightarrow> calm ow ow'"
  by (auto simp: delete_overflow_def overflow_delete_def bindR_eq_Inr calm_def high_owner_def low_same_def high_chain_def
      dest: decRef_all_low)

lemma calm_delete_data [calms]: "writeCBData_delete d ow = Inr ow' \<Longrightarrow> high_data d \<Longrightarrow> calm ow ow'"
  by (auto simp: writeCBData_delete_def high_data_def dest: calm_delete_overflow split: option.splits)

lemma calm_put_callback:
  assumes "tw_addMvIfRoom writeCBData_moved d (v8LogCallbacks ow) = (r, d', q)" "high_data d"
  shows "calm ow (ow\<lparr>v8LogCallbacks := q\<rparr>)" "high_data d'"
proof -
  obtain b where run: "tw_addIfRoom d (v8LogCallbacks ow) = (b, q)" "d' = (if b then writeCBData_moved d else d)"
    using assms(1) by (auto simp: tw_addMvIfRoom_eq Let_def split: prod.splits)
  show "calm ow (ow\<lparr>v8LogCallbacks := q\<rparr>)"
    using tw_addIfRoom_spec [OF _ run(1)] assms(2) by (auto simp: calm_def high_owner_def low_same_def)
  show "high_data d'" using assms(2) run(2) by (simp add: high_data_def writeCBData_moved_def)
qed

lemma calm_put_cmd:
  assumes "tw_addMvIfRoom internalCmdReq_moved c (internalCmdQueue ow) = (k, d, q)" "high_cmd c"
  shows "calm ow (ow\<lparr>internalCmdQueue := q\<rparr>)"
proof -
  have run: "tw_addIfRoom c (internalCmdQueue ow) = (k, q)"
    using assms(1) by (auto simp: tw_addMvIfRoom_eq Let_def split: prod.splits)
  show ?thesis using tw_addIfRoom_spec [OF _ run] assms(2) by (auto simp: calm_def high_owner_def low_same_def)
qed

lemma calm_new_log [calms]: "new_log l ow = (a, ow') \<Longrightarrow> calm ow ow'"
  by (auto simp: new_log_def calm_def high_owner_def low_same_def)

lemma calm_delete_log: "N_MASTERS \<le> a \<Longrightarrow> calm ow (delete_log a ow)"
  by (auto simp: delete_log_def calm_def high_owner_def low_same_def)

lemma new_log_high: "new_log l ow = (a, ow') \<Longrightarrow> high_owner ow \<Longrightarrow> N_MASTERS \<le> a"
  by (auto simp: new_log_def high_owner_def)

lemma calmI: "(high_owner ow \<Longrightarrow> calm ow ow') \<Longrightarrow> calm ow ow'"
  by (auto simp: calm_def)

lemma addBuffer_high: "addBuffer a w = Inr w' \<Longrightarrow> N_MASTERS \<le> a \<Longrightarrow> high_chain w \<Longrightarrow> high_chain w'"
  using set_update_subset_insert [of "ovbufs w" "ovN w" "Some a"]
  by (auto simp: addBuffer_def high_chain_def split: if_splits)

lemma calm_add_or_delete [calms]:
  assumes "add_or_delete k l w ow = Inr (w', ow')"
  shows "calm ow ow'" "high_owner ow \<Longrightarrow> high_chain w \<Longrightarrow> high_chain w'"
proof -
  obtain a ow1 where n: "new_log l ow = (a, ow1)" by (cases "new_log l ow")
  have c: "calm ow ow1" by (rule calm_new_log [OF n])
  show "calm ow ow'"
  proof (rule calmI)
    assume "high_owner ow"
    then have "calm ow1 (delete_log a ow1)" by (intro calm_delete_log new_log_high [OF n])
    then show "calm ow ow'"
      using assms c calm_trans [OF c] by (auto simp: add_or_delete_def n bindR_eq_Inr split: if_splits)
  qed
  assume "high_owner ow" "high_chain w"
  then show "high_chain w'"
    using assms new_log_high [OF n] addBuffer_high by (auto simp: add_or_delete_def n bindR_eq_Inr split: if_splits)
qed

section \<open>Operations on a target\<close>

lemma calm_doV8Callback [calms]:
  "doV8Callback d ow t = Inr (ow', t') \<Longrightarrow> high_data d \<Longrightarrow> calm_target ow t ow' t'"
  by (auto simp: doV8Callback_def bindR_eq_Inr finalizeV8Callback_def clear_bank_def Let_def high_data_def
      intro!: calm_targetI dest: calm_delete_overflow split: option.splits)

lemma high_data_new [simp]: "high_data (writeCBData_new ta b)" "high_data writeCBData_empty"
  "high_data (newAsOverflow ta w) = high_chain w"
  by (simp_all add: high_data_def writeCBData_new_def writeCBData_empty_def newAsOverflow_def)

lemma give_back_ovInflight: "give_back b t = Inr t' \<Longrightarrow> ovInflight t' = ovInflight t"
  by (auto simp: give_back_def bindR_eq_Inr clear_bank_def Let_def)

lemma calm_returnBuffer [calms]:
  assumes "returnBuffer ta b sync nocb ow t = Inr (ow', t')"
  shows "calm_target ow t ow' t'"
proof -
  from assms obtain ow1 where 1: "(if \<not> logBuf_isEmpty (bank t b) then unrefGreaseInGrease ow else Inr ow) = Inr ow1"
    by (auto simp: returnBuffer_def bindR_eq_Inr Let_def)
  then have "calm ow ow1" by (auto split: if_splits dest: calm_unref)
  moreover obtain r d q where q: "tw_addMvIfRoom writeCBData_moved (writeCBData_new ta b) (v8LogCallbacks ow1) = (r, d, q)"
    by (cases "tw_addMvIfRoom writeCBData_moved (writeCBData_new ta b) (v8LogCallbacks ow1)")
  then have "calm ow1 (ow1\<lparr>v8LogCallbacks := q\<rparr>)" by (rule calm_put_callback) simp
  then have "calm_target ow1 t ow' t'"
    using assms 1 q by (auto simp: returnBuffer_def bindR_eq_Inr Let_def
        split: if_splits bool.splits dest: calm_doV8Callback give_back_ovInflight intro: calm_targetI)
  ultimately show ?thesis by (auto intro: calm_then)
qed

lemma calm_returnBuffer_overflow [calms]:
  assumes run: "returnBuffer_overflow ta w sync nocb ow t = Inr (ow', t')" and w: "high_chain w"
  shows "calm_target ow t ow' t'"
proof -
  from run obtain ow1 where 1: "unrefGreaseInGrease ow = Inr ow1"
    by (auto simp: returnBuffer_overflow_def bindR_eq_Inr)
  obtain r d q where q: "tw_addMvIfRoom writeCBData_moved (newAsOverflow ta w) (v8LogCallbacks ow1) = (r, d, q)"
    by (cases "tw_addMvIfRoom writeCBData_moved (newAsOverflow ta w) (v8LogCallbacks ow1)")
  have c: "calm ow1 (ow1\<lparr>v8LogCallbacks := q\<rparr>)" "high_data d" using calm_put_callback [OF q] w by simp_all
  show ?thesis
  proof (cases "\<not> nocb \<and> logCallbackSet t")
    case True
    have "calm_target (ow1\<lparr>v8LogCallbacks := q\<rparr>) t ow' t'"
    proof (cases sync)
      case False
      then have "writeCBData_delete d (uv_async_send asyncV8LogCallback (refFromV8 (ow1\<lparr>v8LogCallbacks := q\<rparr>))) = Inr ow'" "t' = t"
        using run True by (auto simp: returnBuffer_overflow_def 1 q bindR_eq_Inr Let_def)
      from calm_delete_data [OF this(1) c(2)] this(2) show ?thesis
        by (auto intro!: calm_targetI elim: calm_trans [rotated])
    qed (use run True calm_doV8Callback [OF _ c(2)] in \<open>auto simp: returnBuffer_overflow_def 1 q bindR_eq_Inr Let_def\<close>)
    then show ?thesis
      using calm_unref [OF 1] c(1) by (auto intro: calm_then)
  next
    case False
    then have "delete_overflow w ow1 = Inr ow'" "t' = t"
      using run by (auto simp: returnBuffer_overflow_def 1 bindR_eq_Inr split: if_splits)
    then show ?thesis
      using calm_unref [OF 1] calm_delete_overflow [OF _ w] by (auto intro: calm_targetI calm_trans)
  qed
qed

lemma device_ovInflight [simp]:
  "ovInflight (put_out s t) = ovInflight t" "ovInflight (file_upd u t) = ovInflight t"
  by (simp_all add: put_out_def file_upd_def split: targetKind.split)

lemma file_check_ovInflight: "file_check sz t = Inr t' \<Longrightarrow> ovInflight t' = ovInflight t"
  by (auto simp: file_check_def bindR_eq_Inr split: targetKind.splits)

lemma calm_flush_bank [calms]: "flush_bank ta b nocb ow t = Inr (ow', t') \<Longrightarrow> calm_target ow t ow' t'"
  by (auto simp: flush_bank_def Let_def intro: calm_targetI dest: calm_returnBuffer split: targetKind.splits)

lemma calm_flushSync_bank [calms]: "flushSync_bank ta b nocb ow t = Inr (ow', t') \<Longrightarrow> calm_target ow t ow' t'"
  by (auto simp: flushSync_bank_def bindR_eq_Inr dest!: file_check_ovInflight intro: calm_target_same dest: calm_returnBuffer
      split: targetKind.splits)

lemma calm_write_cb [calms]: "write_cb ta i ow t = Inr (ow', t') \<Longrightarrow> calm_target ow t ow' t'"
  by (auto simp: write_cb_def bindR_eq_Inr dest!: file_check_ovInflight intro: calm_target_same calm_targetI dest: calm_returnBuffer
      split: if_splits prod.splits)

lemma calm_write_overflow_cb [calms]: "write_overflow_cb ta ow t = Inr (ow', t') \<Longrightarrow> calm_target ow t ow' t'"
proof (cases "ovInflight t")
  case (Cons w ws)
  assume "write_overflow_cb ta ow t = Inr (ow', t')"
  then have "returnBuffer_overflow ta w False False ow (t\<lparr>ovInflight := ws\<rparr>) = Inr (ow', t')"
    by (simp add: write_overflow_cb_def Cons)
  then have "high_chain w \<Longrightarrow> calm_target ow (t\<lparr>ovInflight := ws\<rparr>) ow' t'" by (intro calm_returnBuffer_overflow)
  then show ?thesis by (auto simp: calm_target_def high_target_def Cons)
qed (auto simp: write_overflow_cb_def intro: calm_targetI)


lemma calm_base: "calm_target ow t ow (t\<lparr>writeOutBuffers := q\<rparr>)"
  by (simp add: calm_targetI)

lemma calm_rotate_bank: "calm_target ow (snd (rotate_bank t)) ow' t' \<Longrightarrow> calm_target ow t ow' t'"
  by (erule calm_target_same) (auto simp: rotate_bank_def clear_bank_def split: option.split prod.split bool.split)

lemma calm_drain [calms]: "drain ta nocb ow t = Inr (ow', t') \<Longrightarrow> calm_target ow t ow' t'"
  by (rule drain_rel [where T = calm_target, OF calm_target_trans calm_base calm_flush_bank])

lemma calm_drainSync [calms]: "drainSync ta nocb ow t = Inr (ow', t') \<Longrightarrow> calm_target ow t ow' t'"
  by (rule drainSync_rel [where T = calm_target, OF calm_target_trans calm_base calm_flushSync_bank])

lemma calm_flushAll [calms]: "flushAll_target ta rot nocb ow t = Inr (ow', t') \<Longrightarrow> calm_target ow t ow' t'"
  by (auto simp: flushAll_target_def intro: calm_rotate_bank calm_drain split: if_splits)

lemma calm_flushAllSync [calms]: "flushAllSync_target ta rot nocb ow t = Inr (ow', t') \<Longrightarrow> calm_target ow t ow' t'"
  by (auto simp: flushAllSync_target_def intro: calm_rotate_bank calm_drainSync split: if_splits)

lemma calm_writeAsyncOverflow [calms]:
  assumes run: "writeAsyncOverflow ta got w nocb ow t = Inr (ow', t')" and w: "high_chain w"
  shows "calm_target ow t ow' t'"
proof (cases "tkind t")
  case TTY
  then have "ow' = ow" "ovInflight t' = ovInflight t @ [w]"
    using run by (auto simp: writeAsyncOverflow_def bindR_eq_Inr)
  then show ?thesis using w by (auto simp: calm_target_def high_target_def low_same_def)
next
  case (FILE f)
  then obtain t1 where "returnBuffer_overflow ta w False nocb ow t1 = Inr (ow', t')" "ovInflight t1 = ovInflight t"
    using run by (auto simp: writeAsyncOverflow_def bindR_eq_Inr Let_def dest: file_check_ovInflight split: if_splits)
  then show ?thesis using calm_returnBuffer_overflow [OF _ w] calm_target_same by blast
next
  case CALLBACK
  obtain r d q where q: "tw_addMvIfRoom writeCBData_moved (newAsOverflow ta w) (v8LogCallbacks ow) = (r, d, q)"
    by (cases "tw_addMvIfRoom writeCBData_moved (newAsOverflow ta w) (v8LogCallbacks ow)")
  have c: "calm ow (ow\<lparr>v8LogCallbacks := q\<rparr>)" "high_data d" using calm_put_callback [OF q] w by simp_all
  have "t' = t" "delete_overflow w ow = Inr ow' \<or> ow' = ow \<or>
      writeCBData_delete d (uv_async_send asyncV8LogCallback (ow\<lparr>v8LogCallbacks := q\<rparr>)) = Inr ow'"
    using run CALLBACK by (auto simp: writeAsyncOverflow_def q bindR_eq_Inr Let_def split: if_splits)
  moreover have "calm ow (uv_async_send asyncV8LogCallback (ow\<lparr>v8LogCallbacks := q\<rparr>))" using c(1) by simp
  ultimately show ?thesis
    using calm_delete_overflow [OF _ w] calm_delete_data [OF _ c(2)] calm_trans calm_refl by (metis calm_targetI)
qed

lemma calm_writeOverflow [calms]:
  assumes run: "writeOverflow ta got clk a fil ow t = Inr (ow', t')" and a: "N_MASTERS \<le> a"
  shows "calm_target ow t ow' t'"
proof (cases "tdisabled t")
  case True
  with run show ?thesis by (simp add: writeOverflow_def calm_targetI)
next
  case False
  with run obtain k1 l1 w1 ow1 w2 k3 l3 w3 ow3 k4 l4 w4 ow4 where
    adds: "add_or_delete k1 l1 overflow_new ow = Inr (w1, ow1)" "addBuffer a w1 = Inr w2"
    "add_or_delete k3 l3 w2 ow1 = Inr (w3, ow3)" "add_or_delete k4 l4 w3 ow3 = Inr (w4, ow4)"
    and last: "writeAsyncOverflow ta got w4 False (refGreaseInGrease ow4) t = Inr (ow', t')"
    by (auto simp: writeOverflow_def bindR_eq_Inr Let_def)
  have c: "calm ow ow1" "calm ow1 ow3" "calm ow3 ow4" using adds calm_add_or_delete(1) by blast+
  show ?thesis
    unfolding calm_target_def
  proof (intro impI)
    assume h: "high_owner ow" and ht: "high_target t"
    then have hs: "high_owner ow1" "high_owner ow3" "high_owner ow4" using c calm_high by blast+
    have "high_chain overflow_new" by (simp add: high_chain_def overflow_new_def)
    then have "high_chain w4"
      using calm_add_or_delete(2) [OF adds(1) h] addBuffer_high [OF adds(2) a] calm_add_or_delete(2) [OF adds(3) hs(1)]
        calm_add_or_delete(2) [OF adds(4) hs(2)] by blast
    from calm_writeAsyncOverflow [OF last this] have "calm_target (refGreaseInGrease ow4) t ow' t'" .
    moreover have "calm ow (refGreaseInGrease ow4)" using c by (auto intro: calm_trans)
    ultimately show "high_owner ow' \<and> high_target t' \<and> low_same ow ow'"
      using calm_then h ht unfolding calm_target_def by blast
  qed
qed


lemma set_bank_ovInflight: "copy_line hb lh s len fb lf t = Inr t' \<Longrightarrow> ovInflight t' = ovInflight t"
  by (auto dest!: copy_line_set)

lemma rotate_bank_ovInflight: "rotate_bank t = (r, t') \<Longrightarrow> ovInflight t' = ovInflight t"
  by (auto simp: rotate_bank_def clear_bank_def split: option.splits prod.splits bool.splits if_splits)

lemma calm_write [calms]:
  assumes run: "write_target clk s len m fil ow t = Inr (ow', t')"
  shows "calm_target ow t ow' t'"
  using run
proof (cases rule: write_target_cases)
  case (queued B a ow1 d q)
  have "calm ow (ow1\<lparr>internalCmdQueue := q\<rparr>)"
  proof (rule calmI)
    assume "high_owner ow"
    then have "high_cmd ((internalCmdReq_new WRITE_TARGET_OVERFLOW (myId t))\<lparr>icmd_aux := Some a\<rparr>)"
      using new_log_high [OF queued(2)] by (simp add: high_cmd_def)
    then show "calm ow (ow1\<lparr>internalCmdQueue := q\<rparr>)"
      using calm_trans [OF calm_new_log [OF queued(2)]] calm_put_cmd [OF queued(3)] by blast
  qed
  then show ?thesis by (simp add: queued(4,5) calm_targetI)
next
  case (lost B a ow1)
  have "calm ow (delete_log a ow1)"
  proof (rule calmI)
    assume "high_owner ow"
    then show "calm ow (delete_log a ow1)"
      using calm_trans [OF calm_new_log [OF lost(2)] calm_delete_log] new_log_high [OF lost(2)] by blast
  qed
  then show ?thesis by (simp add: lost(3,4) calm_targetI)
next
  case (rotated lh hb lf fb t1 d q)
  have "calm ow (ow\<lparr>internalCmdQueue := q\<rparr>)"
    by (rule calm_put_cmd [OF rotated(2)]) (simp add: high_cmd_def internalCmdReq_new_def)
  then have "calm ow ow'" unfolding rotated(4)
    by (simp add: calm_def high_owner_def low_same_def uv_async_send_def refGreaseInGrease_def startFlushTimer_def Let_def)
  then show ?thesis
    using rotate_bank_ovInflight [OF rotated(1)] set_bank_ovInflight [OF rotated(3)] by (simp add: calm_targetI)
qed (auto intro!: calm_targetI dest: rotate_bank_ovInflight set_bank_ovInflight)

section \<open>From one target to the logger\<close>

definition high :: "'z logger_scheme \<Rightarrow> bool" where
  "high st \<longleftrightarrow> high_owner st \<and> (\<forall>a t. tgts st a = Some t \<longrightarrow> high_target t)"

definition quiet :: "'z logger_scheme \<Rightarrow> 'z logger_scheme \<Rightarrow> bool" where
  "quiet st st' \<longleftrightarrow> (high st \<longrightarrow> high st' \<and> low_same st st')"


lemma quiet_refl [simp]: "quiet st st"
  by (simp add: quiet_def low_same_def)

lemma quiet_trans: "quiet a b \<Longrightarrow> quiet b c \<Longrightarrow> quiet a c"
  by (auto simp: quiet_def low_same_def)

interpretation quiet: run_effect "quiet :: 'z logger_scheme \<Rightarrow> 'z logger_scheme \<Rightarrow> bool"
  by unfold_locales (auto intro: quiet_trans)

text \<open>An operation on the owner does not reach the targets.\<close>

lemma quiet_calm: "calm st st' \<Longrightarrow> tgts st' = tgts st \<Longrightarrow> quiet st st'"
  by (simp add: quiet_def high_def calm_def)

lemma quiet_with_target:
  assumes op: "\<And>t st' t'. g st t = Inr (st', t') \<Longrightarrow> calm_target st t st' t' \<and> tgts st' = tgts st"
    and run: "with_target a g st = Inr st'"
  shows "quiet st st'"
proof -
  obtain t st1 t1 where t: "tgts st a = Some t" "g st t = Inr (st1, t1)" "st' = st1\<lparr>tgts := (tgts st1)(a \<mapsto> t1)\<rparr>"
    using run by (auto simp: with_target_def bindR_eq_Inr deref_def split: option.splits)
  note c = op [OF t(2)]
  have o: "high_owner (st1\<lparr>tgts := (tgts st1)(a \<mapsto> t1)\<rparr>) = high_owner st1"
    "low_same st (st1\<lparr>tgts := (tgts st1)(a \<mapsto> t1)\<rparr>) = low_same st st1"
    by (simp_all add: high_owner_def low_same_def)
  show ?thesis
    using c t(1) unfolding quiet_def high_def calm_target_def t(3) o by (auto split: if_splits)
qed

text \<open>\<open>owner.more\<close> holds the targets, and no operation of a target reaches it.\<close>

lemma frame_tgts: "owner_frame st st' \<Longrightarrow> tgts st' = tgts (st :: 'z logger_scheme)"
  by (rule owner_frame_tables(2))


lemma flushSync_bank_frame [frames]: "flushSync_bank ta b nocb ow t = Inr (ow', t') \<Longrightarrow> owner_frame ow ow'"
  by (auto simp: flushSync_bank_def bindR_eq_Inr dest: returnBuffer_frame split: targetKind.splits)

lemma drainSync_frame [frames]: "drainSync ta nocb ow t = Inr (ow', t') \<Longrightarrow> owner_frame ow ow'"
  by (rule drainSync_rel [where T = "\<lambda>a t b u. owner_frame a b"]) (auto intro: owner_frame_trans flushSync_bank_frame)

lemma flushAllSync_target_frame [frames]: "flushAllSync_target ta rot nocb ow t = Inr (ow', t') \<Longrightarrow> owner_frame ow ow'"
  by (auto simp: flushAllSync_target_def dest: drainSync_frame)

lemma write_cb_frames [frames]:
  "write_cb ta i ow t = Inr (ow', t') \<Longrightarrow> owner_frame ow ow'"
  "write_overflow_cb ta ow t = Inr (ow', t') \<Longrightarrow> owner_frame ow ow'"
  by (auto simp: write_cb_def write_overflow_cb_def bindR_eq_Inr dest: returnBuffer_frame returnBuffer_overflow_frame
      split: if_splits prod.splits list.splits)

section \<open>Handlers\<close>

lemma quiet_completions:
  "with_target a (write_cb a i) st = Inr st' \<Longrightarrow> quiet st st'"
  "with_target a (write_overflow_cb a) st = Inr st' \<Longrightarrow> quiet st st'"
  "with_target a (flushAll_target a rot nocb) st = Inr st' \<Longrightarrow> quiet st st'"
  "with_target a (flushAllSync_target a rot nocb) st = Inr st' \<Longrightarrow> quiet st st'"
  "with_target a (write_target clk s len m fil) st = Inr st' \<Longrightarrow> quiet st st'"
  "with_target a (writeOverflow a got clk la fil) st = Inr st' \<Longrightarrow> N_MASTERS \<le> la \<Longrightarrow> quiet st st'"
  by (erule quiet_with_target [rotated], fastforce dest: calms frames intro: frame_tgts)+

lemma quiet_log_refs:
  "N_MASTERS \<le> a \<Longrightarrow> log_incRef a st = Inr st' \<Longrightarrow> quiet st st'"
  "N_MASTERS \<le> a \<Longrightarrow> log_decRef a st = Inr st' \<Longrightarrow> quiet st st'"
  "N_MASTERS \<le> a \<Longrightarrow> upd_log a u st = Inr st' \<Longrightarrow> quiet st st'"
  by (auto simp: log_incRef_def log_decRef_def upd_log_def bindR_eq_Inr intro!: quiet_calm)
    (auto simp: calm_def high_owner_def low_same_def)

lemma quiet_emit_write: "emit_write clk la e a f st = Inr st' \<Longrightarrow> quiet st st'"
  by (auto simp: emit_write_def bindR_eq_Inr dest: quiet_completions(5))

lemma quiet_emit_overflow:
  assumes "emit_overflow clk got la a f st = Inr st'" and la: "N_MASTERS \<le> la"
  shows "quiet st st'"
proof -
  obtain s1 s2 where "with_target a (flushAll_target a True False) st = Inr s1" "log_incRef la s1 = Inr s2"
    "with_target a (writeOverflow a got clk la (Some f)) s2 = Inr st'"
    using assms(1) by (auto simp: emit_overflow_def bindR_eq_Inr)
  then show ?thesis
    using quiet_completions(3,6) quiet_log_refs(1) la quiet_trans by meson
qed

interpretation quiet_flush: flush_effect "quiet :: 'z logger_scheme \<Rightarrow> 'z logger_scheme \<Rightarrow> bool"
  by unfold_locales (erule quiet_completions(3), erule quiet_completions(4),
    simp add: quiet_def high_def high_owner_def low_same_def stopFlushTimer_def)

lemma quiet_OVERFLOW: "handle_OVERFLOW clk got la st = Inr st' \<Longrightarrow> N_MASTERS \<le> la \<Longrightarrow> quiet st st'"
  by (rule quiet.OVERFLOW_effect [OF quiet_emit_overflow quiet_log_refs(3) quiet_log_refs(2)])

section \<open>The V8 thread\<close>

lemma call_one_parts:
  assumes run: "call_one d st = Inr (d', st')"
  obtains a s and t :: logTarget where "(if logCallback t \<noteq> None then with_target a (doV8Callback d) st else Inr st) = Inr s"
    "d' = (if logCallback t \<noteq> None then d\<lparr>woverflow := None\<rparr> else d)" "unrefFromV8_inV8 s = Inr st'"
proof -
  obtain a t where a: "wt d = Some a" "deref (tgts st) a = Inr t"
    using run by (auto simp: call_one_def bindR_eq_Inr split: option.splits)
  obtain s where s: "(if logCallback t \<noteq> None then with_target a (doV8Callback d) st else Inr st) = Inr s"
      "d' = (if logCallback t \<noteq> None then d\<lparr>woverflow := None\<rparr> else d)" "unrefFromV8_inV8 s = Inr st'"
    using run a by (auto simp: call_one_def bindR_eq_Inr split: if_splits)
  then show thesis by (rule that)
qed

lemma quiet_call_one:
  assumes run: "call_one d st = Inr (d', st')" and d: "high_data d"
  shows "quiet st st' \<and> high_data d'"
proof -
  obtain a s and t :: logTarget where s: "(if logCallback t \<noteq> None then with_target a (doV8Callback d) st else Inr st) = Inr s"
      "d' = (if logCallback t \<noteq> None then d\<lparr>woverflow := None\<rparr> else d)" "unrefFromV8_inV8 s = Inr st'"
    by (rule call_one_parts [OF run])
  have "quiet st s"
    using s(1) by (auto split: if_splits elim!: quiet_with_target [rotated] intro: frame_tgts dest: calm_doV8Callback [OF _ d] doV8Callback_frame)
  moreover have "tgts st' = tgts s" using s(3) by (auto simp: unrefFromV8_inV8_def Let_def split: if_splits)
  then have "quiet s st'" by (rule quiet_calm [OF calm_unref_V8 [OF s(3)]])
  moreover have "high_data d'" using d s(2) by (auto simp: high_data_def)
  ultimately show ?thesis using quiet_trans by blast
qed

lemma quiet_take_callback:
  assumes "tw_removeMv writeCBData_moved (v8LogCallbacks st) = (x, q)"
  shows "quiet st (st\<lparr>v8LogCallbacks := q\<rparr>)" "high st \<Longrightarrow> x = Some d \<Longrightarrow> high_data d"
  using tw_removeMv_spec [OF _ assms]
  by (auto simp: quiet_def high_def high_owner_def low_same_def split: list.splits)

lemma quiet_v8_loop: "v8_loop data st = Inr st' \<Longrightarrow> high_data data \<Longrightarrow> quiet st st'"
proof (induction data st rule: v8_loop.induct)
  case (1 data st)
  obtain x q where rm: "tw_removeMv writeCBData_moved (v8LogCallbacks st) = (x, q)"
    by (cases "tw_removeMv writeCBData_moved (v8LogCallbacks st)")
  note T = quiet_take_callback [OF rm]
  show ?case
  proof (cases x)
    case None
    then have del: "writeCBData_delete data (st\<lparr>v8LogCallbacks := q\<rparr>) = Inr st'"
      using 1(2) rm by (subst (asm) v8_loop.simps) simp
    have "tgts st' = tgts (st\<lparr>v8LogCallbacks := q\<rparr>)" by (rule frame_tgts [OF writeCBData_delete_frame [OF del]])
    then show ?thesis
      using quiet_trans [OF T(1) quiet_calm [OF calm_delete_data [OF del 1(3)]]] by simp
  next
    case (Some d)
    obtain d' s where one: "call_one d (st\<lparr>v8LogCallbacks := q\<rparr>) = Inr (d', s)" and rest: "v8_loop d' s = Inr st'"
      using 1(2) rm Some by (subst (asm) v8_loop.simps) (auto simp: bindR_eq_Inr)
    show ?thesis
    proof (cases "high st")
      case True
      then have "high_data d" using T(2) Some by blast
      from quiet_call_one [OF one this] have "quiet (st\<lparr>v8LogCallbacks := q\<rparr>) s" "high_data d'" by simp_all
      then show ?thesis
        using 1(1) [OF rm [symmetric] Some one refl rest] T(1) quiet_trans by blast
    qed (simp add: quiet_def)
  qed
qed

lemma quiet_V8: "callV8LogCallbacks st = Inr st' \<Longrightarrow> quiet st st'"
  unfolding callV8LogCallbacks_def by (erule quiet_v8_loop) simp

end
