(* ===== verification/SetUp.thy ===== *)
theory SetUp
  imports Calm Targets
begin

text \<open>
  The methods that set up a logger (targets, sinks, filters, labels, the start and its reports):
  what they leave alone. None of them touches a log, a buffer or a queue of commands.
\<close>

section \<open>Set-up leaves queues and logs alone\<close>

text \<open>Nothing that holds messages, banks or targets changes.\<close>

definition same_core :: "'z logger_scheme \<Rightarrow> 'z logger_scheme \<Rightarrow> bool" where
  "same_core st st' \<longleftrightarrow> logs st' = logs st \<and> nextLog st' = nextLog st \<and> internalCmdQueue st' = internalCmdQueue st \<and>
     v8LogCallbacks st' = v8LogCallbacks st \<and> masterBufferAvail st' = masterBufferAvail st \<and> bufferSize st' = bufferSize st \<and>
     tgts st' = tgts st \<and> nextTgt st' = nextTgt st \<and> targets st' = targets st \<and> defaultTarget st' = defaultTarget st"

text \<open>A target gets other formats, a delimiter, a callback, is switched on or off.\<close>

definition same_role :: "logTarget \<Rightarrow> logTarget \<Rightarrow> bool" where
  "same_role t t' \<longleftrightarrow> availBuffers t' = availBuffers t \<and> writeOutBuffers t' = writeOutBuffers t \<and> banks t' = banks t \<and>
     currentBuffer t' = currentBuffer t \<and> inflight t' = inflight t \<and> ovInflight t' = ovInflight t \<and> myId t' = myId t \<and>
     (logCallbackSet t' = logCallbackSet t \<and> logCallback t' = logCallback t \<or> logCallbackSet t' \<and> logCallback t' \<noteq> None)"

text \<open>The elementary moves of every method that sets something up, and their sequences.\<close>

inductive set_up :: "'z tlogger_scheme \<Rightarrow> 'z tlogger_scheme \<Rightarrow> bool" where
  neutral: "same_core st st' \<Longrightarrow> set_up st st'"
| role: "tgts st a = Some t \<Longrightarrow> same_role t t' \<Longrightarrow> set_up st (st\<lparr>tgts := (tgts st)(a \<mapsto> t')\<rparr>)"
| made: "logTarget_new jk sz i d k = Inr t \<Longrightarrow>
    set_up st (st\<lparr>tgts := (tgts st)(nextTgt st \<mapsto> t), nextTgt := nextTgt st + 1, readyData := r\<rparr>)"
| default: "tgts st a = Some t \<Longrightarrow> myId t = GREASE_DEFAULT_TARGET_ID \<Longrightarrow> set_up st (st\<lparr>defaultTarget := Some a\<rparr>)"
| listed: "tgts st a = Some t \<Longrightarrow> myId t \<noteq> GREASE_DEFAULT_TARGET_ID \<Longrightarrow>
    set_up st (st\<lparr>targets := addReplace (myId t) a (targets st)\<rparr>)"
| set_up_trans: "set_up a b \<Longrightarrow> set_up b c \<Longrightarrow> set_up a c"

lemma same_core_refl [simp]: "same_core st st"
  by (simp add: same_core_def)

lemma set_up_refl [simp]: "set_up st st"
  by (rule set_up.neutral) simp

lemmas set_up_trans = set_up.set_up_trans

lemma set_up_core:
  assumes "same_core st1 st2"
  shows "set_up st st2 = set_up st st1" "set_up st2 st = set_up st1 st"
proof -
  have "set_up st1 st2" "set_up st2 st1" using assms by (auto intro!: set_up.neutral simp: same_core_def)
  then show "set_up st st2 = set_up st st1" "set_up st2 st = set_up st1 st" by (blast intro: set_up_trans)+
qed

named_theorems set_ups \<open>operations that are set-up\<close>

lemma set_up_small [simp]:
  "set_up st (queue_info err a i st1) = set_up st st1" "set_up st (call_js c st1) = set_up st st1"
  "set_up st (delete_info a st1) = set_up st st1" "set_up st (startup_call err i st1) = set_up st st1"
  "set_up st (st1\<lparr>nextTargetId := n\<rparr>) = set_up st st1" "set_up st (st1\<lparr>asyncTargetRef := b\<rparr>) = set_up st st1"
  "set_up st (st1\<lparr>infos := im, nextInfo := k\<rparr>) = set_up st st1" "set_up st (st1\<lparr>infos := im\<rparr>) = set_up st st1"
  "set_up st (st1\<lparr>targetCallbackQueue := q\<rparr>) = set_up st st1"
  "set_up st (st1\<lparr>threadStarted := b\<rparr>) = set_up st st1" "set_up st (st1\<lparr>nextSinkId := n, sinks := s\<rparr>) = set_up st st1"
  by (rule set_up_core, simp add: same_core_def queue_info_def call_js_def delete_info_def startup_call_def uv_async_send_def Let_def
      split: option.split)+

lemma set_up_new_info [set_ups]: "new_info i st = (a, st') \<Longrightarrow> set_up st st'"
  by (auto simp: new_info_def)

lemma set_up_run_action [set_ups]: "run_action cb err a st = Inr st' \<Longrightarrow> set_up st st'"
  by (auto simp: run_action_def start_logger_cb_def start_target_cb_def bindR_eq_Inr split: action_cb.splits if_splits option.splits)

lemma set_up_maybe_action [set_ups]: "maybe_action err info st = Inr st' \<Longrightarrow> set_up st st'"
  by (auto simp: maybe_action_def bindR_eq_Inr dest: set_up_run_action split: option.splits)

lemma set_up_from [simp]:
  "set_up (st\<lparr>nextTargetId := n\<rparr>) st1 = set_up st st1" "set_up (st\<lparr>asyncTargetRef := b\<rparr>) st1 = set_up st st1"
  "set_up (st\<lparr>infos := im\<rparr>) st1 = set_up st st1" "set_up (st\<lparr>targetCallbackQueue := q\<rparr>) st1 = set_up st st1"
  by (rule set_up_core, simp add: same_core_def)+

text \<open>A failed start never returns, so that no target ever disappears.\<close>

lemma failed_start: "targetReady ok err ta st = Inr st' \<Longrightarrow> ok"
  by (cases "maybe_action err (readyData st ta) st"; cases "tgts st ta"; cases ok)
    (simp_all add: targetReady_def deref_def Let_def)

lemma set_up_targetReady [set_ups]:
  assumes run: "targetReady ok err ta st = Inr st'"
  shows "set_up st st'"
proof -
  have ok: ok by (rule failed_start [OF run])
  obtain t where t: "tgts st ta = Some t" using run by (auto simp: targetReady_def bindR_eq_Inr deref_def split: option.splits)
  define F where "F s = bindR (deref (tgts s) ta) (\<lambda>t. Inr (case readyData st ta of
      Some a \<Rightarrow> if myId t = GREASE_DEFAULT_TARGET_ID then delete_info a s else s | None \<Rightarrow> s))" for s :: "'a tlogger_scheme"
  have tail: "set_up s st'" if "F s = Inr st'" for s
    using that by (auto simp: F_def bindR_eq_Inr split: option.splits)
  have "\<exists>s. set_up st s \<and> F s = Inr st'"
  proof (cases "myId t = GREASE_DEFAULT_TARGET_ID")
    case True
    then have "bindR (maybe_action err (readyData st ta) (st\<lparr>defaultTarget := Some ta\<rparr>)) F = Inr st'"
      using run t ok by (simp add: targetReady_def deref_def F_def [abs_def] Let_def)
    then show ?thesis
      using set_up.default [OF t True] by (auto simp: bindR_eq_Inr dest!: set_up_maybe_action intro: set_up_trans)
  next
    case False
    define st1 where "st1 = st\<lparr>targets := addReplace (myId t) ta (targets st)\<rparr>"
    have "bindR (case readyData st ta of None \<Rightarrow> Inl BadPointer | Some a \<Rightarrow> bindR (deref (infos st1) a) (\<lambda>i.
        case si_cb i of None \<Rightarrow> Inl BadPointer | Some cb \<Rightarrow> run_action cb err a st1)) F = Inr st'"
      using run t ok False unfolding targetReady_def F_def [abs_def] st1_def by (simp add: deref_def Let_def)
    then obtain s where s: "F s = Inr st'" "(case readyData st ta of None \<Rightarrow> Inl BadPointer | Some a \<Rightarrow> bindR (deref (infos st1) a) (\<lambda>i.
        case si_cb i of None \<Rightarrow> Inl BadPointer | Some cb \<Rightarrow> run_action cb err a st1)) = Inr s"
      unfolding bindR_eq_Inr by blast
    have "set_up st1 s" using s(2) by (auto simp: bindR_eq_Inr dest: set_up_run_action split: option.splits)
    then show ?thesis using s(1) set_up.listed [OF t False] unfolding st1_def by (blast intro: set_up_trans)
  qed
  then show ?thesis using tail set_up_trans by blast
qed

lemma set_up_add_target_object [set_ups]: "add_target_object k sz i d info st = Inr (ta, st') \<Longrightarrow> set_up st st'"
  by (auto simp: add_target_object_def bindR_eq_Inr Let_def dest!: set_up.made)

lemma set_up_ttyTarget [set_ups]:
  assumes "ttyTarget_new strerr r sz i d info st = Inr (ta, st')"
  shows "set_up st st'"
proof -
  obtain s where s: "add_target_object TTY sz i d info st = Inr (ta, s)"
    "(case r of None \<Rightarrow> targetReady True err_ev_new ta s
      | Some (e, m) \<Rightarrow> bindR (setError strerr e m err_ev_new) (\<lambda>err. targetReady False err ta s)) = Inr st'"
    using assms by (auto simp: ttyTarget_new_def bindR_eq_Inr)
  then have "set_up s st'" by (auto simp: bindR_eq_Inr dest: set_up_targetReady split: option.splits)
  then show ?thesis using s(1) set_up_add_target_object set_up_trans by blast
qed

lemma set_up_fileTarget [set_ups]:
  assumes "fileTarget_new opts path flags fs sz i d a st = Inr (ta, st')"
  shows "set_up st st'"
proof -
  obtain k s im where "add_target_object k sz i d (Some a) st = Inr (ta, s)" "st' = s\<lparr>infos := im\<rparr>"
    using assms by (auto simp: fileTarget_new_def bindR_eq_Inr)
  then show ?thesis using set_up_add_target_object by simp
qed

lemma set_up_file_on_open [set_ups]: "file_on_open strerr r ta st = Inr st' \<Longrightarrow> set_up st st'"
  by (cases r) (auto simp: file_on_open_def bindR_eq_Inr dest: set_up_targetReady)

lemma set_up_with_target:
  assumes run: "with_target a g st = Inr st'"
    and op: "\<And>t s t'. g st t = Inr (s, t') \<Longrightarrow> s = st \<and> same_role t t'"
  shows "set_up st st'"
proof -
  obtain t t1 where t: "tgts st a = Some t" "same_role t t1" "st' = st\<lparr>tgts := (tgts st)(a \<mapsto> t1)\<rparr>"
    using run by (auto simp: with_target_def bindR_eq_Inr deref_def dest: op split: option.splits)
  then show ?thesis using set_up.role by blast
qed

lemma set_up_format [set_ups]: "apply_format v ta st = Inr st' \<Longrightarrow> set_up st st'"
proof -
  have set: "set_up s s'" if "(k, f) \<in> set format_setters"
    "with_target ta (\<lambda>st t. bindR (f x n t) (\<lambda>t. Inr (st, t))) s = Inr s'" for k f x n and s s' :: "'a tlogger_scheme"
  proof (rule set_up_with_target [OF that(2)])
    fix t and s1 :: "'a tlogger_scheme" and t'
    assume "bindR (f x n t) (\<lambda>t. Inr (s, t)) = Inr (s1, t')"
    then show "s1 = s \<and> same_role t t'"
      using that(1) by (auto simp: same_role_def bindR_eq_Inr format_setters_def setPreFormat_def setTimeFormat_def setLevelFormat_def
          setTagFormat_def setOriginFormat_def setPostFormat_def setPreMsgFormat_def)
  qed
  have steps: "set_up s s'" if "foldR (\<lambda>(k, f) st. case toStr (jsGet v k) of None \<Rightarrow> Inr st
      | Some x \<Rightarrow> with_target ta (\<lambda>st t. bindR (f x (length x) t) (\<lambda>t. Inr (st, t))) st) fs s = Inr s'"
    "set fs \<subseteq> set format_setters" for fs and s s' :: "'a tlogger_scheme"
    using that
  proof (induction fs arbitrary: s)
    case (Cons kf fs)
    obtain k f where kf: "kf = (k, f)" by (cases kf)
    show ?case
    proof (cases "toStr (jsGet v k)")
      case None
      then show ?thesis using Cons by (simp add: kf)
    next
      case (Some x)
      then obtain s1 where s1: "with_target ta (\<lambda>st t. bindR (f x (length x) t) (\<lambda>t. Inr (st, t))) s = Inr s1"
        "foldR (\<lambda>(k, f) st. case toStr (jsGet v k) of None \<Rightarrow> Inr st
          | Some x \<Rightarrow> with_target ta (\<lambda>st t. bindR (f x (length x) t) (\<lambda>t. Inr (st, t))) st) fs s1 = Inr s'"
        using Cons.prems(1) by (auto simp: kf bindR_eq_Inr)
      have "set_up s s1" using Cons.prems(2) by (intro set [of k f x "length x"] s1(1)) (auto simp: kf)
      moreover have "set_up s1 s'" using Cons.IH [OF s1(2)] Cons.prems(2) by simp
      ultimately show ?thesis by (rule set_up_trans)
    qed
  qed simp
  assume "apply_format v ta st = Inr st'"
  then show "set_up st st'" using steps [OF _ order_refl] by (auto simp: apply_format_def split: if_splits)
qed


text \<open>Taking a run of a call apart.\<close>

lemma bindR_E: "bindR m f = Inr y \<Longrightarrow> (\<And>x. m = Inr x \<Longrightarrow> f x = Inr y \<Longrightarrow> P) \<Longrightarrow> P"
  by (auto simp: bindR_eq_Inr)

lemma if_E: "(if b then x else y) = z \<Longrightarrow> (b \<Longrightarrow> x = z \<Longrightarrow> P) \<Longrightarrow> (\<not> b \<Longrightarrow> y = z \<Longrightarrow> P) \<Longrightarrow> P"
  by (cases b) auto

lemma prod_E: "(case p of (a, b) \<Rightarrow> f a b) = z \<Longrightarrow> (\<And>a b. p = (a, b) \<Longrightarrow> f a b = z \<Longrightarrow> P) \<Longrightarrow> P"
  by (cases p) auto

lemma option_E: "(case x of None \<Rightarrow> y | Some a \<Rightarrow> f a) = z \<Longrightarrow> (x = None \<Longrightarrow> y = z \<Longrightarrow> P) \<Longrightarrow>
    (\<And>a. x = Some a \<Longrightarrow> f a = z \<Longrightarrow> P) \<Longrightarrow> P"
  by (cases x) auto

lemmas taken_apart = bindR_E if_E prod_E option_E

lemma set_up_if [simp]: "set_up (if b then st\<lparr>asyncTargetRef := v\<rparr> else st) s = set_up st s"
  by simp

lemma set_up_callback [set_ups]: "with_target ta (\<lambda>st t. Inr (st, setCallback f t)) st = Inr st' \<Longrightarrow> set_up st st'"
  by (erule set_up_with_target) (auto simp: setCallback_def same_role_def)

lemma set_up_AddTarget [set_ups]: "AddTarget e info st = Inr (r, st') \<Longrightarrow> set_up st st'"
  unfolding AddTarget_def Let_def
  by (elim taken_apart; auto dest!: set_ups split del: if_split; meson set_up_trans)

lemma set_up_delim [set_ups]:
  "with_target ta (\<lambda>st t. bindR (setDelim (junk st) s n (tdelim t)) (\<lambda>d. Inr (st, t\<lparr>tdelim := d\<rparr>))) st = Inr st' \<Longrightarrow> set_up st st'"
  by (erule set_up_with_target) (auto simp: bindR_eq_Inr same_role_def)

lemma set_up_ModifyDefaultTarget [set_ups]: "ModifyDefaultTarget e info st = Inr st' \<Longrightarrow> set_up st st'"
  unfolding ModifyDefaultTarget_def Let_def
  by (elim taken_apart; simp split del: if_split; blast dest: set_ups intro: set_up_trans)

lemma set_up_AddSink [set_ups]: "AddSink e info st = Inr (r, st') \<Longrightarrow> set_up st st'"
  unfolding AddSink_def Let_def
  by (elim taken_apart) auto

lemma set_up_Start [set_ups]: "Start strerr r info st = Inr st' \<Longrightarrow> set_up st st'"
  unfolding Start_def start_logger_def setupDefaultTarget_def Let_def
  by (elim taken_apart; auto dest!: set_ups; meson set_up_trans)

lemma set_up_call_info: "call_info a st = Inr st' \<Longrightarrow> set_up st st'"
  by (auto simp: call_info_def bindR_eq_Inr)

lemma set_up_callTarget_loop: "callTarget_loop st = Inr st' \<Longrightarrow> set_up st st'"
proof (induction st rule: callTarget_loop.induct)
  case (1 st)
  obtain x q where rm: "tw_remove (targetCallbackQueue st) = (x, q)" by (cases "tw_remove (targetCallbackQueue st)")
  show ?case
  proof (cases x)
    case None
    then show ?thesis using 1(2) rm by (subst (asm) callTarget_loop.simps) auto
  next
    case (Some a)
    then obtain s where "call_info a (st\<lparr>targetCallbackQueue := q\<rparr>) = Inr s" "callTarget_loop s = Inr st'"
      using 1(2) rm by (subst (asm) callTarget_loop.simps) (auto simp: bindR_eq_Inr)
    then show ?thesis
      using 1(1) [OF rm [symmetric] Some] set_up_call_info set_up_trans by fastforce
  qed
qed

lemma set_up_callTargetCallback [set_ups]: "callTargetCallback st = Inr st' \<Longrightarrow> set_up st st'"
  by (auto simp: callTargetCallback_def bindR_eq_Inr dest: set_up_callTarget_loop)

text \<open>The filters lie below everything else.\<close>

lemma set_up_filters: "filters.more st' = filters.more st \<Longrightarrow> set_up st (st' :: 'z tlogger_scheme)"
  by (cases st, cases st') (auto intro!: set_up.neutral simp: same_core_def)

lemma addFilter_more: "addFilter p t og tg lev pre postpre post st = Inr (ok, i, st') \<Longrightarrow> filters.more st' = filters.more st"
  by (auto simp: addFilter_def Let_def split: option.splits prod.splits)

lemma upd_filter_more [simp]: "filters.more (upd_filter h u st) = filters.more st"
  by (simp add: upd_filter_def split: option.split)

lemma set_up_filter_api [set_ups]:
  fixes st :: "'z tlogger_scheme"
  shows "AddFilter p info st = Inr (r, st') \<Longrightarrow> set_up st st'" "ModifyFilter info st = Inr (r, st') \<Longrightarrow> set_up st st'"
    "SetGlobalOpts num info st = (r, st') \<Longrightarrow> set_up st st'"
  unfolding AddFilter_def ModifyFilter_def SetGlobalOpts_def Let_def
  by ((elim taken_apart)?, auto intro!: set_up_filters dest: addFilter_more split: option.split)+

lemma set_up_labels [set_ups]:
  fixes st :: "'z tlogger_scheme"
  shows "AddTagLabel info st = Inr (r, st') \<Longrightarrow> set_up st st'" "AddOriginLabel info st = Inr (r, st') \<Longrightarrow> set_up st st'"
    "AddLevelLabel info st = Inr (r, st') \<Longrightarrow> set_up st st'"
  unfolding AddTagLabel_def AddOriginLabel_def AddLevelLabel_def add_label_def
  by (auto simp: bindR_eq_Inr same_core_def intro!: set_up.neutral split: if_splits option.splits)

lemma set_up_set_writes [set_ups]:
  fixes st :: "'z tlogger_scheme"
  shows "set_writes off info st = Inr (b, st') \<Longrightarrow> set_up st st'"
  by (auto simp: set_writes_def bindR_eq_Inr disableWrites_def same_role_def elim!: set_up_with_target split: option.splits)

end
