(* ===== verification/Machine.thy ===== *)
theory Machine
  imports SetUp "HOL-Library.Multiset"
begin

text \<open>
  The logger as a state machine: every call from JavaScript, from a client, of the logger
  thread, of libuv and of the V8 thread is a step of \<open>logger_step\<close>. What holds in every
  state that is reachable from the constructor.
\<close>

text \<open>The flushes called from JavaScript and by the timer.\<close>

context flush_effect
begin

lemma Flush_effect: "Flush info st = Inr st' \<Longrightarrow> R st st'"
  by (auto simp: Flush_def refl intro: flush flushAll_effect split: option.splits if_splits)

lemma timer_effect: "flushTimer_cb st = Inr st' \<Longrightarrow> R st st'"
  unfolding flushTimer_cb_def by (rule flushAll_effect)

end

section \<open>The machine\<close>

text \<open>
  One step: a message logged from JavaScript or by a client through a sink; the methods that set
  up filters, labels, targets and sinks; one command of the logger thread; the completion of a
  write to a terminal or a file; the flush timer; the two callbacks in the V8 thread; shutdown.
\<close>

inductive logger_step :: "'z tlogger_scheme \<Rightarrow> 'z tlogger_scheme \<Rightarrow> bool" where
  log: "len \<le> length s \<Longrightarrow> log_public f ext s len st = Inr (r, st') \<Longrightarrow> logger_step st st'"
| raw: "len \<le> length base \<Longrightarrow> logFromRaw base len st = Inr (r, st') \<Longrightarrow> logger_step st st'"
| js_log: "Log num info (ig, st) = Inr (ig', st') \<Longrightarrow> logger_step st st'"
| command: "tw_removeMv internalCmdReq_moved (internalCmdQueue st) = (Some req, q) \<Longrightarrow>
    handle_cmd clk got req (st\<lparr>internalCmdQueue := q\<rparr>) = Inr st' \<Longrightarrow> logger_step st st'"
| external: "logger_step st (handleExternalCmd st)"
| written: "with_target a (write_cb a i) st = Inr st' \<Longrightarrow> logger_step st st'"
| overflow_written: "with_target a (write_overflow_cb a) st = Inr st' \<Longrightarrow> logger_step st st'"
| timer: "flushTimer_cb st = Inr st' \<Longrightarrow> logger_step st st'"
| v8: "callV8LogCallbacks st = Inr st' \<Longrightarrow> logger_step st st'"
| flush: "Flush info st = Inr st' \<Longrightarrow> logger_step st st'"
| shut: "logger_step st (shutdown st)"
| filter_add: "AddFilter p info st = Inr (js, st') \<Longrightarrow> logger_step st st'"
| filter_modify: "ModifyFilter info st = Inr (js, st') \<Longrightarrow> logger_step st st'"
| options: "SetGlobalOpts num info st = (js, st') \<Longrightarrow> logger_step st st'"
| tag: "AddTagLabel info st = Inr (js, st') \<Longrightarrow> logger_step st st'"
| origin: "AddOriginLabel info st = Inr (js, st') \<Longrightarrow> logger_step st st'"
| level: "AddLevelLabel info st = Inr (js, st') \<Longrightarrow> logger_step st st'"
| disable: "DisableTarget info st = Inr (b, st') \<Longrightarrow> logger_step st st'"
| enable: "EnableTarget info st = Inr (b, st') \<Longrightarrow> logger_step st st'"
| target: "AddTarget e info st = Inr (js, st') \<Longrightarrow> logger_step st st'"
| default: "ModifyDefaultTarget e info st = Inr st' \<Longrightarrow> logger_step st st'"
| opened: "file_on_open strerr res a st = Inr st' \<Longrightarrow> logger_step st st'"
| sink: "AddSink e' info st = Inr (js, st') \<Longrightarrow> logger_step st st'"
| start: "Start strerr tty info st = Inr st' \<Longrightarrow> logger_step st st'"
| report: "callTargetCallback st = Inr st' \<Longrightarrow> logger_step st st'"

inductive logger_run :: "'z tlogger_scheme \<Rightarrow> 'z tlogger_scheme \<Rightarrow> bool" where
  nothing: "logger_run st st"
| one_more: "logger_run st st1 \<Longrightarrow> logger_step st1 st2 \<Longrightarrow> logger_run st st2"

section \<open>The invariant of the master buffers\<close>

definition buffers_inv :: "'z logger_scheme \<Rightarrow> bool" where
  "buffers_inv st \<longleftrightarrow> masters_ok st \<and> high st \<and> (\<forall>a \<in> set (masters st). a < N_MASTERS) \<and>
     (\<forall>c \<in> set (items (internalCmdQueue st)). icmd c = NEW_LOG \<longrightarrow> icmd_aux c \<noteq> None)"

lemma queued_logs_none: "\<forall>c \<in> set cs. icmd c \<noteq> NEW_LOG \<Longrightarrow> queued_logs cs = []"
  by (induction cs) (auto simp: queued_logs_def map_filter_simps)

text \<open>What leaves the low logs alone and queues no NEW_LOG keeps every master buffer where it is.\<close>

lemma quiet_keeps:
  assumes inv: "buffers_inv st" and q: "quiet st st'" and g: "cmds_grow st st'"
  shows "buffers_inv st' \<and> masters st' = masters st \<and> low_same st st'"
proof -
  have low: "high st'" "low_same st st'" using inv q by (auto simp: buffers_inv_def quiet_def)
  obtain cs where cs: "circular_inv (internalCmdQueue st')" "items (internalCmdQueue st') = items (internalCmdQueue st) @ cs"
    "\<forall>c \<in> set cs. icmd c \<noteq> NEW_LOG" using inv g by (auto simp: buffers_inv_def masters_ok_def cmds_grow_def)
  have m: "masters st' = masters st"
    using low(2) queued_logs_none [OF cs(3)] by (simp add: masters_def cs(2) queued_logs_append low_same_def)
  have "logs st' a = logs st a" if "a \<in> set (masters st)" for a
    using inv low(2) that by (simp add: buffers_inv_def low_same_def)
  then have "buffers_inv st'"
    using inv low cs m unfolding buffers_inv_def masters_ok_def low_same_def by auto
  then show ?thesis using m low(2) by simp
qed

text \<open>What a set-up does to the parts the two relations look at.\<close>

lemma set_up_parts:
  "set_up st st' \<Longrightarrow> same_cmds st st' \<and> logs st' = logs st \<and> nextLog st' = nextLog st \<and>
     v8LogCallbacks st' = v8LogCallbacks st \<and> masterBufferAvail st' = masterBufferAvail st \<and> bufferSize st' = bufferSize st \<and>
     (\<forall>a t. tgts st' a = Some t \<longrightarrow> ovInflight t = [] \<or> (\<exists>t0. tgts st a = Some t0 \<and> ovInflight t = ovInflight t0))"
proof (induction rule: set_up.induct)
  case (made jk sz i d k t st r)
  then have "ovInflight t = []" by (auto simp: logTarget_new_def bindR_eq_Inr)
  then show ?case by (auto simp: same_cmds_def)
next
  case (set_up_trans a b c)
  then show ?case unfolding same_cmds_def by (metis (no_types))
qed (auto simp: same_core_def same_role_def same_cmds_def)

lemma set_up_quiet:
  assumes "set_up st st'"
  shows "quiet st st' \<and> cmds_grow st st'"
proof -
  note P = set_up_parts [OF assms]
  have "high st'" if "high st"
  proof -
    have "high_owner st'" using that P by (simp add: high_def high_owner_def same_cmds_def)
    moreover have "high_target t" if "tgts st' a = Some t" for a t
    proof (cases "ovInflight t = []")
      case False
      then obtain t0 where "tgts st a = Some t0" "ovInflight t = ovInflight t0" using P \<open>tgts st' a = Some t\<close> by blast
      then show ?thesis using \<open>high st\<close> by (simp add: high_def high_target_def)
    qed (simp add: high_target_def)
    ultimately show ?thesis by (simp add: high_def)
  qed
  then show ?thesis using P by (simp add: quiet_def low_same_def same_cmds_grow)
qed

section \<open>Steps that leave the command queue alone\<close>

lemma write_cb_cmds [cmds]:
  "write_cb ta i ow t = Inr (ow', t') \<Longrightarrow> same_cmds ow ow'" "write_overflow_cb ta ow t = Inr (ow', t') \<Longrightarrow> same_cmds ow ow'"
  by (auto simp: write_cb_def write_overflow_cb_def bindR_eq_Inr dest: returnBuffer_cmds returnBuffer_overflow_cmds
      split: if_splits prod.splits list.splits)

lemma call_one_cmds:
  assumes "call_one d st = Inr (d', st')"
  shows "same_cmds st st'"
proof -
  obtain a s and t :: logTarget where s: "(if logCallback t \<noteq> None then with_target a (doV8Callback d) st else Inr st) = Inr s"
      "unrefFromV8_inV8 s = Inr st'"
    by (rule call_one_parts [OF assms])
  have "same_cmds st s" using s(1) kept.with_target_effect [OF doV8Callback_cmds] by (auto split: if_splits)
  moreover have "same_cmds s st'" using s(2) by (auto simp: unrefFromV8_inV8_def same_cmds_def Let_def split: if_splits)
  ultimately show ?thesis by (rule same_cmds_trans)
qed

lemma v8_loop_cmds: "v8_loop data st = Inr st' \<Longrightarrow> same_cmds st st'"
proof (induction data st rule: v8_loop.induct)
  case (1 data st)
  obtain x q where rm: "tw_removeMv writeCBData_moved (v8LogCallbacks st) = (x, q)"
    by (cases "tw_removeMv writeCBData_moved (v8LogCallbacks st)")
  show ?case
  proof (cases x)
    case None
    then have "writeCBData_delete data (st\<lparr>v8LogCallbacks := q\<rparr>) = Inr st'"
      using 1(2) rm by (subst (asm) v8_loop.simps) simp
    then show ?thesis by (auto dest: writeCBData_delete_cmds simp: same_cmds_def)
  next
    case (Some d)
    obtain d' s where one: "call_one d (st\<lparr>v8LogCallbacks := q\<rparr>) = Inr (d', s)" and rest: "v8_loop d' s = Inr st'"
      using 1(2) rm Some by (subst (asm) v8_loop.simps) (auto simp: bindR_eq_Inr)
    show ?thesis
      using call_one_cmds [OF one] 1(1) [OF rm [symmetric] Some one refl rest] by (simp add: same_cmds_def)
  qed
qed

text \<open>Every completion and flush, in one place.\<close>

definition calm_step :: "'z logger_scheme \<Rightarrow> 'z logger_scheme \<Rightarrow> bool" where
  "calm_step st st' \<longleftrightarrow> quiet st st' \<and> cmds_grow st st'"

lemma calm_step_keeps: "calm_step st st' \<Longrightarrow> buffers_inv st \<Longrightarrow> buffers_inv st'"
  using quiet_keeps by (auto simp: calm_step_def)

lemma calm_stepI: "quiet st st' \<Longrightarrow> same_cmds st st' \<Longrightarrow> calm_step st st'"
  by (simp add: calm_step_def same_cmds_grow)

lemma calm_completions:
  "with_target a (write_cb a i) st = Inr st' \<Longrightarrow> calm_step st st'"
  "with_target a (write_overflow_cb a) st = Inr st' \<Longrightarrow> calm_step st st'"
  "with_target a (flushAll_target a rot nocb) st = Inr st' \<Longrightarrow> calm_step st st'"
  by (rule calm_stepI, erule quiet_completions, rule kept.with_target_effect, erule cmds, assumption)+

lemma calm_flush_and_V8:
  "flushAll nocb st = Inr st' \<Longrightarrow> calm_step st st'" "callV8LogCallbacks st = Inr st' \<Longrightarrow> calm_step st st'"
  using quiet_flush.flushAll_effect kept_flush.flushAll_effect quiet_V8 v8_loop_cmds by (auto intro!: calm_stepI simp: callV8LogCallbacks_def)

lemma calm_set_up: "set_up st st' \<Longrightarrow> calm_step st st'"
  using set_up_quiet by (simp add: calm_step_def)

lemma external_simps: "internalCmdQueue (handleExternalCmd st) = internalCmdQueue st"
  "quiet st (handleExternalCmd st)"
proof -
  have "internalCmdQueue (handleExternalCmd st) = internalCmdQueue st \<and> quiet st (handleExternalCmd st)"
  proof (induction st rule: handleExternalCmd.induct)
    case (1 st)
    obtain x q where rm: "tw_removeMv nodeCmdReq_moved (nodeCmdQueue st) = (x, q)"
      by (cases "tw_removeMv nodeCmdReq_moved (nodeCmdQueue st)")
    have "quiet st (st\<lparr>nodeCmdQueue := q\<rparr>)" by (simp add: quiet_def high_def high_owner_def low_same_def)
    then show ?case
      using 1 [OF rm [symmetric]] quiet_trans by (cases x; subst (1 2) handleExternalCmd.simps) (auto simp: rm)
  qed
  then show "internalCmdQueue (handleExternalCmd st) = internalCmdQueue st" "quiet st (handleExternalCmd st)" by simp_all
qed


section \<open>Logging keeps the invariant\<close>

lemma buffers_invD:
  "buffers_inv st \<Longrightarrow> masters_ok st" "buffers_inv st \<Longrightarrow> high st"
  "buffers_inv st \<Longrightarrow> circular_inv (internalCmdQueue st)" "buffers_inv st \<Longrightarrow> circular_inv (masterBufferAvail st)"
  by (simp_all add: buffers_inv_def masters_ok_def)

text \<open>A message that fits: the parts of the state \<open>log_internal\<close> changes.\<close>

lemma log_internal_shape:
  assumes run: "log_internal m ext s len st = Inr (r, st')" and len: "\<not> len > bufferSize st"
  shows "\<exists>q mq lg p. st' = st\<lparr>masterBufferAvail := mq, logs := lg, internalCmdQueue := q, pending := p\<rparr> \<and>
    (q = internalCmdQueue st \<or> (\<exists>a. q = snd (tw_addIfRoom ((internalCmdReq_new NEW_LOG 0)\<lparr>icmd_aux := Some a\<rparr>) (internalCmdQueue st))))"
proof -
  have same: "st = st\<lparr>internalCmdQueue := internalCmdQueue st, pending := pending st\<rparr>"
    "st = st\<lparr>logs := logs st, internalCmdQueue := internalCmdQueue st, pending := pending st\<rparr>" by simp_all
  obtain x mq where rm: "tw_remove (masterBufferAvail st) = (x, mq)" by (cases "tw_remove (masterBufferAvail st)")
  show ?thesis
  proof (cases x)
    case None
    then have "st' = st\<lparr>masterBufferAvail := mq\<rparr>" using run len rm by (simp add: log_internal_def)
    then show ?thesis
      by (intro exI [of _ "internalCmdQueue st"] exI [of _ mq] exI [of _ "logs st"] exI [of _ "pending st"]) simp
  next
    case (Some a)
    define c where "c = (internalCmdReq_new NEW_LOG 0)\<lparr>icmd_aux := Some a\<rparr>"
    obtain lg where st': "st' = queue_cmd c (st\<lparr>masterBufferAvail := mq, logs := lg\<rparr>)"
      using run len rm Some by (auto simp: log_internal_def bindR_eq_Inr Let_def c_def)
    obtain b q where add: "tw_addIfRoom c (internalCmdQueue st) = (b, q)" by (cases "tw_addIfRoom c (internalCmdQueue st)")
    show ?thesis
    proof (cases b)
      case True
      then have "st' = st\<lparr>masterBufferAvail := mq, logs := lg, internalCmdQueue := q, pending := insert asyncInternalCommand (pending st)\<rparr>"
        using add by (simp add: st' queue_cmd_def tw_addMvIfRoom_eq uv_async_send_def)
      moreover have "q = snd (tw_addIfRoom c (internalCmdQueue st))" using add by simp
      ultimately show ?thesis unfolding c_def by blast
    next
      case False
      then have "st' = st\<lparr>masterBufferAvail := mq, logs := lg\<rparr>" using add by (simp add: st' queue_cmd_def tw_addMvIfRoom_eq)
      then show ?thesis
        by (intro exI [of _ "internalCmdQueue st"] exI [of _ mq] exI [of _ lg] exI [of _ "pending st"]) simp
    qed
  qed
qed

lemma log_internal_fits_keeps:
  assumes inv: "buffers_inv st" and run: "log_internal m ext s len st = Inr (r, st')"
    and len: "\<not> len > bufferSize st" "len \<le> length s"
  shows "buffers_inv st'"
proof -
  have fit: "len \<le> bufferSize st" using len(1) by simp
  obtain s2 where "log_internal m ext s len st = Inr (GREASE_OK, s2)" and ok: "masters_ok s2"
    and c: "case items (masterBufferAvail st) of
       [] \<Rightarrow> masters s2 = masters st \<and> internalCmdQueue s2 = internalCmdQueue st \<and> logs s2 = logs st
     | a # as \<Rightarrow> items (masterBufferAvail s2) = as \<and>
         (\<exists>l. logs s2 a = Some l \<and> holds_entry m ext (take len s) l) \<and> (\<forall>b. b \<noteq> a \<longrightarrow> logs s2 b = logs st b) \<and>
         (if length (items (internalCmdQueue st)) < capacity (internalCmdQueue st)
          then asyncInternalCommand \<in> pending s2 \<and> set (masters s2) = set (masters st) \<and>
            items (internalCmdQueue s2) = items (internalCmdQueue st) @ [(internalCmdReq_new NEW_LOG 0)\<lparr>icmd_aux := Some a\<rparr>]
          else internalCmdQueue s2 = internalCmdQueue st \<and> a \<notin> set (masters s2))"
    using log_internal_fits [OF buffers_invD(1) [OF inv] fit len(2), of m ext] by blast
  then have s2: "s2 = st'" using run by simp
  have sub: "set (masters st') \<subseteq> set (masters st)"
  proof (cases "items (masterBufferAvail st)")
    case (Cons a as)
    then have "items (masterBufferAvail st') = as" "set (masters st') = set (masters st) \<or> internalCmdQueue st' = internalCmdQueue st"
      using c by (simp_all add: s2 split: if_splits del: length_items)
    then show ?thesis using Cons by (auto simp: masters_def)
  qed (use c s2 in simp)
  note ok = ok [unfolded s2]
  obtain q mq lg p where st': "st' = st\<lparr>masterBufferAvail := mq, logs := lg, internalCmdQueue := q, pending := p\<rparr>"
    and q: "q = internalCmdQueue st \<or> (\<exists>a. q = snd (tw_addIfRoom ((internalCmdReq_new NEW_LOG 0)\<lparr>icmd_aux := Some a\<rparr>) (internalCmdQueue st)))"
    using log_internal_shape [OF run len(1)] by blast
  have new: "c \<in> set (items (internalCmdQueue st)) \<or> (\<exists>a. c = (internalCmdReq_new NEW_LOG 0)\<lparr>icmd_aux := Some a\<rparr>)"
    if "c \<in> set (items q)" for c
    using that q tw_addIfRoom_spec [OF buffers_invD(3) [OF inv], OF prod.collapse [symmetric]] by (auto split: if_splits)
  have "high_owner st'"
    using inv new ok unfolding buffers_inv_def high_def high_owner_def masters_ok_def
    by (fastforce simp: st' high_cmd_def internalCmdReq_new_def)
  then have "high st'" using inv by (simp add: high_def buffers_inv_def st')
  moreover have "\<forall>c \<in> set (items (internalCmdQueue st')). icmd c = NEW_LOG \<longrightarrow> icmd_aux c \<noteq> None"
    using inv by (auto simp: buffers_inv_def st' dest!: new)
  ultimately show ?thesis using ok sub inv by (auto simp: buffers_inv_def)
qed

text \<open>A message that does not fit gets a log of its own.\<close>

lemma log_internal_big_calm:
  assumes run: "log_internal m ext s len st = Inr (r, st')" and len: "len > bufferSize st"
  shows "calm_step st (st' :: 'z logger_scheme)"
proof -
  obtain x b where hb: "heapBuf_memcpy s len (Some OVERFLOW_ENDING) (buf (singleLog_new (junk st) (min len MAX_LOG_MESSAGE_SIZE))) = Inr (x, b)"
    using run len by (auto simp: log_internal_def Let_def bindR_eq_Inr)
  define l where "l = set_meta m ext ((singleLog_new (junk st) (min len MAX_LOG_MESSAGE_SIZE))\<lparr>buf := b\<rparr>)"
  obtain a st1 where n: "new_log l st = (a, st1)" by (cases "new_log l st")
  have st': "st' = queue_cmd ((internalCmdReq_new WRITE_TARGET_OVERFLOW 0)\<lparr>icmd_aux := Some a\<rparr>) st1"
    using run len hb n by (simp add: log_internal_def Let_def l_def)
  define c where "c = (internalCmdReq_new WRITE_TARGET_OVERFLOW 0)\<lparr>icmd_aux := Some a\<rparr>"
  obtain k d q where add: "tw_addMvIfRoom internalCmdReq_moved c (internalCmdQueue st1) = (k, d, q)"
    using prod_cases3 by blast
  have 1: "quiet st st1" "same_cmds st st1"
    using calm_new_log [OF n] same_cmds_simps(4) [of st l st] n by (auto intro!: quiet_calm simp: new_log_def)
  have cm: "calm st1 (st1\<lparr>internalCmdQueue := q\<rparr>)" if "high st"
    using that new_log_high [OF n] by (intro calm_put_cmd [OF add]) (simp add: c_def high_cmd_def high_def)
  have g: "cmds_grow st1 (st1\<lparr>internalCmdQueue := q\<rparr>)"
    by (rule cmds_grow_put [OF add]) (simp add: c_def internalCmdReq_new_def)
  have s: "st' = (if k then uv_async_send asyncInternalCommand (st1\<lparr>internalCmdQueue := q\<rparr>) else st1)"
    using add by (cases k) (simp_all add: st' c_def queue_cmd_def)
  have "quiet st st'"
  proof (cases "high st")
    case True
    have "calm st1 st'" using cm [OF True] by (simp add: s)
    moreover have "tgts st' = tgts st1" by (simp add: s uv_async_send_def)
    ultimately show ?thesis using quiet_trans [OF 1(1) quiet_calm] by blast
  qed (simp add: quiet_def)
  moreover have "cmds_grow st1 st'"
    using g grown.refl by (simp add: s cmds_grow_def uv_async_send_def)
  ultimately show ?thesis using cmds_grow_trans [OF same_cmds_grow [OF 1(2)]] by (simp add: calm_step_def)
qed

lemma log_internal_keeps:
  "buffers_inv st \<Longrightarrow> log_internal m ext s len st = Inr (r, st') \<Longrightarrow> len \<le> length s \<Longrightarrow> buffers_inv st'"
  using log_internal_fits_keeps log_internal_big_calm calm_step_keeps by (metis (no_types))


section \<open>A command keeps the invariant\<close>

lemma queued_logs_Cons:
  "queued_logs (c # cs) = (case (if icmd c = NEW_LOG then icmd_aux c else None) of Some a \<Rightarrow> a # queued_logs cs | None \<Rightarrow> queued_logs cs)"
  by (cases "icmd_aux c") (simp_all add: queued_logs_def map_filter_simps)

text \<open>Taking a command out: the state without it, and what a NEW_LOG carries.\<close>

lemma take_command:
  assumes inv: "buffers_inv st" and rm: "tw_removeMv internalCmdReq_moved (internalCmdQueue st) = (Some req, q)"
  shows "buffers_inv (st\<lparr>internalCmdQueue := q\<rparr>)" "high_cmd req"
    "icmd req = NEW_LOG \<Longrightarrow> \<exists>a. icmd_aux req = Some a \<and> a \<in> set (masters st) \<and>
       masters st = items (masterBufferAvail st) @ a # queued_logs (items q)"
proof -
  have R: "circular_inv q" "capacity q = capacity (internalCmdQueue st)" "items (internalCmdQueue st) = req # items q"
    using tw_removeMv_spec [OF buffers_invD(3) [OF inv] rm] by (auto split: list.splits)
  have h: "high st" using inv by (simp add: buffers_inv_def)
  then show "high_cmd req" using R(3) by (simp add: high_def high_owner_def)
  have "high (st\<lparr>internalCmdQueue := q\<rparr>)" using h R by (simp add: high_def high_owner_def)
  moreover obtain pre where "queued_logs (req # items q) = pre @ queued_logs (items q)"
    by (metis append_Cons append_Nil option.case_eq_if queued_logs_Cons)
  ultimately show "buffers_inv (st\<lparr>internalCmdQueue := q\<rparr>)"
    using inv R unfolding buffers_inv_def masters_ok_def masters_def by (auto simp del: length_items)
  assume n: "icmd req = NEW_LOG"
  then obtain a where "icmd_aux req = Some a" using inv R(3) by (auto simp: buffers_inv_def)
  then show "\<exists>a. icmd_aux req = Some a \<and> a \<in> set (masters st) \<and>
      masters st = items (masterBufferAvail st) @ a # queued_logs (items q)"
    using n by (simp add: masters_def R(3) queued_logs_Cons)
qed

lemma upd_log_keeps:
  assumes inv: "buffers_inv st" and run: "upd_log a u st = Inr st'"
    and u: "\<And>l. hbase (buf (u l)) = hbase (buf l) \<and> hlen (buf (u l)) = hlen (buf l)"
  shows "buffers_inv st' \<and> masters st' = masters st \<and> masterBufferAvail st' = masterBufferAvail st \<and> bufferSize st' = bufferSize st \<and>
    (\<forall>b. logs st' b = (if b = a then map_option u (logs st a) else logs st b))"
proof -
  obtain l where l: "logs st a = Some l" "st' = st\<lparr>logs := (logs st)(a \<mapsto> u l)\<rparr>"
    using run by (auto simp: upd_log_def bindR_eq_Inr deref_def split: option.splits)
  have m: "masters st' = masters st" by (simp add: l(2) masters_def)
  have "masters_ok st'"
    using inv u [of l] unfolding buffers_inv_def masters_ok_def m by (auto simp: l)
  then have "buffers_inv st'"
    using inv unfolding buffers_inv_def m by (simp add: l(2) high_def high_owner_def)
  then show ?thesis using m l by simp
qed

lemma upd_log_cmdq: "upd_log a u st = Inr st' \<Longrightarrow> internalCmdQueue st' = internalCmdQueue st"
  by (auto simp: upd_log_def bindR_eq_Inr)

lemma NEW_LOG_keeps:
  assumes inv: "buffers_inv st" and run: "handle_NEW_LOG clk a st = Inr st'"
    and a: "a \<notin> set (masters st)" "a < N_MASTERS" "length (masters st) < capacity (masterBufferAvail st)"
    and l: "logs st a = Some l" "hbase (buf l) = Some mem" "length mem = bufferSize st" "hlen (buf l) = bufferSize st"
  shows "buffers_inv st'"
proof -
  obtain ok m where sf: "sift st (emeta (smeta l)) = (ok, m)" by (cases "sift st (emeta (smeta l))")
  obtain s1 s2 s3 q where 1: "upd_log a (\<lambda>l. l\<lparr>smeta := (smeta l)\<lparr>emeta := m\<rparr>\<rparr>) st = Inr s1"
    and 2: "(if ok then dispatch (emit_write clk a ((smeta l)\<lparr>emeta := m\<rparr>)) ((smeta l)\<lparr>emeta := m\<rparr>) s1 else Inr s1) = Inr s2"
    and 3: "upd_log a singleLog_clear s2 = Inr s3" and 4: "tw_add a (masterBufferAvail s3) = Inr q"
      "st' = s3\<lparr>masterBufferAvail := q\<rparr>"
    using run l(1) by (auto simp: handle_NEW_LOG_def bindR_eq_Inr sf Let_def)
  have K1: "buffers_inv s1 \<and> masters s1 = masters st \<and> masterBufferAvail s1 = masterBufferAvail st \<and> bufferSize s1 = bufferSize st \<and>
    (\<forall>b. logs s1 b = (if b = a then map_option (\<lambda>l. l\<lparr>smeta := (smeta l)\<lparr>emeta := m\<rparr>\<rparr>) (logs st a) else logs st b))"
    by (rule upd_log_keeps [OF inv 1]) simp
  have "quiet s1 s2" "cmds_grow s1 s2"
    using 2 quiet.dispatch_effect [OF quiet_emit_write] grown.dispatch_effect [OF emit_write_grow] grown.refl
    by (auto split: if_splits)
  then have K2: "buffers_inv s2 \<and> masters s2 = masters s1 \<and> low_same s1 s2" using K1 by (intro quiet_keeps) simp_all
  then have K3: "buffers_inv s3 \<and> masters s3 = masters s2 \<and> masterBufferAvail s3 = masterBufferAvail s2 \<and> bufferSize s3 = bufferSize s2 \<and>
    (\<forall>b. logs s3 b = (if b = a then map_option singleLog_clear (logs s2 a) else logs s2 b))"
    by (intro upd_log_keeps [OF _ 3]) (simp_all add: singleLog_clear_def)
  have alloc: "\<exists>l mem. logs s3 a = Some l \<and> hbase (buf l) = Some mem \<and> length mem = bufferSize s3 \<and> hlen (buf l) = bufferSize s3"
    using K1 K2 K3 a(2) l by (simp add: low_same_def singleLog_clear_def)
  have room: "a \<notin> set (masters s3)" "length (masters s3) < capacity (masterBufferAvail s3)"
    using K1 K2 K3 a by (simp_all add: low_same_def)
  then have "length (items (masterBufferAvail s3)) < capacity (masterBufferAvail s3)" by (simp add: masters_def del: length_items)
  with buffers_invD(4) [of s3] K3
  have Q: "circular_inv q \<and> capacity q = capacity (masterBufferAvail s3) \<and> items q = items (masterBufferAvail s3) @ [a]"
    using tw_add_room [of "masterBufferAvail s3" a] 4(1) by auto
  have inv3: "buffers_inv s3" using K3 by simp
  have ms: "mset (masters st') = add_mset a (mset (masters s3))" using Q by (simp add: masters_def 4(2))
  then have "distinct (masters st')" "set (masters st') = insert a (set (masters s3))" "length (masters st') = Suc (length (masters s3))"
    using inv3 room(1) mset_eq_setD [of "masters st'" "a # masters s3"] mset_eq_imp_distinct_iff [of "masters st'" "a # masters s3"]
      mset_eq_length [of "masters st'" "a # masters s3"]
    by (simp_all add: buffers_inv_def masters_ok_def)
  then show ?thesis
    using inv3 Q room(2) alloc a(2) unfolding buffers_inv_def masters_ok_def
    by (simp add: 4(2) high_def high_owner_def)
qed

text \<open>Every command.\<close>

lemma command_keeps:
  assumes inv: "buffers_inv st" and rm: "tw_removeMv internalCmdReq_moved (internalCmdQueue st) = (Some req, q)"
    and run: "handle_cmd clk got req (st\<lparr>internalCmdQueue := q\<rparr>) = Inr st'"
  shows "buffers_inv st'"
proof (cases "icmd req = NEW_LOG")
  case True
  note T = take_command [OF inv rm]
  obtain a where a: "icmd_aux req = Some a" "a \<in> set (masters st)" "masters st = items (masterBufferAvail st) @ a # queued_logs (items q)"
    using T(3) True by blast
  have ms: "masters (st\<lparr>internalCmdQueue := q\<rparr>) = items (masterBufferAvail st) @ queued_logs (items q)"
    by (simp add: masters_def)
  have ok: "distinct (masters st)" "length (masters st) \<le> capacity (masterBufferAvail st)" "\<forall>a \<in> set (masters st). a < N_MASTERS"
    using inv by (simp_all add: buffers_inv_def masters_ok_def)
  obtain l mem where l: "logs st a = Some l" "hbase (buf l) = Some mem" "length mem = bufferSize st" "hlen (buf l) = bufferSize st"
    using inv a(2) unfolding buffers_inv_def masters_ok_def by blast
  have "handle_NEW_LOG clk a (st\<lparr>internalCmdQueue := q\<rparr>) = Inr st'"
    using run True a(1) by (simp add: handle_cmd_def)
  from NEW_LOG_keeps [OF T(1) this, of l mem] show ?thesis
    using ok l a(2) unfolding ms by (simp add: a(3))
next
  case False
  note T = take_command [OF inv rm]
  have "quiet (st\<lparr>internalCmdQueue := q\<rparr>) st'"
    using run False T(2)
    by (auto simp: handle_cmd_def high_cmd_def dest: quiet_flush.ROTATE_effect quiet_flush.SHUTDOWN_effect quiet_OVERFLOW
        split: internalCommand.splits option.splits)
  moreover have "same_cmds (st\<lparr>internalCmdQueue := q\<rparr>) st'" using handle_cmd_grow [OF run] False by simp
  ultimately show ?thesis using calm_step_keeps [OF calm_stepI T(1)] by blast
qed


section \<open>From the constructor on\<close>

definition tlogger_new :: "(nat \<Rightarrow> u8) \<Rightarrow> u32 \<Rightarrow> nat \<Rightarrow> nat \<Rightarrow> tlogger res" where
  "tlogger_new jk sink0 buffer_size chunk_size =
     bindR (GreaseLogger_new jk sink0 buffer_size chunk_size) (\<lambda>l.
       Inr (logger.extend l
         \<lparr>infos = Map.empty, nextInfo = 0, readyData = \<lambda>_. None,
          targetCallbackQueue = new_circular MAX_TARGET_CALLBACK_STACK 0, asyncTargetRef = False,
          js_calls = [], sinks = [], threadStarted = False\<rparr>))"

lemma new_masters_ok:
  assumes "circular_inv (masterBufferAvail st)" "items (masterBufferAvail st) = [0..<nextLog st]"
    "nextLog st + length xs \<le> capacity (masterBufferAvail st)"
    "\<forall>a < nextLog st. logs st a = Some (singleLog_new (junk st) n)"
  shows "\<exists>q lg. foldR (new_master n) xs st = Inr (st\<lparr>masterBufferAvail := q, logs := lg, nextLog := nextLog st + length xs\<rparr>) \<and>
    circular_inv q \<and> capacity q = capacity (masterBufferAvail st) \<and> items q = [0..<nextLog st + length xs] \<and>
    (\<forall>a < nextLog st + length xs. lg a = Some (singleLog_new (junk st) n))"
  using assms
proof (induction xs arbitrary: st)
  case Nil
  then show ?case by (intro exI [of _ "masterBufferAvail st"] exI [of _ "logs st"]) simp
next
  case (Cons x xs)
  have "length (items (masterBufferAvail st)) < capacity (masterBufferAvail st)"
    using Cons.prems(2,3) by (simp del: length_items)
  then obtain q where q: "tw_add (nextLog st) (masterBufferAvail st) = Inr q" "circular_inv q"
    "capacity q = capacity (masterBufferAvail st)" "items q = items (masterBufferAvail st) @ [nextLog st]"
    using tw_add_room [OF Cons.prems(1), of "nextLog st"] by blast
  define st1 where "st1 = st\<lparr>logs := (logs st)(nextLog st \<mapsto> singleLog_new (junk st) n), nextLog := nextLog st + 1, masterBufferAvail := q\<rparr>"
  have one: "new_master n x st = Inr st1" using q(1) by (simp add: new_master_def new_log_def st1_def)
  have "\<exists>q lg. foldR (new_master n) xs st1 = Inr (st1\<lparr>masterBufferAvail := q, logs := lg, nextLog := nextLog st1 + length xs\<rparr>) \<and>
    circular_inv q \<and> capacity q = capacity (masterBufferAvail st1) \<and> items q = [0..<nextLog st1 + length xs] \<and>
    (\<forall>a < nextLog st1 + length xs. lg a = Some (singleLog_new (junk st1) n))"
    by (rule Cons.IH) (use Cons.prems q in \<open>auto simp: st1_def less_Suc_eq\<close>)
  then show ?case using q(3) by (auto simp: one st1_def)
qed

lemma tlogger_new_ok:
  "0 < n \<Longrightarrow> \<exists>st. tlogger_new jk sink0 n c = Inr st \<and> buffers_inv st \<and> items (masterBufferAvail st) = [0..<N_MASTERS] \<and>
     items (internalCmdQueue st) = [] \<and> bufferSize st = n \<and> tgts st = Map.empty \<and> targets st = [] \<and> defaultTarget st = None \<and>
     circular_inv (v8LogCallbacks st) \<and> items (v8LogCallbacks st) = []"
proof -
  assume n: "0 < n"
  define st0 where "st0 = owner.extend (owner_init jk n c)
      \<lparr>tgts = Map.empty, nextTgt = 0, targets = [], defaultTarget = None, defaultFilter = Filter_empty, nextTargetId = 1,
       nextSinkId = sink0, cmdHandlesClosed = False\<rparr>"
  have nl: "nextLog st0 = 0" by (simp add: st0_def owner.defs owner_init_def filters.defs no_filters_def)
  have s0: "circular_inv (masterBufferAvail st0)" "items (masterBufferAvail st0) = []"
    "capacity (masterBufferAvail st0) = N_MASTERS" "items (internalCmdQueue st0) = []" "circular_inv (internalCmdQueue st0)"
    "items (v8LogCallbacks st0) = []" "circular_inv (v8LogCallbacks st0)" "bufferSize st0 = n" "tgts st0 = Map.empty"
    "targets st0 = []" "defaultTarget st0 = None"
    by (simp_all add: st0_def owner.defs)
  obtain q lg where run: "foldR (new_master n) [0..<N_MASTERS] st0 = Inr (st0\<lparr>masterBufferAvail := q, logs := lg, nextLog := N_MASTERS\<rparr>)"
    and q: "circular_inv q" "capacity q = N_MASTERS" "items q = [0..<N_MASTERS]"
    "\<forall>a < N_MASTERS. lg a = Some (singleLog_new (junk st0) n)"
    using new_masters_ok [of st0 "[0..<N_MASTERS]" n] s0 nl by auto
  define st where "st = logger.extend (st0\<lparr>masterBufferAvail := q, logs := lg, nextLog := N_MASTERS\<rparr>)
     \<lparr>infos = Map.empty, nextInfo = 0, readyData = \<lambda>_. None, targetCallbackQueue = new_circular MAX_TARGET_CALLBACK_STACK 0,
      asyncTargetRef = False, js_calls = [], sinks = [], threadStarted = False\<rparr>"
  have made: "tlogger_new jk sink0 n c = Inr st"
    using run by (simp add: tlogger_new_def GreaseLogger_new_def st0_def [symmetric] st_def)
  have f: "masterBufferAvail st = q" "logs st = lg" "nextLog st = N_MASTERS" "internalCmdQueue st = internalCmdQueue st0"
    "v8LogCallbacks st = v8LogCallbacks st0" "bufferSize st = n" "tgts st = Map.empty" "targets st = []" "defaultTarget st = None"
    using s0(8-11) by (simp_all add: st_def logger.defs)
  have "masters st = [0..<N_MASTERS]" by (simp add: masters_def f q(3) s0(4) queued_logs_def map_filter_simps)
  moreover have "\<forall>a < N_MASTERS. \<exists>l. logs st a = Some l \<and> (\<exists>m. hbase (buf l) = Some m \<and> length m = n \<and> hlen (buf l) = n)"
    using q(4) n by (simp add: f singleLog_new_def heapBuf_new_def)
  moreover have "high st" using s0 by (simp add: high_def high_owner_def f)
  ultimately have "buffers_inv st"
    using q(1,2) s0(5,4) by (simp add: buffers_inv_def masters_ok_def f)
  with made show ?thesis using f q(3) s0(4,6,7) by auto
qed

section \<open>What holds in every reachable state\<close>

text \<open>The entry points for messages end in \<open>_log\<close>, or do nothing.\<close>

lemma log_kinds:
  shows "log_public f ext s len st = Inr (r, st') \<Longrightarrow> len \<le> length s \<Longrightarrow>
      st' = st \<or> (\<exists>m ext s l r. l \<le> length s \<and> log_internal m ext s l st = Inr (r, st'))"
    "Log num info (ig, st) = Inr (ig', st') \<Longrightarrow>
      st' = st \<or> (\<exists>m ext s l r. l \<le> length s \<and> log_internal m ext s l st = Inr (r, st'))"
proof -
  show "log_public f ext s len st = Inr (r, st') \<Longrightarrow> len \<le> length s \<Longrightarrow>
      st' = st \<or> (\<exists>m ext s l r. l \<le> length s \<and> log_internal m ext s l st = Inr (r, st'))"
    by (auto simp: log_public_def split: if_splits prod.splits bool.splits)
  show "Log num info (ig, st) = Inr (ig', st') \<Longrightarrow>
      st' = st \<or> (\<exists>m ext s l r. l \<le> length s \<and> log_internal m ext s l st = Inr (r, st'))"
    unfolding Log_def Let_def
    by (auto simp: bindR_eq_Inr split: if_splits prod.splits bool.splits option.splits)
qed

lemma fromRaw_kinds:
  assumes "logFromRaw base len st = Inr (r, st')" "len \<le> length base"
  shows "st' = st \<or> (\<exists>m ext s l r. l \<le> length s \<and> log_internal m ext s l st = Inr (r, st'))"
proof -
  have "len - SIZEOF_LOGMETA \<le> length (drop SIZEOF_LOGMETA base)" using assms(2) by simp
  then show ?thesis
    using assms(1) unfolding logFromRaw_def logP_def Let_def
    by (elim taken_apart) (auto split: if_splits bool.splits prod.splits simp: bindR_eq_Inr)
qed

text \<open>Eight kinds of steps: each invariant is shown for these.\<close>

lemma step_kinds:
  assumes "logger_step st st'"
  obtains (logged) m ext s l r where "l \<le> length s" "log_internal m ext s l st = Inr (r, st')"
  | (command) req q clk got where "tw_removeMv internalCmdReq_moved (internalCmdQueue st) = (Some req, q)"
      "handle_cmd clk got req (st\<lparr>internalCmdQueue := q\<rparr>) = Inr st'"
  | (set_up) "set_up st st'"
  | (external) "st' = handleExternalCmd st"
  | (completed) a i where "with_target a (write_cb a i) st = Inr st' \<or> with_target a (write_overflow_cb a) st = Inr st'"
  | (flushed) info where "flushTimer_cb st = Inr st' \<or> Flush info st = Inr st'"
  | (v8) "callV8LogCallbacks st = Inr st'"
  | (shut) "st' = shutdown st"
  using assms
proof cases
  case log then show thesis using log_kinds(1) set_up that by (metis set_up_refl)
next
  case raw then show thesis using fromRaw_kinds set_up that by (metis set_up_refl)
next
  case js_log then show thesis using log_kinds(2) set_up that by (metis set_up_refl)
next
  case command then show thesis by (rule that(2))
next
  case external then show thesis by (rule that(4))
next
  case shut then show thesis by (rule that(8))
qed (unfold DisableTarget_def EnableTarget_def, (blast intro: that(5-7) that(3) dest: set_ups)+)

lemma calm_Flush: "Flush info st = Inr st' \<Longrightarrow> calm_step st st'"
  unfolding calm_step_def by (simp add: quiet_flush.Flush_effect same_cmds_grow [OF kept_flush.Flush_effect])

lemma calm_external: "calm_step st (handleExternalCmd st)"
  by (rule calm_stepI) (simp_all add: external_simps same_cmds_def)

lemma calm_shutdown: "calm_step st (shutdown st)"
proof -
  define c where "c = internalCmdReq_new INTERNAL_SHUTDOWN 0"
  obtain k d q where add: "tw_addMvIfRoom internalCmdReq_moved c (internalCmdQueue st) = (k, d, q)"
    using prod_cases3 by blast
  have s: "shutdown st = uv_async_send asyncInternalCommand (st\<lparr>internalCmdQueue := q\<rparr>)"
    using add by (simp add: shutdown_def c_def)
  have "calm st (st\<lparr>internalCmdQueue := q\<rparr>)"
    by (rule calm_put_cmd [OF add]) (simp add: high_cmd_def c_def internalCmdReq_new_def)
  then have "quiet st (shutdown st)" unfolding s by (intro quiet_calm) (simp, simp add: uv_async_send_def)
  moreover have "cmds_grow st (st\<lparr>internalCmdQueue := q\<rparr>)"
    by (rule cmds_grow_put [OF add]) (simp add: c_def internalCmdReq_new_def)
  ultimately show ?thesis by (simp add: calm_step_def s cmds_grow_def uv_async_send_def)
qed

lemma log_internal_returns:
  assumes inv: "buffers_inv st" and len: "len \<le> length s"
  shows "\<exists>st'. log_internal m ext s len st = Inr (GREASE_OK, st')"
proof (cases "len > bufferSize st")
  case True
  define b where "b = buf (singleLog_new (junk st) (min len MAX_LOG_MESSAGE_SIZE))"
  have b: "heapBuf_wf b" "hbase b = Some (malloc_block (junk st) (min len MAX_LOG_MESSAGE_SIZE))" "hlen b = min len MAX_LOG_MESSAGE_SIZE"
    using True by (auto simp: b_def singleLog_new_def heapBuf_new_def heapBuf_wf_def MAX_LOG_MESSAGE_SIZE_def)
  have "length OVERFLOW_ENDING \<le> hlen b" if "len > hlen b"
    using that by (simp add: b(3) OVERFLOW_ENDING_def MAX_LOG_MESSAGE_SIZE_def)
  then obtain x b' where "heapBuf_memcpy s len (Some OVERFLOW_ENDING) b = Inr (x, b')"
    using heapBuf_memcpy_fits [OF b(1,2), of len s OVERFLOW_ENDING]
      heapBuf_memcpy_truncates [OF b(1,2), of len s OVERFLOW_ENDING] len by force
  then show ?thesis using True by (auto simp: log_internal_def b_def Let_def split: prod.split)
next
  case False
  then show ?thesis using log_internal_fits [OF buffers_invD(1) [OF inv] _ len, of m ext] by auto
qed

lemma step_keeps:
  assumes "logger_step st st'" and inv: "buffers_inv st"
  shows "buffers_inv st'"
  using assms(1)
proof (cases rule: step_kinds)
  case (logged m ext s l r)
  then show ?thesis by (intro log_internal_keeps [OF inv])
next
  case (command req q clk got)
  then show ?thesis by (rule command_keeps [OF inv])
next
  case set_up
  show ?thesis by (rule calm_step_keeps [OF calm_set_up [OF set_up] inv])
next
  case external
  show ?thesis unfolding external by (rule calm_step_keeps [OF calm_external inv])
next
  case (completed a i)
  then show ?thesis using calm_completions(1,2) calm_step_keeps inv by blast
next
  case (flushed info)
  then have "calm_step st st'" using calm_Flush calm_flush_and_V8(1) by (auto simp: flushTimer_cb_def)
  then show ?thesis by (rule calm_step_keeps [OF _ inv])
next
  case v8
  show ?thesis by (rule calm_step_keeps [OF calm_flush_and_V8(2) [OF v8] inv])
next
  case shut
  show ?thesis unfolding shut by (rule calm_step_keeps [OF calm_shutdown inv])
qed

lemma run_keeps: "logger_run st st' \<Longrightarrow> buffers_inv st \<Longrightarrow> buffers_inv st'"
  by (induction rule: logger_run.induct) (auto intro: step_keeps)

lemma reachable_inv:
  assumes "0 < n" "tlogger_new jk sink0 n c = Inr st0" "logger_run st0 st"
  shows "buffers_inv st"
proof -
  have "buffers_inv st0" using tlogger_new_ok [OF assms(1), of jk sink0 c] assms(2) by auto
  then show ?thesis by (rule run_keeps [OF assms(3)])
qed

text \<open>C3 Whatever is done with a logger made by the constructor, in whatever order (messages logged from
  JavaScript, from a client or from C++, commands handled, writes completed, timers, callbacks, filters, targets and
  sinks added, shutdown), as long as no step faults: no buffer is ever both free and carried by a queued \<open>NEW_LOG\<close>, none is free or carried
  twice, each of them is one of the hundred the constructor made and still has its memory, and the free list
  always has room to take every one back.\<close>

theorem reachable_buffers:
  assumes "0 < n" "tlogger_new jk sink0 n c = Inr st0" "logger_run st0 st"
  shows "distinct (items (masterBufferAvail st) @ queued_logs (items (internalCmdQueue st))) \<and>
    (\<forall>a \<in> set (items (masterBufferAvail st) @ queued_logs (items (internalCmdQueue st))).
       a < PRIMARY_BUFFER_ENTRIES \<and>
       (\<exists>l mem. logs st a = Some l \<and> hbase (buf l) = Some mem \<and> length mem = bufferSize st)) \<and>
    length (items (masterBufferAvail st)) + length (queued_logs (items (internalCmdQueue st))) \<le> capacity (masterBufferAvail st)"
  using reachable_inv [OF assms] unfolding buffers_inv_def masters_ok_def masters_def length_append
  by (intro conjI ballI; (elim conjE)?; blast)

lemma public_returns:
  "buffers_inv st \<Longrightarrow> len \<le> length s \<Longrightarrow> \<exists>st'. log_public f ext s len st =
    Inr (if len > GREASE_MAX_MESSAGE_SIZE then GREASE_OVERFLOW else GREASE_OK, st')"
  using log_internal_returns by (auto simp: log_public_def split: prod.split bool.split)


section \<open>Concrete instances\<close>

text \<open>A new logger with buffers of 100 bytes, and the state after one message.\<close>

lemma demo_logged:
  obtains st0 st1 where "tlogger_new (\<lambda>_. 0) 0 100 1500 = Inr st0" "logger_run st0 st1"
    "log_public noMetaData [] [65, 66] 2 st0 = Inr (GREASE_OK, st1)"
proof -
  obtain st0 where st0: "tlogger_new (\<lambda>_. 0) 0 100 1500 = Inr st0" "buffers_inv st0"
    using tlogger_new_ok [of 100 "\<lambda>_. 0" 0 1500] by auto
  obtain st1 where st1: "log_public noMetaData [] [65, 66] 2 st0 = Inr (GREASE_OK, st1)"
    using public_returns [OF st0(2), of 2 "[65, 66]" noMetaData "[]"] by (auto simp: GREASE_MAX_MESSAGE_SIZE_def)
  have "logger_step st0 st1" by (rule logger_step.log [OF _ st1]) simp
  then show ?thesis using that st0 st1 logger_run.intros by blast
qed


lemma reachable_buffers_witness:
  "\<exists>st0 st1. tlogger_new (\<lambda>_. 0) 0 100 1500 = Inr st0 \<and> log_public noMetaData [] [65, 66] 2 st0 = Inr (GREASE_OK, st1) \<and>
     distinct (items (masterBufferAvail st1) @ queued_logs (items (internalCmdQueue st1)))"
proof -
  obtain st0 st1 where d: "tlogger_new (\<lambda>_. 0) 0 100 1500 = Inr st0" "logger_run st0 st1"
    "log_public noMetaData [] [65, 66] 2 st0 = Inr (GREASE_OK, st1)" by (rule demo_logged)
  show ?thesis using reachable_buffers [OF _ d(1,2)] d by simp
qed

end
