(* ===== verification/Spread.thy ===== *)
theory Spread
  imports CommandLoop "HOL-Library.Multiset"
begin

text \<open>
  Where the banks of a target are, whatever the target does: current, available, queued for
  write-out, in flight, or waiting for the JavaScript callback. Unlike \<open>tgt_inv\<close> the
  invariant here says nothing of delimiters and sizes, and so holds in every state.
\<close>

section \<open>One target\<close>

definition spread :: "nat list \<Rightarrow> logTarget \<Rightarrow> bool" where
  "spread cbs t \<longleftrightarrow> length (banks t) = NUM_BANKS \<and>
     circular_inv (availBuffers t) \<and> capacity (availBuffers t) = NUM_BANKS \<and>
     circular_inv (writeOutBuffers t) \<and> capacity (writeOutBuffers t) = NUM_BANKS - 1 \<and>
     mset (places cbs t) = mset [0..<NUM_BANKS] \<and>
     (\<forall>b \<in> set (items (availBuffers t)). llen (bank t b) = 0) \<and>
     (\<forall>b \<in> set (items (writeOutBuffers t)). 0 < llen (bank t b))"

lemma tgt_inv_spread: "tgt_inv cbs t \<Longrightarrow> spread cbs t"
proof -
  assume inv: "tgt_inv cbs t"
  have "set (places cbs t) = set [0..<NUM_BANKS]" by (simp only: set_upt atLeast0LessThan tgt_invD(7) [OF inv])
  then have "mset (places cbs t) = mset [0..<NUM_BANKS]"
    using set_eq_iff_mset_eq_distinct [OF tgt_invD(6) [OF inv] distinct_upt] by blast
  then show ?thesis using tgt_invD [OF inv] by (simp add: spread_def del: mset_upt)
qed

lemma spread_cong:
  assumes "spread cbs t" "availBuffers t' = availBuffers t" "writeOutBuffers t' = writeOutBuffers t"
    "banks t' = banks t" "mset (currentBuffer t' # map fst (inflight t') @ cbs') = mset (currentBuffer t # map fst (inflight t) @ cbs)"
  shows "spread cbs' t'"
proof -
  have "bank t' = bank t" by (rule ext) (simp add: bank_def assms(4))
  moreover have "mset (places cbs' t') = mset (places cbs t)" using assms(2,3,5) by (simp add: places_def)
  ultimately show ?thesis using assms(1) by (simp add: spread_def assms(2-4))
qed

lemma spread_distinct: "spread cbs t \<Longrightarrow> distinct (places cbs t)" "spread cbs t \<Longrightarrow> length (places cbs t) = NUM_BANKS"
  "spread cbs t \<Longrightarrow> b \<in> set (places cbs t) \<Longrightarrow> b < length (banks t)"
  unfolding spread_def
  using mset_eq_imp_distinct_iff [of "places cbs t" "[0..<NUM_BANKS]"] mset_eq_length [of "places cbs t" "[0..<NUM_BANKS]"]
    mset_eq_setD [of "places cbs t" "[0..<NUM_BANKS]"] by auto

text \<open>Emptying or filling a bank that is in neither queue.\<close>

lemma spread_set_bank:
  assumes s: "spread cbs t" and b: "b = currentBuffer t \<or> b \<in> set (map fst (inflight t) @ cbs)"
  shows "spread cbs (set_bank b x t)"
proof -
  note D = spread_distinct [OF s]
  have "b \<notin> set (items (availBuffers t))" "b \<notin> set (items (writeOutBuffers t))" "b \<in> set (places cbs t)"
    using D(1) b by (auto simp: places_def)
  then show ?thesis
    using s D(3) by (auto simp: spread_def bank_set_bank places_def set_bank_def [of b x t, THEN arg_cong [where f = banks]])
qed

lemma give_back_spread:
  assumes s: "spread (b # cbs) t" and run: "give_back b t = Inr t'"
  shows "spread cbs t'"
proof -
  define t1 where "t1 = clear_bank b t"
  have s1: "spread (b # cbs) t1" unfolding t1_def clear_bank_def by (rule spread_set_bank [OF s]) simp
  have e: "llen (bank t1 b) = 0"
    using spread_distinct(3) [OF s, of b] by (simp add: t1_def clear_bank_def bank_set_bank places_def logBuf_clear_def)
  obtain q where q: "tw_add b (availBuffers t1) = Inr q" "t' = t1\<lparr>availBuffers := q\<rparr>"
    using run by (auto simp: give_back_def t1_def [symmetric] bindR_eq_Inr Let_def)
  have "circular_inv q" "capacity q = capacity (availBuffers t1)" "items q = items (availBuffers t1) @ [b]"
    using s1 q(1) tw_addIfRoom_spec [OF _ prod.collapse [symmetric], of "availBuffers t1" b]
    by (auto simp: spread_def tw_add_eq split: prod.splits bool.splits)
  moreover have "bank t' = bank t1" by (simp add: q(2) bank_def fun_eq_iff)
  ultimately show ?thesis using s1 e by (auto simp: spread_def q(2) places_def)
qed

lemma finalize_is_give_back:
  assumes s: "spread (b # cbs) t"
  shows "give_back b t = Inr (finalizeV8Callback b t)"
proof -
  define t1 where "t1 = clear_bank b t"
  have s1: "spread (b # cbs) t1" unfolding t1_def clear_bank_def by (rule spread_set_bank [OF s]) simp
  have "length (items (availBuffers t1)) < capacity (availBuffers t1)"
    using spread_distinct(2) [OF s1] s1 by (simp add: places_def spread_def del: length_items)
  then obtain q where "tw_addIfRoom b (availBuffers t1) = (True, q)"
    using s1 tw_addIfRoom_spec [OF _ prod.collapse [symmetric], of "availBuffers t1" b]
    unfolding spread_def by (metis (full_types) prod.collapse)
  then show ?thesis
    by (simp add: give_back_def finalizeV8Callback_def t1_def [symmetric] Let_def tw_add_eq)
qed

lemma rotate_bank_spread:
  assumes s: "spread cbs t"
  shows "spread cbs (snd (rotate_bank t))"
proof (cases "0 < llen (current t)")
  case True
  have Q: "circular_inv (availBuffers t)" "circular_inv (writeOutBuffers t)" using s by (simp_all add: spread_def)
  obtain x av where rm: "tw_remove (availBuffers t) = (x, av)" by (cases "tw_remove (availBuffers t)")
  note R = tw_remove_spec [OF Q(1) rm]
  show ?thesis
  proof (cases x)
    case None
    then have "av = availBuffers t" using R by (auto split: list.splits)
    then show ?thesis
      using True None rm spread_set_bank [OF s, of "currentBuffer t"] by (simp add: rotate_bank_def clear_bank_def)
  next
    case (Some nxt)
    then have av: "items (availBuffers t) = nxt # items av" using R by (auto split: list.splits)
    have "length (items (writeOutBuffers t)) < capacity (writeOutBuffers t)"
      using spread_distinct(2) [OF s] s av by (simp add: places_def spread_def del: length_items)
    then obtain wo where wo: "tw_addIfRoom (currentBuffer t) (writeOutBuffers t) = (True, wo)"
      "circular_inv wo" "capacity wo = capacity (writeOutBuffers t)" "items wo = items (writeOutBuffers t) @ [currentBuffer t]"
      using tw_addIfRoom_spec [OF Q(2) prod.collapse [symmetric], of "currentBuffer t"]
      by (metis (full_types) prod.collapse)
    have t': "snd (rotate_bank t) = t\<lparr>availBuffers := av, writeOutBuffers := wo, currentBuffer := nxt\<rparr>"
      using True Some rm wo(1) by (simp add: rotate_bank_def)
    have "bank (snd (rotate_bank t)) = bank t" by (simp add: t' bank_def fun_eq_iff)
    then show ?thesis
      using s R wo av True by (auto simp: spread_def t' places_def current_def add_mset_commute)
  qed
qed (simp add: rotate_bank_def s)

section \<open>A target and the queue of callbacks\<close>

text \<open>The banks \<open>bs\<close> of target \<open>ta\<close> are on their way, all others are in their places; what waits for
  the callback has one to wait for.\<close>

definition holds :: "nat list \<Rightarrow> nat \<Rightarrow> 'z owner_scheme \<Rightarrow> logTarget \<Rightarrow> bool" where
  "holds bs ta ow t \<longleftrightarrow> circular_inv (v8LogCallbacks ow) \<and> spread (bs @ cb_banks ta ow) t \<and>
     (logCallbackSet t \<or> cb_banks ta ow \<noteq> [] \<longrightarrow> logCallback t \<noteq> None)"

text \<open>What an operation on \<open>ta\<close> leaves alone.\<close>

definition others :: "nat \<Rightarrow> 'z owner_scheme \<Rightarrow> logTarget \<Rightarrow> 'z owner_scheme \<Rightarrow> logTarget \<Rightarrow> bool" where
  "others ta ow t ow' t' \<longleftrightarrow> (\<forall>tb. tb \<noteq> ta \<longrightarrow> cb_banks tb ow' = cb_banks tb ow) \<and> myId t' = myId t"

definition banked :: "nat \<Rightarrow> 'z owner_scheme \<Rightarrow> logTarget \<Rightarrow> 'z owner_scheme \<Rightarrow> logTarget \<Rightarrow> bool" where
  "banked ta ow t ow' t' \<longleftrightarrow> (holds [] ta ow t \<longrightarrow> holds [] ta ow' t' \<and> others ta ow t ow' t')"

lemma banked_refl [simp]: "banked ta ow t ow t"
  by (simp add: banked_def others_def)

lemma banked_trans: "banked ta ow t ow1 t1 \<Longrightarrow> banked ta ow1 t1 ow' t' \<Longrightarrow> banked ta ow t ow' t'"
  by (simp add: banked_def others_def)

lemma others_trans: "others ta ow t ow1 t1 \<Longrightarrow> others ta ow1 t1 ow' t' \<Longrightarrow> others ta ow t ow' t'"
  by (simp add: others_def)

text \<open>Only the queue of callbacks matters of the owner, and only a few fields of the target.\<close>

lemma holds_cong:
  assumes "holds bs ta ow t" "v8LogCallbacks ow' = v8LogCallbacks ow" "availBuffers t' = availBuffers t"
    "writeOutBuffers t' = writeOutBuffers t" "banks t' = banks t" "logCallbackSet t' = logCallbackSet t" "logCallback t' = logCallback t"
    "mset (currentBuffer t' # map fst (inflight t') @ bs') = mset (currentBuffer t # map fst (inflight t) @ bs)"
  shows "holds bs' ta ow' t'"
proof -
  have c: "cb_banks ta ow' = cb_banks ta ow" by (simp add: cb_banks_def assms(2))
  have "spread (bs @ cb_banks ta ow) t" using assms(1) by (simp add: holds_def)
  then have "spread (bs' @ cb_banks ta ow) t'"
    by (rule spread_cong) (use assms(3-5,8) in \<open>simp_all add: union_assoc [symmetric]\<close>)
  then show ?thesis using assms(1,2,6,7) by (simp add: holds_def c)
qed

lemma others_same: "v8LogCallbacks ow' = v8LogCallbacks ow \<Longrightarrow> myId t' = myId t \<Longrightarrow> others ta ow t ow' t'"
  by (simp add: others_def cb_banks_def)

lemma banked_same:
  assumes "v8LogCallbacks ow' = v8LogCallbacks ow" "availBuffers t' = availBuffers t"
    "writeOutBuffers t' = writeOutBuffers t" "banks t' = banks t" "logCallbackSet t' = logCallbackSet t" "logCallback t' = logCallback t"
    "currentBuffer t' = currentBuffer t" "inflight t' = inflight t" "myId t' = myId t"
  shows "banked ta ow t ow' t'"
  using assms holds_cong [of "[]" ta ow t ow' t' "[]"] others_same [of ow' ow t' t ta] by (simp add: banked_def)

named_theorems bankeds \<open>operations that keep every bank in its place\<close>

text \<open>The queue grows by a callback, or loses its first.\<close>

lemma cb_banks_put:
  assumes "tw_addMvIfRoom writeCBData_moved d (v8LogCallbacks ow) = (r, d', q)" "circular_inv (v8LogCallbacks ow)"
  shows "circular_inv q"
    "cb_banks ta (ow\<lparr>v8LogCallbacks := q\<rparr>) = cb_banks ta ow @ (if r then (case cb_bank ta d of Some b \<Rightarrow> [b] | None \<Rightarrow> []) else [])"
proof -
  have "tw_addIfRoom d (v8LogCallbacks ow) = (r, q)"
    using assms(1) by (auto simp: tw_addMvIfRoom_eq Let_def split: prod.splits)
  from tw_addIfRoom_spec [OF assms(2) this]
  show "circular_inv q"
    "cb_banks ta (ow\<lparr>v8LogCallbacks := q\<rparr>) = cb_banks ta ow @ (if r then (case cb_bank ta d of Some b \<Rightarrow> [b] | None \<Rightarrow> []) else [])"
    by (simp_all add: cb_banks_def map_filter_snoc)
qed

lemma v8_same [simp]:
  "v8LogCallbacks (uv_async_send h ow) = v8LogCallbacks ow" "v8LogCallbacks (refFromV8 ow) = v8LogCallbacks ow"
  "v8LogCallbacks (refGreaseInGrease ow) = v8LogCallbacks ow" "v8LogCallbacks (delete_log a ow) = v8LogCallbacks ow"
  by (simp_all add: uv_async_send_def refFromV8_def refGreaseInGrease_def startFlushTimer_def delete_log_def Let_def)

lemma cb_banks_same [simp]:
  "cb_banks ta (uv_async_send h ow) = cb_banks ta ow" "cb_banks ta (refFromV8 ow) = cb_banks ta ow"
  by (simp_all add: cb_banks_def)

lemma give_back_holds:
  assumes h: "holds (b # bs) ta ow t" and run: "give_back b t = Inr t'"
  shows "holds bs ta ow t' \<and> others ta ow t ow t'"
proof -
  have "logCallback t' = logCallback t" "logCallbackSet t' = logCallbackSet t" "myId t' = myId t"
    using run by (auto simp: give_back_def clear_bank_def bindR_eq_Inr set_bank_def Let_def)
  then show ?thesis using h give_back_spread [OF _ run] by (simp add: holds_def others_def)
qed

lemma doV8Callback_holds:
  assumes run: "doV8Callback d ow t = Inr (ow', t')"
    and h: "case wb d of Some b \<Rightarrow> holds (b # bs) ta ow t | None \<Rightarrow> holds bs ta ow t"
  shows "holds bs ta ow' t' \<and> others ta ow t ow' t'"
proof (cases "wb d")
  case (Some b)
  define t1 where "t1 = t\<lparr>delivered := delivered t @ [logBuf_text (bank t b)]\<rparr>"
  have r: "ow' = ow" "t' = finalizeV8Callback b t1" using run Some by (simp_all add: doV8Callback_def t1_def)
  have h1: "holds (b # bs) ta ow t1" using h Some by (auto elim: holds_cong simp: t1_def)
  then have "give_back b t1 = Inr t'" using finalize_is_give_back [of b "bs @ cb_banks ta ow" t1] by (simp add: holds_def r)
  then show ?thesis using give_back_holds [OF h1] r(1) by (simp add: others_def t1_def)
next
  case None
  then have "v8LogCallbacks ow' = v8LogCallbacks ow" "t' = t \<or> (\<exists>x. t' = t\<lparr>delivered := x\<rparr>)"
    using run by (auto simp: doV8Callback_def bindR_eq_Inr dest: delete_overflow_v8 split: option.splits)
  moreover from this None h have "holds bs ta ow' t'" by (auto elim!: holds_cong)
  ultimately show ?thesis by (auto intro: others_same)
qed

lemma returnBuffer_holds:
  assumes run: "returnBuffer ta b sync nocb ow t = Inr (ow', t')" and h: "holds [b] ta ow t"
  shows "holds [] ta ow' t' \<and> others ta ow t ow' t'"
proof -
  obtain ow1 where 1: "(if \<not> logBuf_isEmpty (bank t b) then unrefGreaseInGrease ow else Inr ow) = Inr ow1"
    using run by (auto simp: returnBuffer_def bindR_eq_Inr Let_def)
  have v1: "v8LogCallbacks ow1 = v8LogCallbacks ow" using 1 by (auto split: if_splits dest: unrefGrease_frame)
  have h1: "holds [b] ta ow1 t" by (rule holds_cong [OF h v1]) simp_all
  have o1: "others ta ow t ow1 t" by (rule others_same [OF v1]) simp
  define C where "C \<longleftrightarrow> \<not> nocb \<and> logCallbackSet t \<and> \<not> logBuf_isEmpty (bank t b)"
  obtain r d q where add: "tw_addMvIfRoom writeCBData_moved (writeCBData_new ta b) (v8LogCallbacks ow1) = (r, d, q)"
    using prod_cases3 by blast
  have "(if C then if sync then doV8Callback (writeCBData_new ta b) ow1 t
      else if r then Inr (uv_async_send asyncV8LogCallback (refFromV8 (ow1\<lparr>v8LogCallbacks := q\<rparr>)), t)
      else bindR (give_back b t) (\<lambda>t. Inr (ow1, t))
    else bindR (give_back b t) (\<lambda>t. Inr (ow1, t))) = Inr (ow', t')"
    using run unfolding returnBuffer_def Let_def 1 bindR_simps add C_def prod.case by (cases r) (simp_all only: bool.case if_True if_False)
  then consider (returned) "ow' = ow1" "give_back b t = Inr t'"
    | (sync) "doV8Callback (writeCBData_new ta b) ow1 t = Inr (ow', t')"
    | (queued) "C" "r" "t' = t" "ow' = uv_async_send asyncV8LogCallback (refFromV8 (ow1\<lparr>v8LogCallbacks := q\<rparr>))"
    by (cases C; cases sync; cases r) (auto simp: bindR_eq_Inr)
  then have "holds [] ta ow' t' \<and> others ta ow1 t ow' t'"
  proof cases
    case returned
    then show ?thesis using give_back_holds [OF h1] by simp
  next
    case sync
    then show ?thesis by (rule doV8Callback_holds) (simp add: writeCBData_new_def h1)
  next
    case queued
    have c: "circular_inv (v8LogCallbacks ow1)" using h1 by (simp add: holds_def)
    have "cb_banks tb ow' = cb_banks tb ow1 @ (if tb = ta then [b] else [])" for tb
      using cb_banks_put(2) [OF add c, of tb] queued(2) by (simp add: queued(4) cb_bank_def writeCBData_new_def)
    moreover have "circular_inv (v8LogCallbacks ow')" using cb_banks_put(1) [OF add c] by (simp add: queued(4))
    moreover have "spread ([] @ cb_banks ta ow1 @ [b]) t" using h1 by (auto simp: holds_def elim!: spread_cong)
    ultimately show ?thesis using h1 queued(1,3) by (simp add: holds_def others_def C_def)
  qed
  then show ?thesis using o1 others_trans by blast
qed

lemma callbacks_put_no_bank:
  assumes "tw_addMvIfRoom writeCBData_moved (newAsOverflow ta w) (v8LogCallbacks ow) = (r, d, q)"
  shows "banked ta ow t (ow\<lparr>v8LogCallbacks := q\<rparr>) t" "wb d = None"
proof -
  show "banked ta ow t (ow\<lparr>v8LogCallbacks := q\<rparr>) t"
    using cb_banks_put [OF assms] by (auto simp: banked_def holds_def others_def cb_bank_def newAsOverflow_def)
  show "wb d = None" using assms by (auto simp: tw_addMvIfRoom_eq Let_def newAsOverflow_def writeCBData_moved_def split: prod.splits)
qed

lemma banked_owner: "v8LogCallbacks ow' = v8LogCallbacks ow \<Longrightarrow> banked ta ow t ow' t"
  by (rule banked_same) simp_all

lemma delete_data_v8: "writeCBData_delete d ow = Inr ow' \<Longrightarrow> v8LogCallbacks ow' = v8LogCallbacks ow"
  by (auto simp: writeCBData_delete_def dest: delete_overflow_v8 split: option.splits)

lemma returnBuffer_overflow_banked [bankeds]:
  assumes run: "returnBuffer_overflow ta w sync nocb ow t = Inr (ow', t')"
  shows "banked ta ow t ow' t'"
proof -
  obtain ow1 where 1: "unrefGreaseInGrease ow = Inr ow1" using run by (auto simp: returnBuffer_overflow_def bindR_eq_Inr)
  have b1: "banked ta ow t ow1 t" by (rule banked_owner) (rule unrefGrease_frame(1) [OF 1])
  obtain r d q where q: "tw_addMvIfRoom writeCBData_moved (newAsOverflow ta w) (v8LogCallbacks ow1) = (r, d, q)"
    by (cases "tw_addMvIfRoom writeCBData_moved (newAsOverflow ta w) (v8LogCallbacks ow1)")
  note Q = callbacks_put_no_bank [OF q]
  consider (plain) "delete_overflow w ow1 = Inr ow'" "t' = t"
    | (async) "writeCBData_delete d (uv_async_send asyncV8LogCallback (refFromV8 (ow1\<lparr>v8LogCallbacks := q\<rparr>))) = Inr ow'" "t' = t"
    | (sync) "doV8Callback d (ow1\<lparr>v8LogCallbacks := q\<rparr>) t = Inr (ow', t')"
    using run q by (auto simp: returnBuffer_overflow_def 1 bindR_eq_Inr Let_def split: if_splits)
  then have "banked ta ow1 t ow' t'"
  proof cases
    case plain
    then show ?thesis using banked_owner delete_overflow_v8 by blast
  next
    case async
    then have "v8LogCallbacks ow' = v8LogCallbacks (ow1\<lparr>v8LogCallbacks := q\<rparr>)" using delete_data_v8 [OF async(1)] by simp
    then show ?thesis using banked_trans [OF Q(1) banked_owner] async(2) by simp
  next
    case sync
    have "banked ta (ow1\<lparr>v8LogCallbacks := q\<rparr>) t ow' t'"
      using doV8Callback_holds [OF sync, of "[]" ta] Q(2) by (simp add: banked_def)
    then show ?thesis using banked_trans [OF Q(1)] by blast
  qed
  then show ?thesis using banked_trans [OF b1] by blast
qed

section \<open>The operations of a target\<close>

lemma device_fields [simp]:
  "myId (put_out s t) = myId t" "myId (file_upd u t) = myId t" "logCallback (put_out s t) = logCallback t"
  "logCallback (file_upd u t) = logCallback t"
  by (simp_all add: put_out_def file_upd_def split: targetKind.split)

lemma file_upd_fields [simp]:
  "writeOutBuffers (file_upd u t) = writeOutBuffers t" "availBuffers (file_upd u t) = availBuffers t"
  "inflight (file_upd u t) = inflight t" "currentBuffer (file_upd u t) = currentBuffer t"
  "banks (file_upd u t) = banks t" "logCallbackSet (file_upd u t) = logCallbackSet t"
  by (simp_all add: file_upd_def split: targetKind.split)

lemma file_check_fields: "file_check sz t = Inr t' \<Longrightarrow> myId t' = myId t \<and> logCallback t' = logCallback t"
  by (auto simp: file_check_def bindR_eq_Inr split: targetKind.splits)

lemma file_check_holds:
  assumes "file_check sz t = Inr t'" "holds bs ta ow t"
  shows "holds bs ta ow t'"
  by (rule holds_cong [OF assms(2)]) (use file_check_queues [OF assms(1)] file_check_fields [OF assms(1)] in simp_all)

text \<open>A bank taken out of the write-out queue is on its way; handed to the device it is in flight.\<close>

lemma take_bank_holds:
  assumes h: "holds [] ta ow t" and rm: "tw_remove (writeOutBuffers t) = (x, q)"
  shows "holds (case x of Some b \<Rightarrow> [b] | None \<Rightarrow> []) ta ow (t\<lparr>writeOutBuffers := q\<rparr>)"
proof -
  have s: "spread (cb_banks ta ow) t" using h by (simp add: holds_def)
  then have "circular_inv (writeOutBuffers t)" by (simp add: spread_def)
  note R = tw_remove_spec [OF this rm]
  have "bank (t\<lparr>writeOutBuffers := q\<rparr>) = bank t" by (simp add: bank_def fun_eq_iff)
  then have "spread ((case x of Some b \<Rightarrow> [b] | None \<Rightarrow> []) @ cb_banks ta ow) (t\<lparr>writeOutBuffers := q\<rparr>)"
    using s R by (cases "items (writeOutBuffers t)") (auto simp: spread_def places_def)
  then show ?thesis using h by (simp add: holds_def)
qed

lemma flush_bank_holds:
  assumes run: "flush_bank ta b nocb ow t = Inr (ow', t')" and h: "holds [b] ta ow t"
  shows "holds [] ta ow' t' \<and> others ta ow t ow' t'"
proof (cases "tkind t")
  case CALLBACK
  then have "returnBuffer ta b False nocb ow t = Inr (ow', t')" using run by (simp add: flush_bank_def)
  then show ?thesis by (rule returnBuffer_holds [OF _ h])
next
  case TTY
  then have r: "ow' = ow" "t' = (put_out (logBuf_text (bank t b)) t)\<lparr>inflight := inflight t @ [(b, nocb)]\<rparr>"
    using run by (simp_all add: flush_bank_def)
  have "holds [] ta ow t'" by (rule holds_cong [OF h]) (simp_all add: r)
  then show ?thesis by (simp add: r(1) others_def) (simp add: r(2))
next
  case (FILE ft)
  define t1 where "t1 = file_upd (\<lambda>ft. ft\<lparr>current_size := current_size ft + word_of_nat (llen (bank t b)),
    submittedWrites := submittedWrites ft + 1\<rparr>) t"
  have r: "ow' = ow" "t' = (put_out (logBuf_text (bank t1 b)) t1)\<lparr>inflight := inflight t1 @ [(b, nocb)]\<rparr>"
    using run FILE by (simp_all add: flush_bank_def t1_def Let_def)
  have "holds [] ta ow t'" by (rule holds_cong [OF h]) (simp_all add: r t1_def)
  then show ?thesis by (simp add: r(1) others_def) (simp add: r(2) t1_def)
qed

lemma flushSync_bank_holds:
  assumes run: "flushSync_bank ta b nocb ow t = Inr (ow', t')" and h: "holds [b] ta ow t"
  shows "holds [] ta ow' t' \<and> others ta ow t ow' t'"
proof -
  have "\<exists>t1. holds [b] ta ow t1 \<and> myId t1 = myId t \<and> returnBuffer ta b True nocb ow t1 = Inr (ow', t')"
  proof (cases "tkind t")
    case (FILE ft)
    then obtain t1 where t1: "file_check None (put_out (logBuf_text (bank t b)) t) = Inr t1" "returnBuffer ta b True nocb ow t1 = Inr (ow', t')"
      using run by (auto simp: flushSync_bank_def bindR_eq_Inr)
    have "holds [b] ta ow (put_out (logBuf_text (bank t b)) t)" by (rule holds_cong [OF h]) simp_all
    then show ?thesis using file_check_holds [OF t1(1)] file_check_fields [OF t1(1)] t1(2) by auto
  qed (use run h in \<open>auto simp: flushSync_bank_def\<close>)
  then show ?thesis using returnBuffer_holds unfolding others_def by metis
qed

lemma drain_banked [bankeds]: "drain ta nocb ow t = Inr (ow', t') \<Longrightarrow> banked ta ow t ow' t'"
proof (induction ta nocb ow t arbitrary: ow' t' rule: drain.induct)
  case (1 ta nocb ow t)
  obtain x q where rm: "tw_remove (writeOutBuffers t) = (x, q)" by (cases "tw_remove (writeOutBuffers t)")
  note T = take_bank_holds [OF _ rm]
  show ?case
  proof (cases x)
    case None
    with 1(2) rm have "ow' = ow" "t' = t\<lparr>writeOutBuffers := q\<rparr>" by (subst (asm) drain.simps, simp)+
    then show ?thesis using T None by (auto simp: banked_def others_def)
  next
    case (Some b)
    from 1(2) obtain ow1 t1 where f: "flush_bank ta b nocb ow (t\<lparr>writeOutBuffers := q\<rparr>) = Inr (ow1, t1)"
      and d: "drain ta nocb ow1 t1 = Inr (ow', t')"
      by (subst (asm) drain.simps) (auto simp: rm Some bindR_eq_Inr)
    have "banked ta ow t ow1 t1" using flush_bank_holds [OF f] T Some by (auto simp: banked_def others_def)
    then show ?thesis using 1(1) [OF rm [symmetric] Some f refl d] banked_trans by blast
  qed
qed

lemma drainSync_banked [bankeds]: "drainSync ta nocb ow t = Inr (ow', t') \<Longrightarrow> banked ta ow t ow' t'"
proof (induction ta nocb ow t arbitrary: ow' t' rule: drainSync.induct)
  case (1 ta nocb ow t)
  obtain x q where rm: "tw_remove (writeOutBuffers t) = (x, q)" by (cases "tw_remove (writeOutBuffers t)")
  note T = take_bank_holds [OF _ rm]
  show ?case
  proof (cases x)
    case None
    with 1(2) rm have "ow' = ow" "t' = t\<lparr>writeOutBuffers := q\<rparr>" by (subst (asm) drainSync.simps, simp)+
    then show ?thesis using T None by (auto simp: banked_def others_def)
  next
    case (Some b)
    from 1(2) obtain ow1 t1 where f: "flushSync_bank ta b nocb ow (t\<lparr>writeOutBuffers := q\<rparr>) = Inr (ow1, t1)"
      and d: "drainSync ta nocb ow1 t1 = Inr (ow', t')"
      by (subst (asm) drainSync.simps) (auto simp: rm Some bindR_eq_Inr)
    have "banked ta ow t ow1 t1" using flushSync_bank_holds [OF f] T Some by (auto simp: banked_def others_def)
    then show ?thesis using 1(1) [OF rm [symmetric] Some f refl d] banked_trans by blast
  qed
qed

lemma rotate_bank_fields:
  "myId (snd (rotate_bank t)) = myId t" "logCallback (snd (rotate_bank t)) = logCallback t"
  "logCallbackSet (snd (rotate_bank t)) = logCallbackSet t"
  by (auto simp: rotate_bank_def clear_bank_def set_bank_def split: option.split prod.split bool.split)

lemma rotate_bank_banked: "banked ta ow t ow (snd (rotate_bank t))"
  using rotate_bank_spread by (auto simp: banked_def holds_def others_def rotate_bank_fields)

lemma flushAll_banked [bankeds]:
  "flushAll_target ta rot nocb ow t = Inr (ow', t') \<Longrightarrow> banked ta ow t ow' t'"
  "flushAllSync_target ta rot nocb ow t = Inr (ow', t') \<Longrightarrow> banked ta ow t ow' t'"
  unfolding flushAll_target_def flushAllSync_target_def
  by (auto dest!: drain_banked drainSync_banked intro: banked_trans [OF rotate_bank_banked] split: if_splits)

lemma write_cb_banked [bankeds]:
  assumes run: "write_cb ta i ow t = Inr (ow', t')"
  shows "banked ta ow t ow' t'"
proof (cases "i < length (inflight t)")
  case True
  obtain b nocb where b: "inflight t ! i = (b, nocb)" by (cases "inflight t ! i")
  define t0 where "t0 = t\<lparr>inflight := take i (inflight t) @ drop (Suc i) (inflight t)\<rparr>"
  obtain t1 where t1: "file_check None t0 = Inr t1" "returnBuffer ta b False nocb ow t1 = Inr (ow', t')"
    using run True b by (auto simp: write_cb_def bindR_eq_Inr t0_def)
  have fl: "mset (map fst (inflight t)) = add_mset b (mset (map fst (inflight t0)))"
    by (subst id_take_nth_drop [OF True]) (simp add: t0_def b)
  have "holds [b] ta ow t1 \<and> myId t1 = myId t" if "holds [] ta ow t"
  proof -
    have "holds [b] ta ow t0" by (rule holds_cong [OF that]) (use fl in \<open>simp_all add: t0_def\<close>)
    then show ?thesis using file_check_holds [OF t1(1)] file_check_fields [OF t1(1)] by (simp add: t0_def)
  qed
  then show ?thesis using returnBuffer_holds [OF t1(2)] by (auto simp: banked_def others_def)
qed (use run in \<open>simp add: write_cb_def\<close>)

lemma write_overflow_cb_banked [bankeds]:
  assumes "write_overflow_cb ta ow t = Inr (ow', t')"
  shows "banked ta ow t ow' t'"
proof (cases "ovInflight t")
  case (Cons w ws)
  have "banked ta ow t ow (t\<lparr>ovInflight := ws\<rparr>)" by (rule banked_same) simp_all
  moreover have "banked ta ow (t\<lparr>ovInflight := ws\<rparr>) ow' t'"
    using assms by (intro returnBuffer_overflow_banked) (simp add: write_overflow_cb_def Cons)
  ultimately show ?thesis by (rule banked_trans)
qed (use assms in \<open>simp add: write_overflow_cb_def\<close>)

lemma writeAsyncOverflow_banked [bankeds]:
  assumes run: "writeAsyncOverflow ta got w nocb ow t = Inr (ow', t')"
  shows "banked ta ow t ow' t'"
proof (cases "tkind t")
  case TTY
  then show ?thesis using run by (auto simp: writeAsyncOverflow_def bindR_eq_Inr intro!: banked_same)
next
  case (FILE ft)
  define t1 where "t1 = file_upd (\<lambda>ft. ft\<lparr>submittedWrites := submittedWrites ft + 1\<rparr>) t"
  obtain tx t2 where t2: "(if got < 0 then Inr (file_upd (\<lambda>ft. ft\<lparr>submittedWrites := submittedWrites ft - 1\<rparr>) t1)
      else file_check (Some (word_of_int got)) (put_out (take (nat got) tx) t1)) = Inr t2"
    and r: "returnBuffer_overflow ta w False nocb ow t2 = Inr (ow', t')"
    unfolding t1_def using run FILE by (auto simp: writeAsyncOverflow_def bindR_eq_Inr Let_def)
  have "banked ta ow t ow t2"
  proof (cases "got < 0")
    case True
    with t2 have "t2 = file_upd (\<lambda>ft. ft\<lparr>submittedWrites := submittedWrites ft - 1\<rparr>) t1" by simp
    then show ?thesis by (auto intro!: banked_same simp: t1_def)
  next
    case False
    define t3 where "t3 = put_out (take (nat got) tx) t1"
    have c: "file_check (Some (word_of_int got)) t3 = Inr t2" using t2 False by (simp add: t3_def)
    show ?thesis
      using file_check_queues [OF c] file_check_fields [OF c] by (intro banked_same) (simp_all add: t3_def t1_def)
  qed
  then show ?thesis using returnBuffer_overflow_banked [OF r] banked_trans by blast
next
  case CALLBACK
  obtain r d q where q: "tw_addMvIfRoom writeCBData_moved (newAsOverflow ta w) (v8LogCallbacks ow) = (r, d, q)"
    using prod_cases3 by blast
  note Q = callbacks_put_no_bank(1) [OF q]
  have "t' = t" using run CALLBACK by (auto simp: writeAsyncOverflow_def q bindR_eq_Inr split: if_splits)
  moreover have "v8LogCallbacks ow' = v8LogCallbacks ow \<or> v8LogCallbacks ow' = q"
    using run CALLBACK
    by (auto simp: writeAsyncOverflow_def q bindR_eq_Inr dest: delete_overflow_v8 delete_data_v8 split: if_splits)
  ultimately show ?thesis
    using banked_owner [of ow' ow ta t] banked_trans [OF Q banked_owner, of ow'] by auto
qed

lemma new_log_v8: "new_log l ow = (a, ow') \<Longrightarrow> v8LogCallbacks ow' = v8LogCallbacks ow"
  by (auto simp: new_log_def)

lemma add_or_delete_v8: "add_or_delete k l w ow = Inr (w', ow') \<Longrightarrow> v8LogCallbacks ow' = v8LogCallbacks ow"
  by (auto simp: add_or_delete_def bindR_eq_Inr Let_def dest: new_log_v8 split: if_splits prod.splits)

lemma writeOverflow_banked [bankeds]:
  assumes "writeOverflow ta got clk a fil ow t = Inr (ow', t')"
  shows "banked ta ow t ow' t'"
proof (cases "tdisabled t")
  case False
  with assms obtain k1 l1 w1 ow1 w2 k3 l3 w3 ow3 k4 l4 w4 ow4 where
    ads: "add_or_delete k1 l1 overflow_new ow = Inr (w1, ow1)" "add_or_delete k3 l3 w2 ow1 = Inr (w3, ow3)"
    "add_or_delete k4 l4 w3 ow3 = Inr (w4, ow4)"
    and w: "writeAsyncOverflow ta got w4 False (refGreaseInGrease ow4) t = Inr (ow', t')"
    by (auto simp: writeOverflow_def bindR_eq_Inr Let_def)
  have "v8LogCallbacks (refGreaseInGrease ow4) = v8LogCallbacks ow" using ads by (simp add: add_or_delete_v8)
  then show ?thesis using banked_trans [OF banked_owner writeAsyncOverflow_banked [OF w]] by blast
qed (use assms in \<open>simp add: writeOverflow_def\<close>)

lemma copy_line_banked:
  assumes "copy_line hb lh s len fb lf t = Inr t'" "v8LogCallbacks ow' = v8LogCallbacks ow"
  shows "banked ta ow t ow' t'"
proof -
  obtain x where t': "t' = set_bank (currentBuffer t) x t" using copy_line_set [OF assms(1)] by blast
  have "logCallback t' = logCallback t" by (simp add: t' set_bank_def)
  then show ?thesis
    using assms(2) spread_set_bank [of "cb_banks ta ow" t "currentBuffer t" x]
    by (auto simp: banked_def holds_def others_def cb_banks_def t')
qed

lemma write_target_banked [bankeds]:
  assumes "write_target clk s len m fil ow t = Inr (ow', t')"
  shows "banked ta ow t ow' t'"
  using assms
proof (cases rule: write_target_cases)
  case (put lh hb lf fb)
  show ?thesis by (rule copy_line_banked [OF put(1)]) (simp add: put(2))
next
  case (full r hb fb)
  have "t' = snd (rotate_bank t)" by (simp add: full(1))
  moreover have "banked ta ow t' ow' t'" by (rule banked_owner) (simp add: full(2))
  ultimately show ?thesis using banked_trans [OF rotate_bank_banked] by simp
next
  case (rotated lh hb lf fb t1 d q)
  have "t1 = snd (rotate_bank t)" by (simp add: rotated(1))
  moreover have "banked ta ow t1 ow' t'" by (rule copy_line_banked [OF rotated(3)]) (simp add: rotated(4))
  ultimately show ?thesis using banked_trans [OF rotate_bank_banked] by blast
qed (auto intro!: banked_owner dest: new_log_v8)

end
