(* ===== verification/Links.thy ===== *)
theory Links
  imports Machine Spread
begin

text \<open>
  The pointers of the logger in every reachable state: what the table of targets, the
  default target and the queue of callbacks refer to is a target of the right kind, and
  each bank of each target is in exactly one place.
\<close>

section \<open>The invariant\<close>

definition links_ok :: "'z logger_scheme \<Rightarrow> bool" where
  "links_ok st \<longleftrightarrow> circular_inv (v8LogCallbacks st) \<and>
     (\<forall>a t. tgts st a = Some t \<longrightarrow> a < nextTgt st \<and> holds [] a st t) \<and>
     (\<forall>a. tgts st a = None \<longrightarrow> cb_banks a st = []) \<and>
     (\<forall>i a. (i, a) \<in> set (targets st) \<longrightarrow> i \<noteq> GREASE_DEFAULT_TARGET_ID \<and> (\<exists>t. tgts st a = Some t \<and> myId t = i)) \<and>
     distinct (map fst (targets st)) \<and>
     (\<forall>a. defaultTarget st = Some a \<longrightarrow> (\<exists>t. tgts st a = Some t \<and> myId t = GREASE_DEFAULT_TARGET_ID))"

definition linked :: "'z logger_scheme \<Rightarrow> 'z logger_scheme \<Rightarrow> bool" where
  "linked st st' \<longleftrightarrow> (links_ok st \<longrightarrow> links_ok st')"

interpretation linked: run_effect "linked :: 'z logger_scheme \<Rightarrow> 'z logger_scheme \<Rightarrow> bool"
  by unfold_locales (auto simp: linked_def)

lemma holds_owner: "v8LogCallbacks ow' = v8LogCallbacks ow \<Longrightarrow> holds bs ta ow' t = holds bs ta ow t"
  by (simp add: holds_def cb_banks_def)

text \<open>Only five fields matter.\<close>

definition same_links :: "'z logger_scheme \<Rightarrow> 'z logger_scheme \<Rightarrow> bool" where
  "same_links st st' \<longleftrightarrow> v8LogCallbacks st' = v8LogCallbacks st \<and> tgts st' = tgts st \<and> nextTgt st' = nextTgt st \<and>
     targets st' = targets st \<and> defaultTarget st' = defaultTarget st"

lemma same_links_ok: "same_links st st' \<Longrightarrow> links_ok st' = links_ok st"
  using holds_owner [of st' st] by (simp add: same_links_def links_ok_def cb_banks_def)

lemma linked_same: "same_links st st' \<Longrightarrow> linked st st'"
  by (simp add: linked_def same_links_ok)

lemma more_links:
  fixes st st' :: "'z logger_scheme"
  assumes "owner.more st' = owner.more st"
  shows "tgts st' = tgts st" "nextTgt st' = nextTgt st" "targets st' = targets st" "defaultTarget st' = defaultTarget st"
  using assms by (cases st; cases st'; simp)+

text \<open>One target changes, and with it what the queue of callbacks holds of its banks.\<close>

lemma links_update:
  fixes st :: "'z logger_scheme"
  assumes ok: "links_ok st" and t: "tgts st a = Some t" and more: "owner.more s = owner.more st"
    and h: "holds [] a s t'" and o: "others a st t s t'"
  shows "links_ok (s\<lparr>tgts := (tgts s)(a \<mapsto> t')\<rparr>)"
proof -
  define st' where "st' = s\<lparr>tgts := (tgts s)(a \<mapsto> t')\<rparr>"
  have v: "circular_inv (v8LogCallbacks s)" using h by (simp add: holds_def)
  have cb: "cb_banks b st' = cb_banks b s" for b by (simp add: cb_banks_def st'_def)
  have hs: "holds [] b st' u = holds [] b s u" for b u by (rule holds_owner) (simp add: st'_def)
  have "holds [] b s u" if "b \<noteq> a" "holds [] b st u" for b u
    using that o v by (simp add: holds_def others_def)
  then have "links_ok st'"
    using ok h o t v unfolding links_ok_def hs cb
    by (auto simp: st'_def more_links [OF more] others_def) (metis option.inject)
  then show ?thesis by (simp only: st'_def)
qed

lemma linked_with_target:
  fixes st :: "'z logger_scheme"
  assumes run: "with_target a g st = Inr st'"
    and op: "\<And>t s t'. g st t = Inr (s, t') \<Longrightarrow> banked a st t s t' \<and> owner_frame st s"
  shows "linked st st'"
  unfolding linked_def
proof
  assume ok: "links_ok st"
  obtain t s t' where t: "tgts st a = Some t" "g st t = Inr (s, t')" and st': "st' = s\<lparr>tgts := (tgts s)(a \<mapsto> t')\<rparr>"
    using run by (auto simp: with_target_def bindR_eq_Inr deref_def split: option.splits)
  have "holds [] a st t" using ok t(1) by (simp add: links_ok_def)
  then have "holds [] a s t'" "others a st t s t'" using op [OF t(2)] by (auto simp: banked_def)
  then show "links_ok st'" unfolding st' using op [OF t(2)] by (intro links_update [OF ok t(1)]) (simp_all add: owner_frame_def)
qed

section \<open>Commands and completions\<close>

lemma linked_ops:
  fixes st :: "'z logger_scheme"
  shows "with_target a (write_cb a i) st = Inr st' \<Longrightarrow> linked st st'"
    "with_target a (write_overflow_cb a) st = Inr st' \<Longrightarrow> linked st st'"
    "with_target a (flushAll_target a rot nocb) st = Inr st' \<Longrightarrow> linked st st'"
    "with_target a (flushAllSync_target a rot nocb) st = Inr st' \<Longrightarrow> linked st st'"
    "with_target a (write_target clk s len m fil) st = Inr st' \<Longrightarrow> linked st st'"
    "with_target a (writeOverflow a got clk la fil) st = Inr st' \<Longrightarrow> linked st st'"
  by (erule linked_with_target, fastforce dest: bankeds frames)+

interpretation linked_flush: flush_effect "linked :: 'z logger_scheme \<Rightarrow> 'z logger_scheme \<Rightarrow> bool"
  by unfold_locales (erule linked_ops(3), erule linked_ops(4), rule linked_same, simp add: same_links_def stopFlushTimer_def)

lemma linked_log_ops:
  "upd_log a u st = Inr st' \<Longrightarrow> linked st st'" "log_incRef a st = Inr st' \<Longrightarrow> linked st st'"
  "log_decRef a st = Inr st' \<Longrightarrow> linked st st'"
  by (auto simp: upd_log_def log_incRef_def log_decRef_def bindR_eq_Inr same_links_def intro!: linked_same)

lemma linked_emit: "emit_write clk la e a f st = Inr st' \<Longrightarrow> linked st st'" "emit_overflow clk got la a f st = Inr st' \<Longrightarrow> linked st st'"
proof -
  show "emit_write clk la e a f st = Inr st' \<Longrightarrow> linked st st'"
    by (auto simp: emit_write_def bindR_eq_Inr dest: linked_ops(5))
  assume "emit_overflow clk got la a f st = Inr st'"
  then obtain s1 s2 where "with_target a (flushAll_target a True False) st = Inr s1" "log_incRef la s1 = Inr s2"
    "with_target a (writeOverflow a got clk la (Some f)) s2 = Inr st'"
    by (auto simp: emit_overflow_def bindR_eq_Inr)
  from linked.trans [OF linked_ops(3) [OF this(1)] linked.trans [OF linked_log_ops(2) [OF this(2)] linked_ops(6) [OF this(3)]]]
  show "linked st st'" .
qed

lemma linked_command: "handle_cmd clk got req st = Inr st' \<Longrightarrow> linked st st'"
proof (erule linked_flush.handle_cmd_effect)
  show "handle_NEW_LOG clk la st = Inr st' \<Longrightarrow> linked st st'" for la
    by (rule linked.NEW_LOG_effect [OF linked_emit(1) linked_log_ops(1)]) (auto intro: linked_same simp: same_links_def)
  show "handle_OVERFLOW clk got la st = Inr st' \<Longrightarrow> linked st st'" for la
    by (rule linked.OVERFLOW_effect [OF linked_emit(2) linked_log_ops(1) linked_log_ops(3)])
qed

section \<open>Logging\<close>

lemma queue_cmd_links: "same_links st (queue_cmd c st1) = same_links st st1"
  by (auto simp: queue_cmd_def same_links_def uv_async_send_def split: prod.split bool.split)

lemma linked_log:
  fixes st :: "'z logger_scheme"
  assumes "log_internal m ext s len st = Inr (r, st')"
  shows "linked st st'"
proof (rule linked_same)
  show "same_links st st'"
    using assms
    by (auto simp: log_internal_def bindR_eq_Inr Let_def new_log_def queue_cmd_links split: if_splits prod.splits option.splits)
      (auto simp: same_links_def)
qed

section \<open>The V8 thread\<close>

lemma linked_call_one:
  fixes st :: "'z logger_scheme"
  assumes ok: "links_ok st" and rm: "tw_removeMv writeCBData_moved (v8LogCallbacks st) = (Some d, q)"
    and run: "call_one d (st\<lparr>v8LogCallbacks := q\<rparr>) = Inr (d', st')"
  shows "links_ok st'"
proof -
  define s0 where "s0 = st\<lparr>v8LogCallbacks := q\<rparr>"
  have v: "circular_inv (v8LogCallbacks st)" using ok by (simp add: links_ok_def)
  have Q: "circular_inv q" "items (v8LogCallbacks st) = d # items q"
    using tw_removeMv_spec [OF v rm] by (auto split: list.splits)
  have cb: "cb_banks b st = (case cb_bank b d of Some x \<Rightarrow> [x] | None \<Rightarrow> []) @ cb_banks b s0" for b
    by (cases "cb_bank b d") (simp_all add: cb_banks_def Q(2) s0_def map_filter_simps)
  obtain a t where a: "wt d = Some a" "tgts st a = Some t"
    using run by (auto simp: call_one_def bindR_eq_Inr deref_def split: option.splits)
  have h: "holds [] a st t" using ok a(2) by (simp add: links_ok_def)
  have h0: "case wb d of Some x \<Rightarrow> holds [x] a s0 t | None \<Rightarrow> holds [] a s0 t"
    using h Q(1) cb [of a] a(1) by (auto simp: holds_def cb_bank_def s0_def split: option.splits)
  have none: "wb d = None" if "logCallback t = None"
    using h that cb [of a] a(1) by (auto simp: holds_def cb_bank_def split: option.splits)
  have other: "cb_banks b s0 = cb_banks b st" if "b \<noteq> a" for b using cb [of b] a(1) that by (simp add: cb_bank_def)
  obtain s where s: "if logCallback t \<noteq> None then with_target a (doV8Callback d) s0 = Inr s else s = s0"
    and u: "unrefFromV8_inV8 s = Inr st'"
    using run a by (auto simp: call_one_def bindR_eq_Inr deref_def s0_def split: if_splits)
  have "links_ok s"
  proof (cases "logCallback t = None")
    case True
    then have "holds [] a s0 t" "s = s0" using none h0 s by auto
    moreover have "cb_banks a s0 = cb_banks a st" using none [OF True] cb [of a] by (simp add: cb_bank_def)
    ultimately show ?thesis
      using ok other Q(1) a(2) unfolding links_ok_def by (auto simp: holds_def s0_def) (metis cb_banks_def)+
  next
    case False
    obtain s1 t1 where 1: "doV8Callback d s0 t = Inr (s1, t1)" "s = s1\<lparr>tgts := (tgts s1)(a \<mapsto> t1)\<rparr>"
      using s False a(2) by (auto simp: with_target_def bindR_eq_Inr deref_def s0_def)
    have H: "holds [] a s1 t1" "others a s0 t s1 t1" using doV8Callback_holds [OF 1(1), of "[]" a] h0 by auto
    have "owner.more s1 = owner.more st" using doV8Callback_frame [OF 1(1)] by (simp add: owner_frame_def s0_def)
    moreover have "others a st t s1 t1" using H(2) other by (simp add: others_def)
    ultimately show ?thesis unfolding 1(2) using links_update [OF ok a(2) _ H(1)] by blast
  qed
  moreover have "same_links s st'" using u by (auto simp: unrefFromV8_inV8_def same_links_def Let_def split: if_splits)
  ultimately show ?thesis by (simp add: same_links_ok)
qed

lemma linked_v8_loop: "v8_loop data st = Inr st' \<Longrightarrow> linked st st'"
proof (induction data st rule: v8_loop.induct)
  case (1 data st)
  obtain x q where rm: "tw_removeMv writeCBData_moved (v8LogCallbacks st) = (x, q)"
    by (cases "tw_removeMv writeCBData_moved (v8LogCallbacks st)")
  show ?case
  proof (cases x)
    case None
    then have del: "writeCBData_delete data (st\<lparr>v8LogCallbacks := q\<rparr>) = Inr st'"
      using 1(2) rm by (subst (asm) v8_loop.simps) simp
    have "q = v8LogCallbacks st" if "links_ok st"
      using tw_removeMv_spec [OF _ rm] that None by (auto simp: links_ok_def split: list.splits)
    then have "links_ok st \<Longrightarrow> same_links st st'"
      using delete_data_v8 [OF del] more_links [of st' "st\<lparr>v8LogCallbacks := q\<rparr>"] writeCBData_delete_frame [OF del]
      by (simp add: same_links_def owner_frame_def)
    then show ?thesis using same_links_ok by (auto simp: linked_def)
  next
    case (Some d)
    obtain d' s where one: "call_one d (st\<lparr>v8LogCallbacks := q\<rparr>) = Inr (d', s)" and rest: "v8_loop d' s = Inr st'"
      using 1(2) rm Some by (subst (asm) v8_loop.simps) (auto simp: bindR_eq_Inr)
    have "linked s st'" by (rule 1(1) [OF rm [symmetric] Some one refl rest])
    then show ?thesis using linked_call_one [OF _ _ one] rm Some by (simp add: linked_def)
  qed
qed

section \<open>Setting up\<close>

lemma new_target_spread:
  assumes "logTarget_new jk n i d k = Inr t"
  shows "spread [] t" "logCallbackSet t = False"
proof -
  obtain q1 q2 q3 where q: "tw_add (1::nat) (new_circular NUM_BANKS 0) = Inr q1" "tw_add 2 q1 = Inr q2" "tw_add 3 q2 = Inr q3"
    and t: "availBuffers t = q3" "writeOutBuffers t = new_circular (NUM_BANKS - 1) 0" "currentBuffer t = 0" "inflight t = []"
      "banks t = map (\<lambda>m. logBuf_new jk n m (delim_duplicate d)) [0..<NUM_BANKS]" "logCallbackSet t = False"
    using assms by (auto simp: logTarget_new_def bindR_eq_Inr)
  then show "logCallbackSet t = False" by simp
  have new: "circular_inv (new_circular NUM_BANKS (0::nat))" "items (new_circular NUM_BANKS (0::nat)) = []"
    "capacity (new_circular NUM_BANKS (0::nat)) = NUM_BANKS"
    "circular_inv (new_circular (NUM_BANKS - 1) (0::nat))" "items (new_circular (NUM_BANKS - 1) (0::nat)) = []"
    "capacity (new_circular (NUM_BANKS - 1) (0::nat)) = NUM_BANKS - 1"
    using new_circular_spec [of NUM_BANKS "0::nat"] new_circular_spec [of "NUM_BANKS - 1" "0::nat"] by (simp_all add: NUM_BANKS_def)
  have add: "circular_inv q' \<and> capacity q' = capacity q \<and> items q' = items q @ [b]" if "tw_add b q = Inr q'" "circular_inv q" for b q q'
    using that tw_addIfRoom_spec [OF that(2) prod.collapse [symmetric], of b] by (auto simp: tw_add_eq split: prod.splits bool.splits)
  have q3: "circular_inv q3" "capacity q3 = NUM_BANKS" "items q3 = [1, 2, 3]"
    using add [OF q(1)] add [OF q(2)] add [OF q(3)] new by auto
  have empty: "llen (bank t b) = 0" if "b < NUM_BANKS" for b using that by (simp add: bank_def t)
  have "[0..<NUM_BANKS] = [0, 1, 2, 3]" by (simp add: NUM_BANKS_def upt_rec)
  then have "mset (places [] t) = mset [0..<NUM_BANKS]" by (simp add: places_def t q3(3) new(5) [unfolded One_nat_def] del: mset_upt)
  moreover have "\<forall>b \<in> set (items (availBuffers t)). llen (bank t b) = 0"
    using empty by (simp add: t q3(3) NUM_BANKS_def)
  ultimately show "spread [] t" using q3 new by (simp add: spread_def t del: mset_upt)
qed

lemma addReplace_set: "set (addReplace k v xs) \<subseteq> insert (k, v) (set xs)"
  by (induction xs) (auto split: if_splits)

lemma addReplace_keys: "distinct (map fst xs) \<Longrightarrow> distinct (map fst (addReplace k v xs))"
proof (induction k v xs rule: addReplace.induct)
  case (2 k v k' v' xs)
  then show ?case using addReplace_set [of k v xs] by auto
qed simp

lemma linked_role:
  assumes t: "tgts st a = Some t" "same_role t t'"
  shows "linked st (st\<lparr>tgts := (tgts st)(a \<mapsto> t')\<rparr>)"
  unfolding linked_def
proof
  assume ok: "links_ok st"
  have h: "holds [] a st t" using ok t(1) by (simp add: links_ok_def)
  then have "spread (cb_banks a st) t" by (simp add: holds_def)
  then have "spread (cb_banks a st) t'"
    by (rule spread_cong) (use t(2) in \<open>simp_all add: same_role_def\<close>)
  then have "holds [] a st t'" using h t(2) by (auto simp: holds_def same_role_def)
  then show "links_ok (st\<lparr>tgts := (tgts st)(a \<mapsto> t')\<rparr>)"
    using t(2) by (intro links_update [OF ok t(1)]) (simp_all add: others_def same_role_def)
qed

lemma linked_made:
  assumes "logTarget_new jk sz i d k = Inr t"
  shows "linked st (st\<lparr>tgts := (tgts st)(nextTgt st \<mapsto> t), nextTgt := nextTgt st + 1, readyData := r\<rparr>)"
  unfolding linked_def
proof
  define st' where "st' = st\<lparr>tgts := (tgts st)(nextTgt st \<mapsto> t), nextTgt := nextTgt st + 1, readyData := r\<rparr>"
  assume ok: "links_ok st"
  have none: "tgts st (nextTgt st) = None" using ok by (auto simp: links_ok_def dest: spec [of _ "nextTgt st"])
  have cb: "cb_banks b st' = cb_banks b st" for b by (simp add: cb_banks_def st'_def)
  have hs: "holds [] b st' u = holds [] b st u" for b u by (rule holds_owner) (simp add: st'_def)
  have "cb_banks (nextTgt st) st = []" using ok none by (simp add: links_ok_def)
  then have "holds [] (nextTgt st) st t" using ok new_target_spread [OF assms] by (simp add: holds_def links_ok_def)
  then have "links_ok st'"
    using ok none unfolding links_ok_def hs cb by (auto simp: st'_def less_Suc_eq) (metis option.discI)
  then show "links_ok (st\<lparr>tgts := (tgts st)(nextTgt st \<mapsto> t), nextTgt := nextTgt st + 1, readyData := r\<rparr>)"
    by (simp only: st'_def)
qed

lemma linked_set_up: "set_up st st' \<Longrightarrow> linked st st'"
proof (induction rule: set_up.induct)
  case (neutral st st')
  then show ?case by (auto simp: same_core_def same_links_def intro: linked_same)
next
  case (role st a t t')
  then show ?case by (rule linked_role)
next
  case (made jk sz i d k t st r)
  then show ?case by (rule linked_made)
next
  case (default st a t)
  have "holds [] b (st\<lparr>defaultTarget := Some a\<rparr>) u = holds [] b st u" for b u by (rule holds_owner) simp
  then show ?case using default by (auto simp: linked_def links_ok_def cb_banks_def)
next
  case (listed st a t)
  define ts where "ts = addReplace (myId t) a (targets st)"
  have hs: "holds [] b (st\<lparr>targets := ts\<rparr>) u = holds [] b st u" for b u by (rule holds_owner) simp
  show ?case unfolding linked_def ts_def [symmetric]
  proof
    assume ok: "links_ok st"
    have "i \<noteq> GREASE_DEFAULT_TARGET_ID \<and> (\<exists>t. tgts st b = Some t \<and> myId t = i)" if "(i, b) \<in> set ts" for i b
    proof -
      have "(i, b) = (myId t, a) \<or> (i, b) \<in> set (targets st)" using that addReplace_set unfolding ts_def by fast
      then show ?thesis using ok listed by (auto simp: links_ok_def)
    qed
    moreover have "distinct (map fst ts)" unfolding ts_def using ok by (intro addReplace_keys) (simp add: links_ok_def)
    ultimately show "links_ok (st\<lparr>targets := ts\<rparr>)"
      using ok listed unfolding links_ok_def hs by (auto simp: cb_banks_def)
  qed
next
  case (set_up_trans a b c)
  then show ?case using linked.trans by blast
qed

section \<open>Every step\<close>

lemma linked_external: "linked st (handleExternalCmd st)"
proof -
  have "same_links st (handleExternalCmd st)"
  proof (induction st rule: handleExternalCmd.induct)
    case (1 st)
    obtain x q where rm: "tw_removeMv nodeCmdReq_moved (nodeCmdQueue st) = (x, q)"
      by (cases "tw_removeMv nodeCmdReq_moved (nodeCmdQueue st)")
    then show ?case
      using 1 [OF rm [symmetric]] by (cases x; subst handleExternalCmd.simps) (auto simp: rm same_links_def)
  qed
  then show ?thesis by (rule linked_same)
qed

lemma linked_step:
  assumes "logger_step st st'"
  shows "linked st st'"
  using assms
proof (cases rule: step_kinds)
  case (logged m ext s l r)
  then show ?thesis using linked_log by blast
next
  case (command req q clk got)
  have "linked st (st\<lparr>internalCmdQueue := q\<rparr>)" by (rule linked_same) (simp add: same_links_def)
  then show ?thesis using linked_command [OF command(2)] linked.trans by blast
next
  case (completed a i)
  then show ?thesis using linked_ops(1,2) by blast
next
  case (flushed info)
  then show ?thesis using linked_flush.Flush_effect linked_flush.timer_effect by blast
next
  case v8
  then show ?thesis unfolding callV8LogCallbacks_def by (rule linked_v8_loop)
next
  case shut
  show ?thesis unfolding shut by (rule linked_same) (simp add: same_links_def shutdown_def uv_async_send_def split: prod.split)
qed (simp_all add: linked_set_up linked_external)

lemma new_links: "0 < n \<Longrightarrow> tlogger_new jk sink0 n c = Inr st \<Longrightarrow> links_ok st"
  using tlogger_new_ok [of n jk sink0 c] by (auto simp: links_ok_def cb_banks_def map_filter_simps)

lemma reachable_links:
  assumes "0 < n" "tlogger_new jk sink0 n c = Inr st0" "logger_run st0 st"
  shows "links_ok st"
  using assms(3) new_links [OF assms(1,2)]
  by (induction rule: logger_run.induct) (auto dest: linked_step simp: linked_def)

section \<open>What holds in every reachable state\<close>

lemma links_targets:
  assumes ok: "links_ok st"
  shows "find_target i st = Some a \<Longrightarrow> i \<noteq> GREASE_DEFAULT_TARGET_ID \<and> (\<exists>t. tgts st a = Some t \<and> myId t = i)"
    "tgts st a = Some t \<Longrightarrow> distinct (places (cb_banks a st) t) \<and> set (places (cb_banks a st) t) = {..<NUM_BANKS}"
proof -
  show "find_target i st = Some a \<Longrightarrow> i \<noteq> GREASE_DEFAULT_TARGET_ID \<and> (\<exists>t. tgts st a = Some t \<and> myId t = i)"
    using ok by (auto simp: find_target_def links_ok_def dest: map_of_SomeD)
  assume "tgts st a = Some t"
  then have s: "spread (cb_banks a st) t" using ok by (simp add: links_ok_def holds_def)
  then have "mset (places (cb_banks a st) t) = mset [0..<NUM_BANKS]" by (simp add: spread_def)
  from mset_eq_setD [OF this] spread_distinct(1) [OF s]
  show "distinct (places (cb_banks a st) t) \<and> set (places (cb_banks a st) t) = {..<NUM_BANKS}"
    by (simp add: atLeast0LessThan)
qed

lemma links_callbacks:
  assumes ok: "links_ok st" and d: "d \<in> set (items (v8LogCallbacks st))" "wt d = Some a" "wb d = Some b"
  shows "\<exists>t. tgts st a = Some t \<and> b < NUM_BANKS \<and> logCallback t \<noteq> None"
proof -
  have b: "b \<in> set (cb_banks a st)"
    using d by (force simp: cb_banks_def List.map_filter_def cb_bank_def)
  then obtain t where t: "tgts st a = Some t" using ok by (cases "tgts st a") (auto simp: links_ok_def)
  have "b \<in> set (places (cb_banks a st) t)" using b by (simp add: places_def)
  then have "b < NUM_BANKS" using links_targets(2) [OF ok t] by simp
  moreover have "holds [] a st t" using ok t by (simp add: links_ok_def)
  then have "logCallback t \<noteq> None" using b by (auto simp: holds_def)
  ultimately show ?thesis using t by blast
qed

text \<open>C5 Pointers stay well-typed: in every state a logger can reach, an id found in the table of targets leads to
  a live target with that id, never the default's; the default target is a live target with the default id; and what
  the queue of log callbacks holds for a bank names a live target that has a callback, and one of its four banks.\<close>

theorem reachable_pointers:
  assumes "0 < n" "tlogger_new jk sink0 n c = Inr st0" "logger_run st0 st"
  shows "(find_target i st = Some a \<longrightarrow> i \<noteq> GREASE_DEFAULT_TARGET_ID \<and> (\<exists>t. tgts st a = Some t \<and> myId t = i)) \<and>
    (defaultTarget st = Some a \<longrightarrow> (\<exists>t. tgts st a = Some t \<and> myId t = GREASE_DEFAULT_TARGET_ID)) \<and>
    (d \<in> set (items (v8LogCallbacks st)) \<longrightarrow> wt d = Some a \<longrightarrow> wb d = Some b \<longrightarrow>
       (\<exists>t. tgts st a = Some t \<and> b < NUM_BANKS \<and> logCallback t \<noteq> None))"
proof -
  have ok: "links_ok st" by (rule reachable_links [OF assms])
  then have "defaultTarget st = Some a \<longrightarrow> (\<exists>t. tgts st a = Some t \<and> myId t = GREASE_DEFAULT_TARGET_ID)"
    by (simp add: links_ok_def)
  then show ?thesis using links_targets(1) [OF ok] links_callbacks [OF ok] by blast
qed

text \<open>C4 In every state a logger can reach, each of the four banks of each target is in exactly one place: it is
  the current one, available, queued for write-out, in flight, or waits for the JavaScript callback. The available
  ones are empty, the queued ones are not.\<close>

theorem reachable_banks:
  assumes "0 < n" "tlogger_new jk sink0 n c = Inr st0" "logger_run st0 st" and t: "tgts st a = Some t"
  shows "distinct (places (cb_banks a st) t) \<and> set (places (cb_banks a st) t) = {..<NUM_BANKS} \<and>
    (\<forall>b \<in> set (items (availBuffers t)). llen (bank t b) = 0) \<and> (\<forall>b \<in> set (items (writeOutBuffers t)). 0 < llen (bank t b))"
proof -
  have ok: "links_ok st" by (rule reachable_links [OF assms(1-3)])
  then have "spread (cb_banks a st) t" using t by (simp add: links_ok_def holds_def)
  then show ?thesis using links_targets(2) [OF ok t] by (simp add: spread_def)
qed

section \<open>Concrete instances\<close>

text \<open>A new logger that is started on a terminal: it has a default target.\<close>

lemma demo_started:
  obtains st0 st1 t where "tlogger_new (\<lambda>_. 0) 0 100 1500 = Inr st0" "logger_run st0 st1"
    "Start (\<lambda>_. '''') None [JFunction 7] st0 = Inr st1" "defaultTarget st1 = Some (nextTgt st0)" "tgts st1 (nextTgt st0) = Some t"
proof -
  obtain st0 where st0: "tlogger_new (\<lambda>_. 0) 0 100 1500 = Inr st0" using tlogger_new_ok [of 100 "\<lambda>_. 0" 0 1500] by auto
  obtain b where b: "heapBuf_sprintf (junk st0) [10] (delim delim_empty) = Inr b"
    by (simp add: heapBuf_sprintf_def peek_def Let_def)
  obtain t where t: "logTarget_new (junk st0) (bufferSize st0) GREASE_DEFAULT_TARGET_ID (delim_empty\<lparr>delim := b\<rparr>) TTY = Inr t"
    using logTarget_new_ok by blast
  have "\<exists>st1. Start (\<lambda>_. '''') None [JFunction 7] st0 = Inr st1 \<and> defaultTarget st1 = Some (nextTgt st0) \<and> tgts st1 (nextTgt st0) = Some t"
    using b t logTarget_new_id [OF t]
    by (simp add: Start_def start_logger_def setupDefaultTarget_def new_info_def default_delim_def toStr_def ttyTarget_new_def
        add_target_object_def targetReady_def maybe_action_def run_action_def start_logger_cb_def deref_def Let_def
        target_start_info_new_def js_function_def jsArg_def call_js_def delete_info_def)
  then obtain st1 where st1: "Start (\<lambda>_. '''') None [JFunction 7] st0 = Inr st1" "defaultTarget st1 = Some (nextTgt st0)" "tgts st1 (nextTgt st0) = Some t"
    by blast
  have "logger_run st0 st1" by (rule logger_run.one_more [OF logger_run.nothing logger_step.start [OF st1(1)]])
  then show thesis using that st0 st1 by blast
qed

lemma reachable_pointers_witness:
  "\<exists>st0 st1 t. tlogger_new (\<lambda>_. 0) 0 100 1500 = Inr st0 \<and> Start (\<lambda>_. '''') None [JFunction 7] st0 = Inr st1 \<and>
     defaultTarget st1 = Some (nextTgt st0) \<and> tgts st1 (nextTgt st0) = Some t \<and> myId t = GREASE_DEFAULT_TARGET_ID"
proof -
  obtain st0 st1 t where d: "tlogger_new (\<lambda>_. 0) 0 100 1500 = Inr st0" "logger_run st0 st1"
    "Start (\<lambda>_. '''') None [JFunction 7] st0 = Inr st1" "defaultTarget st1 = Some (nextTgt st0)" "tgts st1 (nextTgt st0) = Some t"
    by (rule demo_started)
  show ?thesis using reachable_pointers [OF _ d(1,2), of 0 "nextTgt st0" writeCBData_empty 0] d by auto
qed

lemma reachable_banks_witness:
  "\<exists>st0 st1 t. tlogger_new (\<lambda>_. 0) 0 100 1500 = Inr st0 \<and> Start (\<lambda>_. '''') None [JFunction 7] st0 = Inr st1 \<and>
     tgts st1 (nextTgt st0) = Some t \<and> set (places (cb_banks (nextTgt st0) st1) t) = {..<NUM_BANKS}"
proof -
  obtain st0 st1 t where d: "tlogger_new (\<lambda>_. 0) 0 100 1500 = Inr st0" "logger_run st0 st1"
    "Start (\<lambda>_. '''') None [JFunction 7] st0 = Inr st1" "defaultTarget st1 = Some (nextTgt st0)" "tgts st1 (nextTgt st0) = Some t"
    by (rule demo_started)
  show ?thesis using reachable_banks [OF _ d(1,2,5)] d by auto
qed

end
