(* ===== verification/Lifecycle.thy ===== *)
theory Lifecycle
  imports Links
begin

text \<open>
  The ends of the logger's life (logger.h, logger.cc): the singleton, the set-up of the logger
  thread, the destructors of the logger and of the sinks; and the pseudo terminal a caller can
  have made for a target.
\<close>

section \<open>The singleton\<close>

text \<open>\<open>LOGGER\<close>, and whether \<open>shutdown\<close> is registered with \<open>atexit\<close>, counted.\<close>

record process =
  the_LOGGER :: "tlogger option"
  atexits :: nat

definition setupClass :: "(nat \<Rightarrow> u8) \<Rightarrow> u32 \<Rightarrow> nat \<Rightarrow> nat \<Rightarrow> process \<Rightarrow> (tlogger \<times> process) res" where
  "setupClass jk sink0 buffer_size chunk_size p =
     (case the_LOGGER p of
        Some l \<Rightarrow> Inr (l, p)
      | None \<Rightarrow> bindR (tlogger_new jk sink0 buffer_size chunk_size) (\<lambda>l.
          Inr (l, p\<lparr>the_LOGGER := Some l, atexits := atexits p + 1\<rparr>)))"

text \<open>The calls to libuv with which the logger thread begins.\<close>

datatype uv_handler = HandleInternalCmd | HandleExternalCmd

datatype uv_call = Uv_timer_init | Uv_unref_timer | Uv_async_init uv_handler | Uv_run

definition mainThread :: "uv_call list" where
  "mainThread = [Uv_timer_init, Uv_unref_timer, Uv_async_init HandleInternalCmd, Uv_async_init HandleExternalCmd, Uv_run]"

section \<open>The destructors\<close>

definition delete_target :: "nat \<Rightarrow> 'z logger_scheme \<Rightarrow> 'z logger_scheme res" where
  "delete_target a st = bindR (deref (tgts st) a) (\<lambda>_. Inr (st\<lparr>tgts := (tgts st)(a := None)\<rparr>))"

definition delete_master :: "nat \<Rightarrow> 'z logger_scheme \<Rightarrow> 'z logger_scheme res" where
  "delete_master a st = bindR (deref (logs st) a) (\<lambda>_. Inr (delete_log a st))"

lemma delete_master_queue: "delete_master a st = Inr st' \<Longrightarrow> masterBufferAvail st' = masterBufferAvail st"
  by (auto simp: delete_master_def delete_log_def bindR_eq_Inr)

function delete_masters :: "'z logger_scheme \<Rightarrow> 'z logger_scheme res" where
  "delete_masters st =
     (case tw_remove (masterBufferAvail st) of
        (None, q) \<Rightarrow> Inr (st\<lparr>masterBufferAvail := q\<rparr>)
      | (Some a, q) \<Rightarrow> bindR (delete_master a (st\<lparr>masterBufferAvail := q\<rparr>)) delete_masters)"
  by pat_completeness auto
termination
  by (relation "measure (\<lambda>st. nat (tw_remain (masterBufferAvail st)))")
    (auto dest!: tw_remove_decreases [OF sym] delete_master_queue)

declare delete_masters.simps [simp del]

definition GreaseLogger_delete :: "'z logger_scheme \<Rightarrow> 'z logger_scheme res" where
  "GreaseLogger_delete st =
     bindR (case defaultTarget st of Some a \<Rightarrow> delete_target a st | None \<Rightarrow> Inr st) (\<lambda>st.
     bindR (foldR (\<lambda>(_, a). delete_target a) (targets st) st) delete_masters)"

text \<open>The destructor of a datagram sink: whether the path is freed, and the descriptors closed. It closes
  those that are negative.\<close>

definition UnixDgramSink_delete :: "dgram_sink \<Rightarrow> bool \<times> int list" where
  "UnixDgramSink_delete sk =
     (spath sk \<noteq> None,
      (if fst (wakeup_pipe sk) < 0 then [fst (wakeup_pipe sk)] else []) @
      (if snd (wakeup_pipe sk) < 0 then [snd (wakeup_pipe sk)] else []))"

text \<open>The destructor of a pipe sink: the path, and the buffers its pool holds.\<close>

function drain_pool :: "nat circular \<Rightarrow> nat list" where
  "drain_pool q = (case tw_remove q of (None, _) \<Rightarrow> [] | (Some b, q) \<Rightarrow> b # drain_pool q)"
  by pat_completeness auto
termination
  by (relation "measure (\<lambda>q. nat (tw_remain q))") (auto dest!: tw_remove_decreases [OF sym])

declare drain_pool.simps [simp del]

definition PipeSink_delete :: "pipe_sink \<Rightarrow> bool \<times> nat list" where
  "PipeSink_delete sk = (ppath sk \<noteq> None, drain_pool (pbuffers sk))"

section \<open>Pseudo terminals\<close>

text \<open>What the system answers: the descriptor of the master, the errors of \<open>open\<close>, \<open>grantpt\<close> and
  \<open>unlockpt\<close>, and the name of the slave.\<close>

record pty_env =
  pty_fd :: int
  pty_errno :: int
  pty_grant :: "int option"
  pty_unlock :: "int option"
  pty_name :: "bytes option"

datatype pty_call = PtyError js_error | PtyOpened int bytes

text \<open>\<open>ToObject\<close> of undefined is an empty handle.\<close>

definition ToObject :: "js_error \<Rightarrow> js_error" where
  "ToObject e = (if e = JsUndefined then JsEmpty else e)"

definition open_pty :: "(int \<Rightarrow> string) \<Rightarrow> pty_env \<Rightarrow> (err_ev \<times> bytes option) res" where
  "open_pty strerr e =
     (if pty_fd e < 0 then bindR (setError strerr (pty_errno e) None err_ev_new) (\<lambda>ev. Inr (ev, None))
      else (case pty_grant e of
              Some n \<Rightarrow> bindR (setError strerr n None err_ev_new) (\<lambda>ev. Inr (ev, None))
            | None \<Rightarrow>
                bindR (case pty_unlock e of
                         Some n \<Rightarrow> setError strerr n None err_ev_new
                       | None \<Rightarrow> Inr err_ev_new) (\<lambda>ev. Inr (ev, pty_name e))))"

text \<open>The method sets up the logger before it looks at its argument.\<close>

definition createPTS ::
    "(nat \<Rightarrow> u8) \<Rightarrow> u32 \<Rightarrow> (int \<Rightarrow> string) \<Rightarrow> pty_env \<Rightarrow> jsval list \<Rightarrow> process \<Rightarrow> ((nat \<times> pty_call) js \<times> process) res" where
  "createPTS jk sink0 strerr e info p =
     bindR (setupClass jk sink0 DEFAULT_BUFFER_SIZE LOGGER_DEFAULT_CHUNK_SIZE p) (\<lambda>(_, p).
       case jsArg info 0 of
         JFunction cb \<Rightarrow>
           bindR (open_pty strerr e) (\<lambda>(err, slave).
             Inr (Return (cb,
               case slave of
                 Some name \<Rightarrow> if hasErr err then PtyError (ToObject (err_ev_to_JS err (Some ''Error in creating pseudo-terminal: '')))
                              else PtyOpened (pty_fd e) name
               | None \<Rightarrow> PtyError (ToObject (err_ev_to_JS err (Some ''Error in creating pseudo-terminal: '')))), p))
       | _ \<Rightarrow> Inr (Throw ''Malformed call to addTarget()'', p))"

text \<open>Without a name and without an error the callback gets an empty handle.\<close>

lemma createPTS_without_name:
  assumes "the_LOGGER p = Some l" "0 \<le> pty_fd e" "pty_grant e = None" "pty_unlock e = None" "pty_name e = None"
  shows "createPTS jk sink0 strerr e [JFunction cb] p = Inr (Return (cb, PtyError JsEmpty), p)"
  using assms by (simp add: createPTS_def setupClass_def open_pty_def jsArg_def ToObject_def err_ev_to_JS_def hasErr_def err_ev_new_def)

text \<open>A sink that is set up keeps both ends of its pipe open.\<close>

lemma dgram_sink_leaks: "0 \<le> fst (wakeup_pipe sk) \<Longrightarrow> 0 \<le> snd (wakeup_pipe sk) \<Longrightarrow> snd (UnixDgramSink_delete sk) = []"
  by (simp add: UnixDgramSink_delete_def)

lemma drain_pool_items: "circular_inv q \<Longrightarrow> drain_pool q = items q"
proof (induction "items q" arbitrary: q)
  case Nil
  obtain r q' where t: "tw_remove q = (r, q')" by (cases "tw_remove q")
  then show ?case using tw_remove_spec [OF Nil.prems t] Nil.hyps [symmetric] by (simp add: drain_pool.simps [of q])
next
  case (Cons a as)
  obtain r q' where t: "tw_remove q = (r, q')" by (cases "tw_remove q")
  then show ?case using tw_remove_spec [OF Cons.prems t] Cons.hyps(1) [of q'] Cons.hyps(2) [symmetric]
    by (simp add: drain_pool.simps [of q])
qed

section \<open>The logger deletes what it owns once\<close>

lemma delete_targets_run: "distinct (map snd xs) \<Longrightarrow> \<forall>(i, a) \<in> set xs. tgts st a \<noteq> None \<Longrightarrow>
    foldR (\<lambda>(_, a). delete_target a) xs st = Inr (st\<lparr>tgts := \<lambda>a. if a \<in> snd ` set xs then None else tgts st a\<rparr>)"
proof (induction xs arbitrary: st)
  case (Cons x xs)
  obtain i a where x: "x = (i, a)" by (cases x)
  define st1 where "st1 = st\<lparr>tgts := (tgts st)(a := None)\<rparr>"
  have "delete_target a st = Inr st1" using Cons.prems(2) by (auto simp: delete_target_def deref_def st1_def x)
  moreover have "foldR (\<lambda>(_, a). delete_target a) xs st1 = Inr (st1\<lparr>tgts := \<lambda>a. if a \<in> snd ` set xs then None else tgts st1 a\<rparr>)"
    using Cons.prems by (intro Cons.IH) (auto simp: st1_def x image_iff split: prod.splits)
  moreover have "(\<lambda>b. if b \<in> snd ` set xs then None else tgts st1 b) = (\<lambda>b. if b \<in> snd ` set (x # xs) then None else tgts st b)"
    by (auto simp: st1_def x)
  ultimately show ?case by (simp add: x st1_def)
qed simp

lemma delete_masters_run: "circular_inv (masterBufferAvail st) \<Longrightarrow> distinct (items (masterBufferAvail st)) \<Longrightarrow>
    \<forall>a \<in> set (items (masterBufferAvail st)). logs st a \<noteq> None \<Longrightarrow>
    \<exists>q. delete_masters st = Inr (st\<lparr>masterBufferAvail := q,
      logs := \<lambda>a. if a \<in> set (items (masterBufferAvail st)) then None else logs st a\<rparr>) \<and> items q = []"
proof (induction "items (masterBufferAvail st)" arbitrary: st)
  case Nil
  obtain r q where t: "tw_remove (masterBufferAvail st) = (r, q)" by (cases "tw_remove (masterBufferAvail st)")
  then have "r = None" "q = masterBufferAvail st" using tw_remove_spec [OF Nil.prems(1) t] Nil.hyps [symmetric] by simp_all
  then show ?case using t Nil.hyps [symmetric] by (intro exI [of _ q]) (simp add: delete_masters.simps [of st])
next
  case (Cons a as)
  obtain r q where t: "tw_remove (masterBufferAvail st) = (r, q)" by (cases "tw_remove (masterBufferAvail st)")
  then have q: "r = Some a" "items q = as" "circular_inv q"
    using tw_remove_spec [OF Cons.prems(1) t] Cons.hyps(2) [symmetric] by simp_all
  define st1 where "st1 = (st\<lparr>masterBufferAvail := q\<rparr>)\<lparr>logs := (logs st)(a := None)\<rparr>"
  have 1: "delete_master a (st\<lparr>masterBufferAvail := q\<rparr>) = Inr st1"
    using Cons.prems(3) Cons.hyps(2) [symmetric] by (auto simp: delete_master_def delete_log_def deref_def st1_def)
  have "\<exists>q'. delete_masters st1 = Inr (st1\<lparr>masterBufferAvail := q',
      logs := \<lambda>b. if b \<in> set (items (masterBufferAvail st1)) then None else logs st1 b\<rparr>) \<and> items q' = []"
    using Cons.prems Cons.hyps(2) [symmetric] q by (intro Cons.hyps(1)) (auto simp: st1_def)
  moreover have "(\<lambda>b. if b \<in> set as then None else logs st1 b) = (\<lambda>b. if b \<in> set (a # as) then None else logs st b)"
    by (auto simp: st1_def)
  ultimately show ?case using t q 1 Cons.hyps(2) [symmetric] by (simp add: delete_masters.simps [of st]) (simp add: st1_def)
qed

text \<open>No target is in the map twice, and the default target is not in it.\<close>

lemma links_apart:
  assumes "links_ok st"
  shows "distinct (map snd (targets st))" and "defaultTarget st = Some a \<Longrightarrow> a \<notin> snd ` set (targets st)"
proof -
  have T: "i \<noteq> GREASE_DEFAULT_TARGET_ID \<and> (\<exists>t. tgts st a = Some t \<and> myId t = i)" if "(i, a) \<in> set (targets st)" for i a
    using assms that by (auto simp: links_ok_def)
  have "distinct (targets st)" using assms by (auto simp: links_ok_def distinct_map)
  moreover have "inj_on snd (set (targets st))"
  proof (rule inj_onI)
    fix x y assume "x \<in> set (targets st)" "y \<in> set (targets st)" "snd x = snd y"
    moreover obtain i a j b where "x = (i, a)" "y = (j, b)" by (cases x, cases y) blast
    ultimately show "x = y" using T [of i a] T [of j b] by auto
  qed
  ultimately show "distinct (map snd (targets st))" by (simp add: distinct_map)
  show "a \<notin> snd ` set (targets st)" if "defaultTarget st = Some a"
  proof -
    have "\<exists>t. tgts st a = Some t \<and> myId t = GREASE_DEFAULT_TARGET_ID" using assms that by (auto simp: links_ok_def)
    then show ?thesis using T by force
  qed
qed

text \<open>C8 In every state a logger can reach its destructor returns: it frees the default target, each target of the table and
  each free master buffer, none of them twice, and frees nothing else; the buffers of messages still queued, and targets that have
  not reported yet, stay behind.\<close>

theorem destructor_frees_once:
  assumes "0 < n" "tlogger_new jk sink0 n c = Inr st0" "logger_run st0 st"
  shows "\<exists>st'. GreaseLogger_delete st = Inr st' \<and> items (masterBufferAvail st') = [] \<and>
    tgts st' = (\<lambda>a. if defaultTarget st = Some a \<or> a \<in> snd ` set (targets st) then None else tgts st a) \<and>
    logs st' = (\<lambda>a. if a \<in> set (items (masterBufferAvail st)) then None else logs st a) \<and>
    (\<forall>a \<in> set (queued_logs (items (internalCmdQueue st))). logs st' a \<noteq> None)"
proof -
  have L: "links_ok st" by (rule reachable_links [OF assms])
  have M: "masters_ok st" using reachable_inv [OF assms] by (rule buffers_invD)
  have T: "\<exists>t. tgts st a = Some t" if "(i, a) \<in> set (targets st)" for i a
    using L that unfolding links_ok_def by blast
  have D: "\<exists>t. tgts st a = Some t" if "defaultTarget st = Some a" for a
    using L that by (auto simp: links_ok_def)
  note dist = links_apart(1) [OF L] and apart = links_apart(2) [OF L]
  define st1 where "st1 = (case defaultTarget st of Some a \<Rightarrow> st\<lparr>tgts := (tgts st)(a := None)\<rparr> | None \<Rightarrow> st)"
  define st2 where "st2 = st1\<lparr>tgts := \<lambda>a. if a \<in> snd ` set (targets st) then None else tgts st1 a\<rparr>"
  have 1: "(case defaultTarget st of Some a \<Rightarrow> delete_target a st | None \<Rightarrow> Inr st) = Inr st1"
    using D by (auto simp: st1_def delete_target_def deref_def split: option.splits)
  have same: "targets st1 = targets st" "masterBufferAvail st2 = masterBufferAvail st" "logs st2 = logs st"
    "tgts st2 = (\<lambda>a. if defaultTarget st = Some a \<or> a \<in> snd ` set (targets st) then None else tgts st a)"
    by (auto simp: st1_def st2_def fun_eq_iff split: option.splits)
  have "tgts st1 a \<noteq> None" if x: "(i, a) \<in> set (targets st)" for i a
  proof -
    have "a \<in> snd ` set (targets st)" using x by (rule image_eqI [rotated]) simp
    then have "defaultTarget st \<noteq> Some a" using apart by blast
    then show ?thesis using T [OF x] by (auto simp: st1_def split: option.splits)
  qed
  then have "\<forall>(i, a) \<in> set (targets st). tgts st1 a \<noteq> None" by blast
  then have 2: "foldR (\<lambda>(_, a). delete_target a) (targets st1) st1 = Inr st2"
    using delete_targets_run [OF dist, of st1] by (simp add: same(1) st2_def)
  have "circular_inv (masterBufferAvail st2)" "distinct (items (masterBufferAvail st2))"
    "\<forall>a \<in> set (items (masterBufferAvail st2)). logs st2 a \<noteq> None"
    using M by (auto simp: masters_ok_def masters_def same)
  then obtain q where "delete_masters st2 = Inr (st2\<lparr>masterBufferAvail := q,
      logs := \<lambda>a. if a \<in> set (items (masterBufferAvail st)) then None else logs st a\<rparr>)" "items q = []"
    using delete_masters_run [of st2] unfolding same by blast
  then show ?thesis using 1 2 M by (auto simp: GreaseLogger_delete_def same masters_ok_def masters_def)
qed

lemma destructor_frees_once_witness:
  "\<exists>st0 st1 st'. tlogger_new (\<lambda>_. 0) 0 100 1500 = Inr st0 \<and> Start (\<lambda>_. '''') None [JFunction 7] st0 = Inr st1 \<and>
     GreaseLogger_delete st1 = Inr st' \<and> tgts st' (nextTgt st0) = None"
proof -
  obtain st0 st1 t where d: "tlogger_new (\<lambda>_. 0) 0 100 1500 = Inr st0" "logger_run st0 st1"
    "Start (\<lambda>_. '''') None [JFunction 7] st0 = Inr st1" "defaultTarget st1 = Some (nextTgt st0)" "tgts st1 (nextTgt st0) = Some t"
    by (rule demo_started)
  show ?thesis using destructor_frees_once [OF _ d(1,2)] d by auto
qed

end
