(* ===== verification/CircularWait.thy ===== *)
theory CircularWait
  imports QueueSpec "HOL-Library.Signed_Division"
begin

text \<open>
  The rest of the ring buffer (deps/twlib/include/TW/tw_circular.h) and of its semaphore
  (tw_sema2.h): the forms that wait, with and without a deadline, the access by position and
  the iterator. A thread that waits gives the mutex away. What other threads do until it has the
  mutex again is an argument: a list of wake-ups, each the return code of
  \<open>pthread_cond_wait\<close> and the queue as it is found; with the list used up the thread still waits.
  Mutex and signals are implicit, as in Circular: a step between two waits is atomic.
\<close>

section \<open>Deadlines\<close>

text \<open>tw_utils.cpp. \<open>time_t\<close>, \<open>suseconds_t\<close> and \<open>long\<close> have 64 bits; going past them is undefined.\<close>

record timeval =
  tv_sec :: int
  tv_usec :: int

record timespec =
  ts_sec :: int
  ts_nsec :: int

definition long :: "int \<Rightarrow> int res" where
  "long i = (if - (2 ^ 63) \<le> i \<and> i < 2 ^ 63 then Inr i else Inl OutOfBounds)"

definition usec_to_timeval :: "int \<Rightarrow> timeval" where
  "usec_to_timeval usec = \<lparr>tv_sec = usec sdiv 1000000, tv_usec = usec smod 1000000\<rparr>"

definition add_usec_to_timeval :: "int \<Rightarrow> timeval \<Rightarrow> timeval res" where
  "add_usec_to_timeval usec tv =
     bindR (long (tv_sec tv + usec sdiv 1000000)) (\<lambda>s.
     bindR (long (tv_usec tv + usec smod 1000000)) (\<lambda>u. Inr \<lparr>tv_sec = s, tv_usec = u\<rparr>))"

definition timeval_to_timespec :: "timeval \<Rightarrow> timespec res" where
  "timeval_to_timespec tv =
     bindR (long (tv_usec tv * 1000)) (\<lambda>ns.
     bindR (long (tv_sec tv + ns sdiv 1000000000)) (\<lambda>s.
       Inr \<lparr>ts_sec = s, ts_nsec = ns smod 1000000000\<rparr>))"

definition deadline :: "timeval \<Rightarrow> int \<Rightarrow> timespec res" where
  "deadline now usec_wait = bindR (add_usec_to_timeval usec_wait now) timeval_to_timespec"

section \<open>The semaphore\<close>

type_synonym 'a wakeups = "(int \<times> 'a circular) list"

definition sema_reset :: "'a circular \<Rightarrow> 'a circular" where
  "sema_reset c = c\<lparr>sema_cnt := sema_size c\<rparr>"

definition sema_count :: "'a circular \<Rightarrow> int" where
  "sema_count c = sema_cnt c"

text \<open>The loop of \<open>acquireAndKeepLock\<close>, with and without a deadline: the return code, the queue and
  the wake-ups not used.\<close>

fun acquireAndKeepLock_until :: "'a wakeups \<Rightarrow> 'a circular \<Rightarrow> (int \<times> 'a circular \<times> 'a wakeups) res" where
  "acquireAndKeepLock_until ws c =
     (if sema_cnt c \<ge> 1 then Inr (0, c\<lparr>sema_cnt := sema_cnt c - 1\<rparr>, ws)
      else (case ws of
              [] \<Rightarrow> Inl WouldBlock
            | (r, c') # ws \<Rightarrow> if r \<noteq> 0 then Inr (r, c', ws) else acquireAndKeepLock_until ws c'))"

definition acquireAndKeepLock_usec ::
    "(timespec \<Rightarrow> 'a wakeups) \<Rightarrow> timeval \<Rightarrow> int \<Rightarrow> 'a circular \<Rightarrow> (int \<times> 'a circular \<times> 'a wakeups) res" where
  "acquireAndKeepLock_usec env now usec_wait c =
     bindR (deadline now usec_wait) (\<lambda>ts. acquireAndKeepLock_until (env ts) c)"

text \<open>\<open>acquire\<close> is the same loop, followed by unlocking.\<close>

fun sema_acquire :: "'a wakeups \<Rightarrow> 'a circular \<Rightarrow> (int \<times> 'a circular \<times> 'a wakeups) res" where
  "sema_acquire ws c =
     (if sema_cnt c < 1
      then (case ws of
              [] \<Rightarrow> Inl WouldBlock
            | (ret, c') # ws \<Rightarrow> if ret \<noteq> 0 then Inr (ret, c', ws) else sema_acquire ws c')
      else Inr (0, c\<lparr>sema_cnt := sema_cnt c - 1\<rparr>, ws))"

definition sema_acquire_usec ::
    "(timespec \<Rightarrow> 'a wakeups) \<Rightarrow> timeval \<Rightarrow> int \<Rightarrow> 'a circular \<Rightarrow> (int \<times> 'a circular \<times> 'a wakeups) res" where
  "sema_acquire_usec env now usec_wait c = bindR (deadline now usec_wait) (\<lambda>ts. sema_acquire (env ts) c)"

text \<open>Waiting for an element: one wait, without a loop. A queue that is empty after it counts as an error.\<close>

definition waitForAcquirersKeepLock :: "'a wakeups \<Rightarrow> 'a circular \<Rightarrow> (int \<times> 'a circular \<times> 'a wakeups) res" where
  "waitForAcquirersKeepLock ws c =
     (if sema_cnt c \<ge> sema_size c
      then (case ws of
              [] \<Rightarrow> Inl WouldBlock
            | (ret, c') # ws \<Rightarrow> Inr (if sema_cnt c' \<ge> sema_size c' then -1 else ret, c', ws))
      else Inr (0, c, ws))"

definition waitForAcquirersKeepLock_usec ::
    "(timespec \<Rightarrow> 'a wakeups) \<Rightarrow> timeval \<Rightarrow> int \<Rightarrow> 'a circular \<Rightarrow> (int \<times> 'a circular \<times> 'a wakeups) res" where
  "waitForAcquirersKeepLock_usec env now usec_wait c =
     bindR (deadline now usec_wait) (\<lambda>ts. waitForAcquirersKeepLock (env ts) c)"

definition waitForAcquirers :: "'a wakeups \<Rightarrow> 'a circular \<Rightarrow> (int \<times> 'a circular \<times> 'a wakeups) res" where
  "waitForAcquirers ws c =
     (if sema_cnt c \<ge> sema_size c
      then (case ws of
              [] \<Rightarrow> Inl WouldBlock
            | (ret, c') # ws \<Rightarrow> Inr (if sema_cnt c' \<ge> sema_size c' then -1 else ret, c', ws))
      else Inr (0, c, ws))"

definition waitForAcquirers_usec ::
    "(timespec \<Rightarrow> 'a wakeups) \<Rightarrow> timeval \<Rightarrow> int \<Rightarrow> 'a circular \<Rightarrow> (int \<times> 'a circular \<times> 'a wakeups) res" where
  "waitForAcquirers_usec env now usec_wait c =
     bindR (deadline now usec_wait) (\<lambda>ts. waitForAcquirers (env ts) c)"

text \<open>One wait whatever the count is.\<close>

definition waitForDecrementKeepLock :: "'a wakeups \<Rightarrow> (int \<times> 'a circular \<times> 'a wakeups) res" where
  "waitForDecrementKeepLock ws = (case ws of [] \<Rightarrow> Inl WouldBlock | (ret, c') # ws \<Rightarrow> Inr (ret, c', ws))"

definition waitForDecrementKeepLock_usec ::
    "(timespec \<Rightarrow> 'a wakeups) \<Rightarrow> timeval \<Rightarrow> int \<Rightarrow> (int \<times> 'a circular \<times> 'a wakeups) res" where
  "waitForDecrementKeepLock_usec env now usec_wait =
     bindR (deadline now usec_wait) (\<lambda>ts. waitForDecrementKeepLock (env ts))"

text \<open>The releases, with the condition variables they signal: a waiting acquirer, a waiting remover.\<close>

datatype wake = Signal_gtZero | Broadcast_gtZero | Broadcast_decrement

definition sema_release :: "'a circular \<Rightarrow> 'a circular \<times> wake list" where
  "sema_release c =
     (let c = c\<lparr>sema_cnt := sema_cnt c + 1\<rparr> in (c, if sema_cnt c > 0 then [Signal_gtZero] else []))"

definition releaseAndKeepLock :: "'a circular \<Rightarrow> 'a circular \<times> wake list" where
  "releaseAndKeepLock c =
     (let c = c\<lparr>sema_cnt := sema_cnt c + 1\<rparr> in (c, if sema_cnt c > 0 then [Signal_gtZero] else []))"

definition releaseAll :: "'a circular \<Rightarrow> 'a circular \<times> wake list" where
  "releaseAll c = (c\<lparr>sema_cnt := sema_cnt c + 1\<rparr>, [Broadcast_decrement, Broadcast_gtZero])"

definition releaseAllAcquireLocks :: "'a circular \<Rightarrow> 'a circular \<times> wake list" where
  "releaseAllAcquireLocks c = (c, [Broadcast_decrement])"

definition tw_unblockAll :: "'a circular \<Rightarrow> 'a circular \<times> wake list" where
  "tw_unblockAll c = releaseAll c"

definition tw_unblockAllRemovers :: "'a circular \<Rightarrow> 'a circular \<times> wake list" where
  "tw_unblockAllRemovers c = releaseAllAcquireLocks c"

section \<open>Adding and removing with waits\<close>

text \<open>\<open>add\<close> does not look at the return code of the wait.\<close>

definition tw_add_wait :: "'a wakeups \<Rightarrow> 'a \<Rightarrow> 'a circular \<Rightarrow> ('a circular \<times> 'a wakeups) res" where
  "tw_add_wait ws d c = bindR (acquireAndKeepLock_until ws c) (\<lambda>(r, c, ws). Inr (tw_place d c, ws))"

definition tw_addMv_wait ::
    "('a \<Rightarrow> 'a) \<Rightarrow> 'a wakeups \<Rightarrow> 'a \<Rightarrow> 'a circular \<Rightarrow> ('a \<times> 'a circular \<times> 'a wakeups) res" where
  "tw_addMv_wait mv ws d c = bindR (acquireAndKeepLock_until ws c) (\<lambda>(r, c, ws). Inr (mv d, tw_place d c, ws))"

definition tw_add_usec ::
    "(timespec \<Rightarrow> 'a wakeups) \<Rightarrow> timeval \<Rightarrow> 'a \<Rightarrow> int \<Rightarrow> 'a circular \<Rightarrow> (bool \<times> 'a circular \<times> 'a wakeups) res" where
  "tw_add_usec env now d usec_wait c =
     bindR (acquireAndKeepLock_usec env now usec_wait c) (\<lambda>(r, c, ws).
       if r = 0 then Inr (True, tw_place d c, ws) else Inr (False, c, ws))"

definition tw_addMv_usec ::
    "('a \<Rightarrow> 'a) \<Rightarrow> (timespec \<Rightarrow> 'a wakeups) \<Rightarrow> timeval \<Rightarrow> 'a \<Rightarrow> int \<Rightarrow> 'a circular \<Rightarrow>
     (bool \<times> 'a \<times> 'a circular \<times> 'a wakeups) res" where
  "tw_addMv_usec mv env now d usec_wait c =
     bindR (acquireAndKeepLock_usec env now usec_wait c) (\<lambda>(r, c, ws).
       if r = 0 then Inr (True, mv d, tw_place d c, ws) else Inr (False, d, c, ws))"

text \<open>
  Taking an element after a wait. The test for the last element comes before the release, so
  an emptied queue is not reset to its beginning there.
\<close>

definition take_waited :: "('a \<Rightarrow> 'a) \<Rightarrow> 'a circular \<Rightarrow> 'a option \<times> 'a circular" where
  "take_waited mv c =
     (let out = nat (nextOut c);
          fill = cells c ! out;
          c = c\<lparr>cells := (cells c)[out := mv fill]\<rparr>;
          c = (if tw_remain c = 0 then c\<lparr>nextIn := -1, nextOut := 0, revd := False\<rparr> else c);
          c = c\<lparr>nextOut := tw_nextNextOut c\<rparr>
      in (Some fill, releaseWithoutLock c))"

definition tw_removeMvOrBlock ::
    "('a \<Rightarrow> 'a) \<Rightarrow> 'a wakeups \<Rightarrow> 'a circular \<Rightarrow> ('a option \<times> 'a circular \<times> 'a wakeups) res" where
  "tw_removeMvOrBlock mv ws c =
     (let rm = tw_remain c
      in if rm > 0
         then (let out = nat (nextOut c)
               in Inr (Some (cells c ! out),
                    tw_advance_out rm ((releaseWithoutLock c)\<lparr>cells := (cells c)[out := mv (cells c ! out)]\<rparr>), ws))
         else bindR (waitForAcquirersKeepLock ws c) (\<lambda>(r, c, ws).
                if r = 0 then (case take_waited mv c of (x, c) \<Rightarrow> Inr (x, c, ws)) else Inr (None, c, ws)))"

definition tw_removeOrBlock :: "'a wakeups \<Rightarrow> 'a circular \<Rightarrow> ('a option \<times> 'a circular \<times> 'a wakeups) res" where
  "tw_removeOrBlock ws c =
     (let rm = tw_remain c
      in if rm > 0
         then Inr (Some (cells c ! nat (nextOut c)), tw_advance_out rm (releaseWithoutLock c), ws)
         else bindR (waitForAcquirersKeepLock ws c) (\<lambda>(r, c, ws).
                if r = 0 then (case take_waited id c of (x, c) \<Rightarrow> Inr (x, c, ws)) else Inr (None, c, ws)))"

definition tw_removeMvOrBlock_usec ::
    "('a \<Rightarrow> 'a) \<Rightarrow> (timespec \<Rightarrow> 'a wakeups) \<Rightarrow> timeval \<Rightarrow> int \<Rightarrow> 'a circular \<Rightarrow>
     ('a option \<times> 'a circular \<times> 'a wakeups) res" where
  "tw_removeMvOrBlock_usec mv env now usec_wait c =
     (let rm = tw_remain c
      in if rm > 0
         then (let out = nat (nextOut c)
               in Inr (Some (cells c ! out),
                    tw_advance_out rm ((releaseWithoutLock c)\<lparr>cells := (cells c)[out := mv (cells c ! out)]\<rparr>), []))
         else bindR (waitForAcquirersKeepLock_usec env now usec_wait c) (\<lambda>(r, c, ws).
                if r = 0 then (case take_waited mv c of (x, c) \<Rightarrow> Inr (x, c, ws)) else Inr (None, c, ws)))"

definition tw_removeOrBlock_usec ::
    "(timespec \<Rightarrow> 'a wakeups) \<Rightarrow> timeval \<Rightarrow> int \<Rightarrow> 'a circular \<Rightarrow>
     ('a option \<times> 'a circular \<times> 'a wakeups) res" where
  "tw_removeOrBlock_usec env now usec_wait c =
     (let rm = tw_remain c
      in if rm > 0
         then Inr (Some (cells c ! nat (nextOut c)), tw_advance_out rm (releaseWithoutLock c), [])
         else bindR (waitForAcquirersKeepLock_usec env now usec_wait c) (\<lambda>(r, c, ws).
                if r = 0 then (case take_waited id c of (x, c) \<Rightarrow> Inr (x, c, ws)) else Inr (None, c, ws)))"

section \<open>Access by position\<close>

definition get_start :: "'a circular \<Rightarrow> int" where
  "get_start c =
     (let p = (if revd c then (let p = nextIn c - 2 in if p < 0 then csize c - 1 else p) else nextOut c - 1)
      in p + 1)"

text \<open>The loop wraps before it steps, so that it can stop at \<open>_size\<close>.\<close>

fun get_walk :: "int \<Rightarrow> nat \<Rightarrow> int \<Rightarrow> int" where
  "get_walk sz 0 p = p"
| "get_walk sz (Suc k) p = get_walk sz k ((if p \<ge> sz then 0 else p) + 1)"

definition at_position :: "int \<Rightarrow> 'a circular \<Rightarrow> int option" where
  "at_position n c =
     (if 0 \<le> n \<and> n < tw_remain c then Some (get_walk (csize c) (nat n) (get_start c)) else None)"

definition tw_get :: "int \<Rightarrow> 'a circular \<Rightarrow> 'a option res" where
  "tw_get n c =
     (case at_position n c of
        None \<Rightarrow> Inr None
      | Some p \<Rightarrow> if 0 \<le> p \<and> p < int (length (cells c)) then Inr (Some (cells c ! nat p)) else Inl OutOfBounds)"

definition tw_set :: "int \<Rightarrow> 'a \<Rightarrow> 'a circular \<Rightarrow> (bool \<times> 'a circular) res" where
  "tw_set n d c =
     (case at_position n c of
        None \<Rightarrow> Inr (False, c)
      | Some p \<Rightarrow> if 0 \<le> p \<and> p < int (length (cells c)) then Inr (True, c\<lparr>cells := (cells c)[nat p := d]\<rparr>)
                 else Inl OutOfBounds)"

definition tw_setMv :: "('a \<Rightarrow> 'a) \<Rightarrow> int \<Rightarrow> 'a \<Rightarrow> 'a circular \<Rightarrow> (bool \<times> 'a \<times> 'a circular) res" where
  "tw_setMv mv n d c =
     (case at_position n c of
        None \<Rightarrow> Inr (False, d, c)
      | Some p \<Rightarrow> if 0 \<le> p \<and> p < int (length (cells c))
                 then Inr (True, mv d, c\<lparr>cells := (cells c)[nat p := d]\<rparr>) else Inl OutOfBounds)"

section \<open>The iterator\<close>

text \<open>\<open>getIter\<close> takes the mutex and \<open>release\<close> gives it back.\<close>

record circ_iter =
  it_valid :: bool
  it_n :: int
  it_p :: int

definition tw_getIter :: "'a circular \<Rightarrow> circ_iter" where
  "tw_getIter c = \<lparr>it_valid = (tw_remain c > 0), it_n = 0, it_p = nextOut c\<rparr>"

definition circ_next :: "'a circular \<Rightarrow> circ_iter \<Rightarrow> bool \<times> circ_iter" where
  "circ_next c it =
     (let it = it\<lparr>it_n := it_n it + 1\<rparr>
      in if it_n it < tw_remain c
         then (let p = it_p it + 1 in (True, it\<lparr>it_p := if p \<ge> csize c then 0 else p\<rparr>))
         else (False, it\<lparr>it_valid := False\<rparr>))"

definition circ_data :: "'a circular \<Rightarrow> circ_iter \<Rightarrow> 'a option" where
  "circ_data c it = (if it_valid it \<and> it_n it < tw_remain c then Some (cells c ! nat (it_p it)) else None)"

definition circ_atEnd :: "'a circular \<Rightarrow> circ_iter \<Rightarrow> bool" where
  "circ_atEnd c it \<longleftrightarrow> \<not> (it_valid it \<and> it_n it < tw_remain c)"

definition circ_release :: "circ_iter \<Rightarrow> circ_iter" where
  "circ_release it = it\<lparr>it_valid := False\<rparr>"

text \<open>\<open>while(!iter.atEnd()) { iter.data(d); iter.next(); }\<close>\<close>

function circ_all :: "'a circular \<Rightarrow> circ_iter \<Rightarrow> 'a option list" where
  "circ_all c it = (if circ_atEnd c it then [] else circ_data c it # circ_all c (snd (circ_next c it)))"
  by auto
termination
  by (relation "measure (\<lambda>(c, it). nat (tw_remain c - it_n it))")
    (auto simp: circ_next_def circ_atEnd_def Let_def)

declare circ_all.simps [simp del] acquireAndKeepLock_until.simps [simp del] sema_acquire.simps [simp del]

section \<open>What a wait can do\<close>

text \<open>
  A removal after a wait leaves an emptied queue where it is, not at the beginning: the invariant
  of a queue that is also used that way is weaker when the queue is empty.
\<close>

definition ring_inv :: "'a circular \<Rightarrow> bool" where
  "ring_inv c \<longleftrightarrow>
     0 < csize c \<and> length (cells c) = nat (csize c) \<and> sema_size c = csize c \<and>
     0 \<le> sema_cnt c \<and> sema_cnt c \<le> csize c \<and> 0 \<le> nextOut c \<and> nextOut c < csize c \<and>
     (circular_inv c \<or> nextIn c = slot c (tw_remain c - 1))"

lemma ring_inv_fresh: "circular_inv c \<Longrightarrow> ring_inv c"
  by (simp add: ring_inv_def circular_inv_def)

lemma ring_inv_filled: "ring_inv c \<Longrightarrow> tw_remain c \<noteq> 0 \<Longrightarrow> circular_inv c"
  by (auto simp: ring_inv_def circular_inv_def)

lemma ring_nextNextIn: "ring_inv c \<Longrightarrow> tw_nextNextIn c = slot c (tw_remain c)"
  using nextNextIn_eq [of c] nextNextIn_slot [of c "tw_remain c"] by (auto simp: ring_inv_def)

lemma ring_remain_less: "ring_inv c \<Longrightarrow> 1 \<le> sema_cnt c \<longleftrightarrow> length (items c) < capacity c"
  by (auto simp: ring_inv_def capacity_def tw_remain_def countNoBlock_def)

lemma ring_empty: "ring_inv c \<Longrightarrow> items c = [] \<longleftrightarrow> sema_size c \<le> sema_cnt c"
  by (auto simp: ring_inv_def items_Nil_iff tw_remain_def countNoBlock_def)

text \<open>Adding works from the weaker invariant too, and gives the stronger one.\<close>

lemma ring_place:
  fixes d :: 'a
  assumes inv: "ring_inv c" and room: "1 \<le> sema_cnt c"
  defines "c' \<equiv> tw_place d (c\<lparr>sema_cnt := sema_cnt c - 1\<rparr>)"
  shows "circular_inv c' \<and> items c' = items c @ [d] \<and> capacity c' = capacity c"
proof (cases "tw_remain c = 0")
  case False
  show ?thesis unfolding c'_def by (rule tw_place_inv_items [OF ring_inv_filled [OF inv False] room])
next
  case True
  have o: "0 \<le> nextOut c" "nextOut c < csize c" "length (cells c) = nat (csize c)" "sema_size c = csize c"
    using inv by (auto simp: ring_inv_def)
  have i: "tw_nextNextIn c = nextOut c" using ring_nextNextIn [OF inv] slot_0 [OF o(1,2)] True by simp
  have c': "c' = c\<lparr>sema_cnt := sema_cnt c - 1, nextIn := nextOut c, cells := (cells c)[nat (nextOut c) := d]\<rparr>"
    by (simp add: c'_def tw_place_def Let_def i)
  have "tw_remain c' = 1" "slot c' 0 = nextOut c" using True o by (simp_all add: c' tw_remain_def countNoBlock_def slot_def)
  moreover from this have "items c' = [d]" using o by (simp add: items_def) (simp add: c')
  moreover have "items c = []" using True by (simp add: items_Nil_iff)
  ultimately show ?thesis using o room True by (simp add: circular_inv_def capacity_def c' tw_remain_def countNoBlock_def)
qed

lemma ring_add:
  assumes inv: "ring_inv c" and run: "tw_addIfRoom d c = (b, c')"
  shows "ring_inv c' \<and> capacity c' = capacity c \<and> (b \<longleftrightarrow> length (items c) < capacity c) \<and>
    items c' = (if b then items c @ [d] else items c)"
proof (cases "1 \<le> sema_cnt c")
  case True
  with run have "b" "c' = tw_place d (c\<lparr>sema_cnt := sema_cnt c - 1\<rparr>)"
    by (auto simp: tw_addIfRoom_def acquireAndKeepLockNoBlock_def)
  with ring_place [OF inv True, of d] ring_remain_less [OF inv] True show ?thesis by (simp add: ring_inv_fresh)
next
  case False
  with run inv ring_remain_less [OF inv] show ?thesis by (auto simp: tw_addIfRoom_def acquireAndKeepLockNoBlock_def)
qed

lemma ring_remove:
  assumes inv: "ring_inv c" and run: "tw_removeMv mv c = (x, c')"
  shows "ring_inv c' \<and> capacity c' = capacity c \<and>
    (case items c of [] \<Rightarrow> x = None \<and> c' = c | d # ds \<Rightarrow> x = Some d \<and> items c' = ds)"
proof (cases "tw_remain c = 0")
  case False
  then show ?thesis using tw_removeMv_spec [OF ring_inv_filled [OF inv False] run] by (simp add: ring_inv_fresh)
next
  case True
  then have "items c = []" by (simp add: items_Nil_iff)
  with True run inv show ?thesis by (simp add: tw_removeMv_def)
qed

text \<open>The same interface holds under the weaker invariant.\<close>

interpretation ring: bounded_fifo ring_inv items capacity tw_addIfRoom "tw_removeMv mv"
proof
  show "length (items q) \<le> capacity q" if "ring_inv q" for q :: "'a circular"
    using that by (auto simp: ring_inv_def capacity_def tw_remain_def countNoBlock_def)
qed (auto simp del: length_items dest: ring_add ring_remove)

text \<open>The element that a removal takes after its wait is the oldest one there.\<close>

lemma take_waited_spec:
  assumes inv: "ring_inv c" and ne: "items c = d # ds" and run: "take_waited mv c = (x, c')"
  shows "x = Some d \<and> ring_inv c' \<and> items c' = ds \<and> capacity c' = capacity c"
proof (cases "tw_remain c = 1")
  case False
  have r: "0 < tw_remain c" using ne items_Nil_iff [of c] by (metis list.discI not_le)
  have "take_waited mv c = tw_removeMv mv c"
    using r False by (simp add: take_waited_def tw_removeMv_def tw_advance_out_def Let_def tw_nextNextOut_def releaseWithoutLock_def
        tw_remain_def countNoBlock_def)
  then show ?thesis using ring_remove [OF inv, of mv x c'] run ne by simp
next
  case True
  have ci: "circular_inv c" using ring_inv_filled [OF inv] True by simp
  have o: "0 \<le> nextOut c" "nextOut c < csize c" "nextIn c = nextOut c" and cnt: "sema_cnt c = csize c - 1"
    using ci True slot_0 [of c] by (auto simp: circular_inv_def tw_remain_def countNoBlock_def)
  have x: "x = Some d" using run items_hd [OF ci] True ne by (simp add: take_waited_def Let_def)
  define e where "e = c\<lparr>cells := (cells c)[nat (nextOut c) := mv (cells c ! nat (nextOut c))]\<rparr>"
  have c': "c' = e\<lparr>nextOut := tw_nextNextOut e, sema_cnt := csize c\<rparr>"
    using run True cnt by (auto simp: take_waited_def Let_def releaseWithoutLock_def e_def tw_remain_def countNoBlock_def)
  have "slot (e\<lparr>nextOut := tw_nextNextOut e\<rparr>) (-1) = slot e 0" using slot_shift [of e "-1"] o by (simp add: e_def)
  then have "nextIn c' = slot c' (-1)" using o slot_0 [of e] by (simp add: c' slot_def e_def)
  moreover have "tw_remain c' = 0" by (simp add: c' tw_remain_def countNoBlock_def e_def)
  moreover have "0 \<le> nextOut c' \<and> nextOut c' < csize c'" using nextNextOut_bounds [of e] o by (simp add: c' e_def)
  ultimately have "ring_inv c'" using ci by (auto simp: ring_inv_def circular_inv_def c' e_def)
  moreover have "items c' = []" "items c = [d]" using \<open>tw_remain c' = 0\<close> True ne length_items [of c] by (auto simp: items_Nil_iff)
  ultimately show ?thesis using ne x by (simp add: c' e_def capacity_def)
qed

lemma remove_ready:
  assumes "ring_inv c" "items c \<noteq> []"
  shows "\<exists>c'. tw_removeMvOrBlock mv ws c = Inr (Some (hd (items c)), c', ws) \<and> ring_inv c' \<and> capacity c' = capacity c \<and>
    items c' = tl (items c)"
proof -
  have "0 < tw_remain c" using assms(2) by (simp add: items_Nil_iff)
  then have "tw_removeMvOrBlock mv ws c = Inr (fst (tw_removeMv mv c), snd (tw_removeMv mv c), ws)"
    by (simp add: tw_removeMvOrBlock_def tw_removeMv_def Let_def)
  then show ?thesis using ring_remove [OF assms(1), of mv] assms(2) by (cases "tw_removeMv mv c") (auto split: list.splits)
qed

lemma remove_empty:
  assumes "ring_inv c" "items c = []"
  shows "tw_removeMvOrBlock mv ws c =
    (case ws of [] \<Rightarrow> Inl WouldBlock
     | (r, q) # ws \<Rightarrow> if r = 0 \<and> sema_cnt q < sema_size q then (case take_waited mv q of (x, q) \<Rightarrow> Inr (x, q, ws)) else Inr (None, q, ws))"
  using assms ring_empty [OF assms(1)]
  by (auto simp: tw_removeMvOrBlock_def waitForAcquirersKeepLock_def items_Nil_iff Let_def split: list.splits)

lemma remove_waited:
  assumes "ring_inv c" "items c = []" and q: "ring_inv q"
  shows "if r = 0 \<and> items q \<noteq> []
    then \<exists>c'. tw_removeMvOrBlock mv ((r, q) # ws) c = Inr (Some (hd (items q)), c', ws) \<and> ring_inv c' \<and> capacity c' = capacity q \<and>
      items c' = tl (items q)
    else tw_removeMvOrBlock mv ((r, q) # ws) c = Inr (None, q, ws)"
proof (cases "items q")
  case (Cons d ds)
  obtain x c' where t: "take_waited mv q = (x, c')" by (cases "take_waited mv q")
  show ?thesis using take_waited_spec [OF q Cons t] ring_empty [OF q] Cons t by (simp add: remove_empty [OF assms(1,2)])
qed (use ring_empty [OF q] in \<open>simp add: remove_empty [OF assms(1,2)]\<close>)

text \<open>A removal that may wait takes the oldest element there is: the head of the queue, or, when that is
  empty, the head of the queue as the wait finds it. With nothing there after the wait, or with an
  error from it, it takes nothing; without a wake-up it does not return.\<close>

theorem removeOrBlock_takes_oldest:
  assumes "ring_inv c" "\<forall>(r, q) \<in> set ws. ring_inv q"
  shows "if items c \<noteq> []
     then \<exists>c'. tw_removeMvOrBlock mv ws c = Inr (Some (hd (items c)), c', ws) \<and> ring_inv c' \<and> items c' = tl (items c)
     else (case ws of [] \<Rightarrow> tw_removeMvOrBlock mv ws c = Inl WouldBlock
       | (r, q) # ws' \<Rightarrow>
           if r = 0 \<and> items q \<noteq> []
           then \<exists>c'. tw_removeMvOrBlock mv ws c = Inr (Some (hd (items q)), c', ws') \<and> ring_inv c' \<and> items c' = tl (items q)
           else tw_removeMvOrBlock mv ws c = Inr (None, q, ws'))"
proof (cases "items c = []")
  case True
  show ?thesis
  proof (cases ws)
    case (Cons w ws')
    then obtain r q where "w = (r, q)" "ring_inv q" using assms(2) by (cases w) auto
    then show ?thesis using remove_waited [OF assms(1) True, of q r mv ws'] True Cons by (auto split: if_splits)
  qed (use True remove_empty [OF assms(1) True, of mv "[]"] in simp)
qed (use remove_ready [OF assms(1), of mv ws] in auto)

lemma removeOrBlock_eq: "tw_removeOrBlock ws c = tw_removeMvOrBlock id ws c"
  by (simp add: tw_removeOrBlock_def tw_removeMvOrBlock_def Let_def releaseWithoutLock_def)

text \<open>An addition that may wait: at once when there is room, else with the first wake-up that finds some.\<close>

lemma tw_add_wait_room: "ring_inv c \<Longrightarrow> length (items c) < capacity c \<Longrightarrow>
    \<exists>c'. tw_add_wait ws d c = Inr (c', ws) \<and> ring_inv c' \<and> capacity c' = capacity c \<and> items c' = items c @ [d]"
  using ring_place [of c d] ring_remain_less [of c]
  by (auto simp: tw_add_wait_def acquireAndKeepLock_until.simps ring_inv_fresh)

lemma tw_add_wait_full: "ring_inv c \<Longrightarrow> \<not> length (items c) < capacity c \<Longrightarrow>
    tw_add_wait ws d c = (case ws of [] \<Rightarrow> Inl WouldBlock
      | (r, c') # ws \<Rightarrow> if r \<noteq> 0 then Inr (tw_place d c', ws) else tw_add_wait ws d c')"
  using ring_remain_less [of c]
  by (auto simp: tw_add_wait_def acquireAndKeepLock_until.simps [of ws] split: list.splits prod.splits)

section \<open>Deadlines\<close>

lemma sdiv_nonneg: "0 \<le> a \<Longrightarrow> 0 < b \<Longrightarrow> a sdiv b = a div (b :: int)"
  by (cases "a = 0") (simp_all add: signed_divide_int_def)

lemma smod_nonneg: "0 \<le> a \<Longrightarrow> 0 < b \<Longrightarrow> a smod b = a mod (b :: int)"
  by (cases "a = 0") (simp_all add: signed_modulo_int_def)

text \<open>A deadline is the clock plus the wait, to the microsecond, and the nanoseconds are in range.\<close>

lemma deadline_exact:
  assumes now: "0 \<le> tv_sec now" "tv_sec now < 2 ^ 62" "0 \<le> tv_usec now" "tv_usec now < 1000000"
    and usec: "0 \<le> usec" "usec < 2 ^ 62"
  shows "\<exists>ts. deadline now usec = Inr ts \<and> 0 \<le> ts_nsec ts \<and> ts_nsec ts < 1000000000 \<and>
    ts_sec ts * 1000000000 + ts_nsec ts = (tv_sec now * 1000000 + tv_usec now + usec) * 1000"
proof -
  define s u where "s = usec div 1000000" and "u = usec mod 1000000"
  have su: "usec = s * 1000000 + u" "0 \<le> s" "s < 2 ^ 62" "0 \<le> u" "u < 1000000"
    using usec by (auto simp: s_def u_def)
  define n where "n = (tv_usec now + u) * 1000"
  have n: "0 \<le> n" "n < 2000000000" using now su by (auto simp: n_def)
  have d: "0 \<le> n div 1000000000" "n div 1000000000 \<le> 1" using n by auto
  have "deadline now usec = Inr \<lparr>ts_sec = tv_sec now + s + n div 1000000000, ts_nsec = n mod 1000000000\<rparr>"
    using now su n d usec
    by (simp add: deadline_def add_usec_to_timeval_def timeval_to_timespec_def long_def sdiv_nonneg smod_nonneg s_def u_def n_def)
  moreover have "n div 1000000000 * 1000000000 + n mod 1000000000 = n" by simp
  ultimately show ?thesis using su by (auto simp: algebra_simps n_def)
qed

section \<open>Positions and the iterator\<close>

lemma get_walk_eq: "0 \<le> p \<Longrightarrow> p \<le> sz \<Longrightarrow> int k \<le> sz \<Longrightarrow> 0 < sz \<Longrightarrow>
    get_walk sz k p = (if p + int k \<le> sz then p + int k else p + int k - sz)"
  by (induction sz k p rule: get_walk.induct) auto

lemma slot_forward: "\<not> revd c \<Longrightarrow> 0 \<le> nextOut c \<Longrightarrow> nextOut c < csize c \<Longrightarrow> 0 \<le> n \<Longrightarrow> n < csize c \<Longrightarrow>
    slot c n = (if nextOut c + n < csize c then nextOut c + n else nextOut c + n - csize c)"
  using mod_pos_pos_trivial [of "nextOut c + n - csize c" "csize c"]
  by (auto simp: slot_def minus_mod_self2)

lemma items_nth: "0 \<le> n \<Longrightarrow> n < tw_remain c \<Longrightarrow> items c ! nat n = cells c ! nat (slot c n)"
  by (simp add: items_def)


text \<open>The iterator always goes forward, which is the order of the queue when it is not reversed.\<close>

lemma circ_all_from:
  assumes inv: "ring_inv c" and fwd: "\<not> revd c"
  shows "k \<le> nat (tw_remain c) \<Longrightarrow> it_valid it \<longleftrightarrow> k < nat (tw_remain c) \<Longrightarrow> it_n it = int k \<Longrightarrow>
    (it_valid it \<longrightarrow> it_p it = slot c (int k)) \<Longrightarrow> circ_all c it = map Some (drop k (items c))"
proof (induction "nat (tw_remain c) - k" arbitrary: k it)
  case 0
  then show ?case by (simp add: circ_all.simps [of c it] circ_atEnd_def)
next
  case (Suc m)
  have n: "0 < csize c" using inv by (auto simp: ring_inv_def)
  have k: "k < nat (tw_remain c)" "it_valid it" "it_p it = slot c (int k)" using Suc.hyps(2) Suc.prems by auto
  have b: "0 \<le> it_p it" "it_p it < csize c" using slot_bounds [OF n] k by auto
  have step: "(if it_p it + 1 \<ge> csize c then 0 else it_p it + 1) = slot c (int (Suc k))"
    using wrap_up [OF b] fwd k by (simp add: slot_def mod_simps add.commute add.left_commute)
  have "circ_all c (snd (circ_next c it)) = map Some (drop (Suc k) (items c))"
  proof (rule Suc.hyps(1))
    show "m = nat (tw_remain c) - Suc k" "Suc k \<le> nat (tw_remain c)" using Suc.hyps(2) k by auto
  qed (use step k Suc.prems(3) in \<open>auto simp: circ_next_def Let_def\<close>)
  moreover have "items c ! k = cells c ! nat (slot c (int k))" using items_nth [of "int k" c] k by simp
  ultimately show ?case
    using k Suc.prems(3) Cons_nth_drop_Suc [of k "items c", symmetric] by (simp add: circ_all.simps [of c it] circ_atEnd_def circ_data_def zless_nat_eq_int_zless)
qed

lemma iterator_meets_items: "ring_inv c \<Longrightarrow> \<not> revd c \<Longrightarrow> circ_all c (tw_getIter c) = map Some (items c)"
  using circ_all_from [of c 0 "tw_getIter c"] slot_0 [of c]
  by (simp add: tw_getIter_def ring_inv_def)

section \<open>An example\<close>

text \<open>Three places, of which the oldest of two elements is in the last one.\<close>

definition demo_wrapped :: "nat circular" where
  "demo_wrapped = \<lparr>sema_cnt = 1, sema_size = 3, revd = False, enabled = True, nextIn = 0, nextOut = 2, csize = 3, cells = [8, 0, 7]\<rparr>"

lemma demo_wrapped_facts: "ring_inv demo_wrapped" "items demo_wrapped = [7, 8]" "tw_remain demo_wrapped = 2" "\<not> revd demo_wrapped"
  "ring_inv (new_circular 3 (0 :: nat))" "items (new_circular 3 (0 :: nat)) = []"
  by (simp_all add: demo_wrapped_def ring_inv_def slot_def tw_remain_def countNoBlock_def items_def new_circular_def circular_inv_def
      numeral_2_eq_2)

lemma removeOrBlock_takes_oldest_witness:
  "\<exists>c'. tw_removeMvOrBlock id [(0, demo_wrapped)] (new_circular 3 0) = Inr (Some 7, c', []) \<and> items c' = [8 :: nat]"
  using removeOrBlock_takes_oldest [of "new_circular 3 0" "[(0, demo_wrapped)]" id] by (auto simp: demo_wrapped_facts)


end
