(* ===== verification/CircularThreads.thy ===== *)
theory CircularThreads
  imports CircularWait
begin

text \<open>
  Threads on one ring buffer: adders that wait for room and removers that wait for an element, in any
  interleaving, with the signals that \<open>acquireAndKeepLock\<close> and \<open>releaseWithoutLock\<close> send. Every step is the
  part of \<open>add\<close> or \<open>removeOrBlock\<close> between two waits. Untimed waits answer 0.
\<close>

section \<open>The threads\<close>

text \<open>A thread outside the queue; waiting on \<open>gtZeroCond\<close> with the value it adds, or on
  \<open>decrementCond\<close>; woken, but without the mutex yet.\<close>

datatype 'a thread = Outside | Adder 'a | WokenAdder 'a | Remover | WokenRemover

record 'a monitor =
  queue :: "'a circular"
  threads :: "'a thread list"

datatype 'a event = Put 'a | Got 'a | Empty | Silent

fun adding :: "'a thread \<Rightarrow> bool" where
  "adding (Adder d) = True"
| "adding _ = False"

fun removing :: "'a thread \<Rightarrow> bool" where
  "removing Remover = True"
| "removing _ = False"

fun wake_up :: "'a thread \<Rightarrow> 'a thread" where
  "wake_up (Adder d) = WokenAdder d"
| "wake_up Remover = WokenRemover"
| "wake_up t = t"

definition num :: "('a \<Rightarrow> bool) \<Rightarrow> 'a list \<Rightarrow> nat" where
  "num P xs = length (filter P xs)"

text \<open>\<open>pthread_cond_signal\<close>: one thread that waits on the condition is woken, if there is one.\<close>

definition signal :: "('a thread \<Rightarrow> bool) \<Rightarrow> 'a thread list \<Rightarrow> 'a thread list \<Rightarrow> bool" where
  "signal waits ts ts' \<longleftrightarrow>
     (if num waits ts = 0 then ts' = ts else \<exists>i < length ts. waits (ts ! i) \<and> ts' = ts[i := wake_up (ts ! i)])"

text \<open>A woken remover goes on from the wait it began on an empty queue \<open>e\<close>.\<close>

inductive monitor_step :: "'a monitor \<Rightarrow> 'a event \<Rightarrow> 'a monitor \<Rightarrow> bool" where
  put: "i < length ts \<Longrightarrow> ts ! i \<in> {Outside, WokenAdder d} \<Longrightarrow> tw_add_wait [] d q = Inr (q', []) \<Longrightarrow>
    signal removing (ts[i := Outside]) ts' \<Longrightarrow> monitor_step \<lparr>queue = q, threads = ts\<rparr> (Put d) \<lparr>queue = q', threads = ts'\<rparr>"
| full: "i < length ts \<Longrightarrow> ts ! i \<in> {Outside, WokenAdder d} \<Longrightarrow> tw_add_wait [] d q = Inl WouldBlock \<Longrightarrow>
    monitor_step \<lparr>queue = q, threads = ts\<rparr> Silent \<lparr>queue = q, threads = ts[i := Adder d]\<rparr>"
| got: "i < length ts \<Longrightarrow> ts ! i = Outside \<Longrightarrow> tw_removeOrBlock [] q = Inr (Some d, q', []) \<Longrightarrow>
    signal adding ts ts' \<Longrightarrow> monitor_step \<lparr>queue = q, threads = ts\<rparr> (Got d) \<lparr>queue = q', threads = ts'\<rparr>"
| empty: "i < length ts \<Longrightarrow> ts ! i = Outside \<Longrightarrow> tw_removeOrBlock [] q = Inl WouldBlock \<Longrightarrow>
    monitor_step \<lparr>queue = q, threads = ts\<rparr> Silent \<lparr>queue = q, threads = ts[i := Remover]\<rparr>"
| got_waited: "i < length ts \<Longrightarrow> ts ! i = WokenRemover \<Longrightarrow> ring_inv e \<Longrightarrow> items e = [] \<Longrightarrow>
    tw_removeOrBlock [(0, q)] e = Inr (Some d, q', []) \<Longrightarrow> signal adding (ts[i := Outside]) ts' \<Longrightarrow>
    monitor_step \<lparr>queue = q, threads = ts\<rparr> (Got d) \<lparr>queue = q', threads = ts'\<rparr>"
| none_waited: "i < length ts \<Longrightarrow> ts ! i = WokenRemover \<Longrightarrow> ring_inv e \<Longrightarrow> items e = [] \<Longrightarrow>
    tw_removeOrBlock [(0, q)] e = Inr (None, q', []) \<Longrightarrow>
    monitor_step \<lparr>queue = q, threads = ts\<rparr> Empty \<lparr>queue = q', threads = ts[i := Outside]\<rparr>"
| spurious_adder: "i < length ts \<Longrightarrow> ts ! i = Adder d \<Longrightarrow>
    monitor_step \<lparr>queue = q, threads = ts\<rparr> Silent \<lparr>queue = q, threads = ts[i := WokenAdder d]\<rparr>"
| spurious_remover: "i < length ts \<Longrightarrow> ts ! i = Remover \<Longrightarrow>
    monitor_step \<lparr>queue = q, threads = ts\<rparr> Silent \<lparr>queue = q, threads = ts[i := WokenRemover]\<rparr>"

text \<open>Runs, with what was put in and what was taken out, in order.\<close>

inductive monitor_run :: "'a monitor \<Rightarrow> 'a list \<Rightarrow> 'a list \<Rightarrow> 'a monitor \<Rightarrow> bool" where
  nothing: "monitor_run m [] [] m"
| put_in: "monitor_run m xs ys m' \<Longrightarrow> monitor_step m' (Put d) m'' \<Longrightarrow> monitor_run m (xs @ [d]) ys m''"
| taken: "monitor_run m xs ys m' \<Longrightarrow> monitor_step m' (Got d) m'' \<Longrightarrow> monitor_run m xs (ys @ [d]) m''"
| other: "monitor_run m xs ys m' \<Longrightarrow> e \<in> {Empty, Silent} \<Longrightarrow> monitor_step m' e m'' \<Longrightarrow> monitor_run m xs ys m''"

definition new_monitor :: "nat \<Rightarrow> 'a \<Rightarrow> nat \<Rightarrow> 'a monitor" where
  "new_monitor n init k = \<lparr>queue = new_circular n init, threads = replicate k Outside\<rparr>"

section \<open>First in, first out\<close>

lemma put_queue: "ring_inv q \<Longrightarrow> tw_add_wait [] d q = Inr (q', ws) \<Longrightarrow>
    ring_inv q' \<and> capacity q' = capacity q \<and> items q' = items q @ [d] \<and> length (items q) < capacity q"
  using tw_add_wait_room [of q "[]" d] tw_add_wait_full [of q "[]" d]
  by (cases "length (items q) < capacity q") auto

lemma put_blocks: "ring_inv q \<Longrightarrow> tw_add_wait [] d q = Inl WouldBlock \<Longrightarrow> length (items q) = capacity q"
  using tw_add_wait_room [of q "[]" d] ring.bound [of q] by (cases "length (items q) < capacity q") auto

lemma got_queue: "ring_inv q \<Longrightarrow> tw_removeOrBlock [] q = Inr (x, q', ws) \<Longrightarrow>
    ring_inv q' \<and> capacity q' = capacity q \<and> (\<exists>d. x = Some d \<and> items q = d # items q')"
  using remove_ready [of q id "[]"] remove_empty [of q id "[]"]
  by (cases "items q = []") (auto simp: removeOrBlock_eq)

lemma got_blocks: "ring_inv q \<Longrightarrow> tw_removeOrBlock [] q = Inl WouldBlock \<Longrightarrow> items q = []"
  using remove_ready [of q id "[]"] by (cases "items q = []") (auto simp: removeOrBlock_eq)

lemma got_waited_queue: "ring_inv q \<Longrightarrow> ring_inv e \<Longrightarrow> items e = [] \<Longrightarrow> tw_removeOrBlock [(0, q)] e = Inr (x, q', ws) \<Longrightarrow>
    ring_inv q' \<and> capacity q' = capacity q \<and> (case x of Some d \<Rightarrow> items q = d # items q' | None \<Rightarrow> items q = [] \<and> q' = q)"
  using remove_waited [of e q 0 id "[]"]
  by (cases "items q = []") (auto simp: removeOrBlock_eq)

text \<open>What every step does to the queue.\<close>

lemma step_queue: "monitor_step m e m' \<Longrightarrow> ring_inv (queue m) \<Longrightarrow> ring_inv (queue m') \<and> capacity (queue m') = capacity (queue m) \<and>
    (case e of Put d \<Rightarrow> items (queue m') = items (queue m) @ [d] | Got d \<Rightarrow> items (queue m) = d # items (queue m')
       | _ \<Rightarrow> items (queue m') = items (queue m))"
proof (induction rule: monitor_step.induct)
  case (put i ts d q q' ts')
  then show ?case using put_queue [of q d q' "[]"] by simp
next
  case (got i ts q d q' ts')
  then show ?case using got_queue [of q "Some d" q' "[]"] by simp
next
  case (got_waited i ts e q d q' ts')
  then show ?case using got_waited_queue [of q e "Some d" q' "[]"] by simp
next
  case (none_waited i ts e q q')
  then show ?case using got_waited_queue [of q e None q' "[]"] by simp
qed simp_all

lemma run_queue: "monitor_run m xs ys m' \<Longrightarrow> ring_inv (queue m) \<Longrightarrow>
    ring_inv (queue m') \<and> capacity (queue m') = capacity (queue m) \<and> items (queue m) @ xs = ys @ items (queue m')"
proof (induction rule: monitor_run.induct)
  case (put_in m xs ys m' d m'')
  then show ?case using step_queue [OF put_in.hyps(2)] by auto
next
  case (taken m xs ys m' d m'')
  then show ?case using step_queue [OF taken.hyps(2)] by auto
next
  case (other m xs ys m' e m'')
  then show ?case using step_queue [OF other.hyps(3)] by auto
qed simp

text \<open>C6 However threads that add and remove, with and without waiting, interleave on one ring buffer: what has been
  taken out and what still lies in the buffer is, in this order, what has been put in; nothing is lost, doubled or
  overtaken, and the buffer never holds more than its places.\<close>

theorem threads_first_in_first_out:
  assumes "0 < n" "monitor_run (new_monitor n init k) xs ys m"
  shows "xs = ys @ items (queue m) \<and> length (items (queue m)) \<le> n \<and> ring_inv (queue m)"
  using run_queue [OF assms(2)] new_circular_spec [OF assms(1), of init] ring.bound [of "queue m"]
  by (simp add: new_monitor_def ring_inv_fresh del: length_items)

section \<open>No wake-up is lost\<close>

fun woken_adder :: "'a thread \<Rightarrow> bool" where
  "woken_adder (WokenAdder d) = True"
| "woken_adder _ = False"

fun woken_remover :: "'a thread \<Rightarrow> bool" where
  "woken_remover WokenRemover = True"
| "woken_remover _ = False"

text \<open>Where threads wait, as many others are woken as there is something to do for.\<close>

definition waits_ok :: "'a monitor \<Rightarrow> bool" where
  "waits_ok m \<longleftrightarrow>
     (0 < num removing (threads m) \<longrightarrow> length (items (queue m)) \<le> num woken_remover (threads m)) \<and>
     (0 < num adding (threads m) \<longrightarrow> capacity (queue m) \<le> length (items (queue m)) + num woken_adder (threads m))"

lemma num_update: "i < length xs \<Longrightarrow> num P (xs[i := y]) + of_bool (P (xs ! i)) = num P xs + of_bool (P y)"
proof (induction xs arbitrary: i)
  case (Cons x xs)
  then show ?case using Cons.IH [of "i - 1"] by (cases i) (auto simp: num_def)
qed simp

lemmas num_updates = num_update [where P = adding] num_update [where P = removing]
  num_update [where P = woken_adder] num_update [where P = woken_remover]

lemma signal_removing:
  assumes "signal removing ts ts'"
  shows "num adding ts' = num adding ts \<and> num woken_adder ts' = num woken_adder ts \<and>
    (if num removing ts = 0 then num removing ts' = 0 \<and> num woken_remover ts' = num woken_remover ts
     else num woken_remover ts' = Suc (num woken_remover ts))"
proof (cases "num removing ts = 0")
  case False
  then obtain i where i: "i < length ts" "removing (ts ! i)" "ts' = ts[i := wake_up (ts ! i)]"
    using assms by (auto simp: signal_def)
  then have "ts ! i = Remover" by (cases "ts ! i") auto
  then show ?thesis using i num_updates [OF i(1), of "wake_up (ts ! i)"] False by simp
qed (use assms in \<open>simp add: signal_def\<close>)

lemma signal_adding:
  assumes "signal adding ts ts'"
  shows "num removing ts' = num removing ts \<and> num woken_remover ts' = num woken_remover ts \<and>
    (if num adding ts = 0 then num adding ts' = 0 \<and> num woken_adder ts' = num woken_adder ts
     else num woken_adder ts' = Suc (num woken_adder ts))"
proof (cases "num adding ts = 0")
  case False
  then obtain i d where i: "i < length ts" "ts ! i = Adder d" "ts' = ts[i := wake_up (ts ! i)]"
    using assms by (auto simp: signal_def elim!: adding.elims)
  then show ?thesis using num_updates [OF i(1), of "wake_up (ts ! i)"] False by simp
qed (use assms in \<open>simp add: signal_def\<close>)

lemma step_waits: "monitor_step m e m' \<Longrightarrow> ring_inv (queue m) \<Longrightarrow> waits_ok m \<Longrightarrow> waits_ok m'"
proof (induction rule: monitor_step.induct)
  case (put i ts d q q' ts')
  then show ?case
    using put_queue [of q d q' "[]"] signal_removing [OF put.hyps(4)] num_updates [OF put.hyps(1), of Outside]
    by (auto simp: waits_ok_def simp del: length_items split: if_splits)
next
  case (full i ts d q)
  then show ?case using put_blocks [of q d] num_updates [OF full.hyps(1), of "Adder d"]
    by (auto simp: waits_ok_def simp del: length_items split: if_splits)
next
  case (got i ts q d q' ts')
  then show ?case using got_queue [of q "Some d" q' "[]"] signal_adding [OF got.hyps(4)]
    by (auto simp: waits_ok_def simp del: length_items split: if_splits)
next
  case (empty i ts q)
  then show ?case using got_blocks [of q] num_updates [OF empty.hyps(1), of Remover]
    by (auto simp: waits_ok_def simp del: length_items split: if_splits)
next
  case (got_waited i ts e q d q' ts')
  then show ?case
    using got_waited_queue [of q e "Some d" q' "[]"] signal_adding [OF got_waited.hyps(6)]
      num_updates [OF got_waited.hyps(1), of Outside]
    by (auto simp: waits_ok_def simp del: length_items split: if_splits)
next
  case (none_waited i ts e q q')
  then show ?case
    using got_waited_queue [of q e None q' "[]"] num_updates [OF none_waited.hyps(1), of Outside]
    by (auto simp: waits_ok_def simp del: length_items split: if_splits)
next
  case (spurious_adder i ts d q)
  then show ?case using num_updates [OF spurious_adder.hyps(1), of "WokenAdder d"]
    by (auto simp: waits_ok_def simp del: length_items split: if_splits)
next
  case (spurious_remover i ts q)
  then show ?case using num_updates [OF spurious_remover.hyps(1), of WokenRemover]
    by (auto simp: waits_ok_def simp del: length_items split: if_splits)
qed

lemma run_waits: "monitor_run m xs ys m' \<Longrightarrow> ring_inv (queue m) \<Longrightarrow> waits_ok m \<Longrightarrow> waits_ok m'"
proof (induction rule: monitor_run.induct)
  case (put_in m xs ys m' d m'')
  then show ?case using step_waits [OF put_in.hyps(2)] run_queue [OF put_in.hyps(1)] by blast
next
  case (taken m xs ys m' d m'')
  then show ?case using step_waits [OF taken.hyps(2)] run_queue [OF taken.hyps(1)] by blast
next
  case (other m xs ys m' e m'')
  then show ?case using step_waits [OF other.hyps(3)] run_queue [OF other.hyps(1)] by blast
qed simp

lemma new_waits: "waits_ok (new_monitor n init k)"
  by (simp add: waits_ok_def new_monitor_def num_def filter_replicate)

lemma num_0: "num P xs = 0 \<longleftrightarrow> (\<forall>x \<in> set xs. \<not> P x)"
  by (simp add: num_def filter_empty_conv)

text \<open>C7 No wake-up is lost: whenever a thread waits for an element while there is one, or for room while there is some,
  another thread of its kind has been woken. So the threads never all wait for each other: when nobody
  is woken, threads wait for elements only of an empty buffer and for room only of a full one.\<close>

theorem no_wakeup_is_lost:
  assumes "0 < n" "monitor_run (new_monitor n init k) xs ys m"
  shows "(Remover \<in> set (threads m) \<and> items (queue m) \<noteq> [] \<longrightarrow> WokenRemover \<in> set (threads m)) \<and>
    (Adder d \<in> set (threads m) \<and> length (items (queue m)) < n \<longrightarrow> (\<exists>d'. WokenAdder d' \<in> set (threads m))) \<and>
    (Remover \<in> set (threads m) \<and> Adder d \<in> set (threads m) \<longrightarrow> (\<exists>t \<in> set (threads m). woken_adder t \<or> woken_remover t))"
proof -
  have c: "ring_inv (queue (new_monitor n init k))" "capacity (queue (new_monitor n init k)) = n"
    using new_circular_spec [OF assms(1), of init] by (simp_all add: new_monitor_def ring_inv_fresh)
  have m: "waits_ok m" "capacity (queue m) = n"
    using run_waits [OF assms(2) c(1) new_waits] run_queue [OF assms(2) c(1)] c(2) by auto
  have R: "0 < length (items (queue m)) \<Longrightarrow> \<exists>t \<in> set (threads m). woken_remover t" if "Remover \<in> set (threads m)"
    using m(1) that num_0 [of removing "threads m"] num_0 [of woken_remover "threads m"]
    by (fastforce simp: waits_ok_def simp del: length_items)
  have A: "length (items (queue m)) < n \<Longrightarrow> \<exists>t \<in> set (threads m). woken_adder t" if "Adder d \<in> set (threads m)"
    using m that num_0 [of adding "threads m"] num_0 [of woken_adder "threads m"]
    by (fastforce simp: waits_ok_def simp del: length_items)
  show ?thesis
  proof (intro conjI impI; elim conjE)
    show "WokenRemover \<in> set (threads m)" if "Remover \<in> set (threads m)" "items (queue m) \<noteq> []"
      using R that by (auto elim: woken_remover.elims simp del: length_items)
    show "\<exists>d'. WokenAdder d' \<in> set (threads m)" if "Adder d \<in> set (threads m)" "length (items (queue m)) < n"
      using A that by (auto elim!: woken_adder.elims simp del: length_items)
    show "\<exists>t \<in> set (threads m). woken_adder t \<or> woken_remover t" if "Remover \<in> set (threads m)" "Adder d \<in> set (threads m)"
      using R A assms(1) that by (cases "items (queue m) = []") (auto simp del: length_items)
  qed
qed

section \<open>An example\<close>

text \<open>One place and three threads: 7 goes in, the adders of 8 and 9 wait, 7 is taken out and the first of them is woken.\<close>

definition demo_ring :: "int \<Rightarrow> int \<Rightarrow> nat \<Rightarrow> nat circular" where
  "demo_ring cnt i d = \<lparr>sema_cnt = cnt, sema_size = 1, revd = False, enabled = True, nextIn = i, nextOut = 0, csize = 1, cells = [d]\<rparr>"

lemma demo_ring_runs:
  "new_circular 1 0 = demo_ring 1 (-1) 0" "tw_add_wait [] 7 (demo_ring 1 (-1) 0) = Inr (demo_ring 0 0 7, [])"
  "tw_add_wait [] d (demo_ring 0 0 7) = Inl WouldBlock" "tw_removeOrBlock [] (demo_ring 0 0 7) = Inr (Some 7, demo_ring 1 (-1) 7, [])"
  "tw_add_wait [] 8 (demo_ring 1 (-1) 7) = Inr (demo_ring 0 0 8, [])" "items (demo_ring 0 0 8) = [8]" "items (demo_ring 1 (-1) 7) = []"
  by (simp_all add: demo_ring_def new_circular_def tw_add_wait_def acquireAndKeepLock_until.simps tw_place_def tw_nextNextIn_def
      tw_removeOrBlock_def tw_remain_def countNoBlock_def releaseWithoutLock_def tw_advance_out_def tw_nextNextOut_def items_def slot_def)

lemma demo_threads:
  "monitor_run (new_monitor 1 0 3) [7] [7] \<lparr>queue = demo_ring 1 (-1) 7, threads = [Outside, WokenAdder 8, Adder 9]\<rparr>"
  "monitor_run (new_monitor 1 0 3) [7, 8] [7] \<lparr>queue = demo_ring 0 0 8, threads = [Outside, Outside, Adder 9]\<rparr>"
proof -
  have start: "new_monitor 1 0 3 = \<lparr>queue = demo_ring 1 (-1) 0, threads = [Outside, Outside, Outside]\<rparr>"
    by (simp add: new_monitor_def demo_ring_runs(1) [unfolded One_nat_def] numeral_3_eq_3)
  have 1: "monitor_run (new_monitor 1 0 3) ([] @ [7]) [] \<lparr>queue = demo_ring 0 0 7, threads = [Outside, Outside, Outside]\<rparr>"
    unfolding start
    by (rule monitor_run.put_in, rule monitor_run.nothing, rule monitor_step.put [where i = 0])
      (simp_all add: demo_ring_runs signal_def num_def)
  have 2: "monitor_run (new_monitor 1 0 3) ([] @ [7]) [] \<lparr>queue = demo_ring 0 0 7, threads = [Outside, Outside, Outside][1 := Adder 8]\<rparr>"
    by (rule other [OF 1, of Silent], simp, rule full) (simp_all add: demo_ring_runs)
  have 3: "monitor_run (new_monitor 1 0 3) ([] @ [7]) []
      \<lparr>queue = demo_ring 0 0 7, threads = [Outside, Outside, Outside][1 := Adder 8, 2 := Adder 9]\<rparr>"
    by (rule other [OF 2, of Silent], simp, rule full) (simp_all add: demo_ring_runs)
  have 4: "monitor_run (new_monitor 1 0 3) ([] @ [7]) ([] @ [7])
      \<lparr>queue = demo_ring 1 (-1) 7, threads = [Outside, WokenAdder 8, Adder 9]\<rparr>"
    by (rule taken [OF 3], rule got [where i = 0])
      (auto simp: demo_ring_runs signal_def num_def intro!: exI [of _ 1])
  then show "monitor_run (new_monitor 1 0 3) [7] [7] \<lparr>queue = demo_ring 1 (-1) 7, threads = [Outside, WokenAdder 8, Adder 9]\<rparr>" by simp
  have "monitor_run (new_monitor 1 0 3) (([] @ [7]) @ [8]) ([] @ [7])
      \<lparr>queue = demo_ring 0 0 8, threads = [Outside, Outside, Adder 9]\<rparr>"
    by (rule put_in [OF 4], rule put [where i = 1]) (simp_all add: demo_ring_runs signal_def num_def)
  then show "monitor_run (new_monitor 1 0 3) [7, 8] [7] \<lparr>queue = demo_ring 0 0 8, threads = [Outside, Outside, Adder 9]\<rparr>" by simp
qed

lemma threads_first_in_first_out_witness:
  "\<exists>m. monitor_run (new_monitor 1 0 3) [7, 8] [7 :: nat] m \<and> [7, 8] = [7] @ items (queue m) \<and> ring_inv (queue m)"
  using threads_first_in_first_out [OF _ demo_threads(2)] demo_threads(2) by fastforce

lemma no_wakeup_is_lost_witness:
  "\<exists>m. monitor_run (new_monitor 1 0 3) [7] [7 :: nat] m \<and> Adder 9 \<in> set (threads m) \<and> items (queue m) = [] \<and>
     (\<exists>d. WokenAdder d \<in> set (threads m))"
  using no_wakeup_is_lost [OF _ demo_threads(1), of 9] demo_threads(1) demo_ring_runs(7) by fastforce

text \<open>\<open>clear\<close> does not signal: it makes room, and the thread that waits for it sleeps on.\<close>

lemma clear_strands_adders:
  defines "m \<equiv> \<lparr>queue = demo_ring 0 0 7, threads = [Outside, Adder 8]\<rparr>"
  shows "waits_ok m" "\<not> waits_ok (m\<lparr>queue := tw_clear None (queue m)\<rparr>)"
  by (simp_all add: m_def waits_ok_def demo_ring_def items_def num_def tw_clear_def resetNoLock_def tw_remain_def countNoBlock_def capacity_def)

end
