(* ===== verification/Echo.thy ===== *)
theory Echo
  imports EndToEnd
begin

text \<open>
  The command line client (grease_echo.c): its options, the initialisation without a ping, the
  logging of its argument, and the exit codes, on top of the client library.
\<close>

section \<open>Output\<close>

definition ascii :: "string \<Rightarrow> bytes" where
  "ascii s = map of_char s"

datatype printed = Stdout bytes | Stderr bytes

definition usage :: bytes where
  "usage = concat (map (\<lambda>l. ascii l @ [10])
     [''Usage: grease_echo [--check] [--[LEVEL]] \"string here\"'',
      ''            --check     will check to see if logger is live.'',
      ''LEVELs:     --error'', ''            --warn'', ''            --success'', ''            --info'',
      ''            --debug'', ''            --debug2'', ''            --debug3'', ''            --user1'',
      ''            --user2''])"

section \<open>The program\<close>

text \<open>The macro GLOG and its relatives: the text itself is the format.\<close>

definition echo_glog ::
    "'w sendmsg \<Rightarrow> 'w local_logger \<Rightarrow> logMeta \<Rightarrow> bytes \<Rightarrow> client \<Rightarrow> tls \<Rightarrow> 'w \<Rightarrow> (printed list \<times> client \<times> tls \<times> 'w) res" where
  "echo_glog send loc m s c t w =
     bindR (format_plain s) (\<lambda>f.
     bindR (grease_printf send loc m (Some f) c t w) (\<lambda>(_, e, _, c, t, w).
       Inr (case e of None \<Rightarrow> [] | Some b \<Rightarrow> [Stderr b], c, t, w)))"

text \<open>The chain of comparisons of the level.\<close>

definition echo_level :: "bytes \<Rightarrow> logMeta option" where
  "echo_level opt =
     (if opt = ascii ''info'' then Some meta_info
      else if opt = ascii ''error'' then Some meta_error
      else if opt = ascii ''warn'' then Some meta_warn
      else if opt = ascii ''success'' then Some meta_success
      else if opt = ascii ''debug'' then Some meta_debug
      else if opt = ascii ''debug2'' then Some meta_debug2
      else if opt = ascii ''debug3'' then Some meta_debug3
      else if opt = ascii ''user1'' then Some meta_user1
      else if opt = ascii ''user2'' then Some meta_user2
      else None)"

text \<open>How the process ends: its exit code, what it has printed, the calls of the shutdown, the world.\<close>

type_synonym 'w ended = "int \<times> printed list \<times> oscall list \<times> 'w"

definition bye :: "int \<Rightarrow> printed list \<Rightarrow> oscall list \<Rightarrow> client \<Rightarrow> tls \<Rightarrow> 'w \<Rightarrow> 'w ended" where
  "bye e out tr c t w = (e, out, tr @ grease_shutdown c t, w)"

definition not_running :: "grease_result \<Rightarrow> printed list" where
  "not_running r = (if r \<noteq> GREASE_OK then [Stderr (ascii ''    Error: Grease not running.'' @ [10])] else [])"

fun echo_main ::
    "'w sendmsg \<Rightarrow> 'w local_logger \<Rightarrow> init_env \<Rightarrow> bytes list \<Rightarrow> client \<Rightarrow> tls \<Rightarrow> 'w \<Rightarrow> 'w ended res" where
  "echo_main send loc e (prog # arg # rest) c t w =
     (if take 2 arg = [45, 45]
      then (let opt = drop 2 arg
            in if opt = ascii ''help'' then Inr (1, [Stdout usage], [], w)
               else if opt = ascii ''check''
               then bindR (grease_initLogger e c t) (\<lambda>(r, tr, c, t).
                      if r \<noteq> GREASE_OK then Inr (bye 1 [Stdout (ascii ''Grease not running.'' @ [10])] tr c t w)
                      else Inr (bye 0 [Stdout (ascii ''Grease running & OK.'' @ [10])] tr c t w))
               else bindR (grease_fastInitLogger e c t) (\<lambda>(r, tr, c, t).
                      case rest of
                        [] \<Rightarrow> Inr (bye 1 (not_running r) tr c t w)
                      | s # _ \<Rightarrow>
                          if s = [] then Inr (bye 1 (not_running r) tr c t w)
                          else (case echo_level opt of
                                  Some m \<Rightarrow> bindR (echo_glog send loc m s c t w) (\<lambda>(out, c, t, w).
                                    Inr (bye 0 (not_running r @ out) tr c t w))
                                | None \<Rightarrow> bindR (echo_glog send loc meta_logdefault s c t w) (\<lambda>(out, c, t, w).
                                    Inr (bye 1 (not_running r @ [Stderr (ascii ''grease_echo: Unknown LEVEL.'' @ [10])] @ out) tr c t w)))))
      else bindR (grease_fastInitLogger e c t) (\<lambda>(r, tr, c, t).
             if arg \<noteq> []
             then bindR (echo_glog send loc meta_logdefault arg c t w) (\<lambda>(out, c, t, w). Inr (bye 0 (not_running r @ out) tr c t w))
             else Inr (bye 0 (not_running r) tr c t w)))"
| "echo_main send loc e _ c t w = Inr (1, [], [], w)"

declare echo_main.simps [simp del]

section \<open>What it does\<close>

lemma no_module:
  assumes "\<forall>obj \<in> set objs. \<not> strstr (fst obj) GREASE_LOG_SO_NAME"
  shows "check_grease_symbols objs c = c\<lparr>found_module := 0\<rparr>"
proof -
  have "fold grease_plhdr_callback objs d = d" for d
    using assms by (induction objs) (simp_all add: grease_plhdr_callback_def)
  then show ?thesis by (simp add: check_grease_symbols_def)
qed

text \<open>The initialisation of a fresh process whose system gives it a socket.\<close>

lemma fresh_setup:
  assumes "0 \<le> fd" "100 \<le> sbs" "tid \<noteq> 0"
  obtains t where "setup_sink_dgram_socket tid fd sbs p None SINK_NO_PING tls_init = Inr (0, [], t)"
    "length (logstr t) = GREASE_C_MACRO_MAX_MESSAGE + 1"
proof -
  obtain t where t: "setup_message (tls_init\<lparr>err_cnt := 0, sink_fd := fd, sun_path := GREASE_DEFAULT_SINK_PATH, send_buf_size := sbs\<rparr>) = Inr t"
    "logstr t = logstr tls_init"
    by (simp add: setup_message_def poke_def tls_init_def size_consts)
  have "setup_sink_dgram_socket tid fd sbs p None SINK_NO_PING tls_init = Inr (0, [], t\<lparr>my_tid := tid\<rparr>)"
    using assms t by (simp add: setup_sink_dgram_socket_def SINK_NO_PING_def SUN_PATH_SIZE_def GREASE_DEFAULT_SINK_PATH_def tls_init_def)
  then show thesis using that [of "t\<lparr>my_tid := tid\<rparr>"] t by (simp add: tls_init_def)
qed

lemma fresh_fastInit:
  assumes "\<forall>obj \<in> set (ie_objs e). \<not> strstr (fst obj) GREASE_LOG_SO_NAME" "0 \<le> ie_fd e" "100 \<le> ie_sbs e" "ie_tid e \<noteq> 0"
  obtains c t where "grease_fastInitLogger e client_init tls_init = Inr (GREASE_OK, [], c, t)"
    "grease_log c = Some LogToSink" "default_origin c = 0" "length (logstr t) = GREASE_C_MACRO_MAX_MESSAGE + 1"
    "setup_sink_dgram_socket (ie_tid e) (ie_fd e) (ie_sbs e) (ie_ping e) None SINK_NO_PING tls_init = Inr (0, [], t)"
proof -
  obtain t where t: "setup_sink_dgram_socket (ie_tid e) (ie_fd e) (ie_sbs e) (ie_ping e) None SINK_NO_PING tls_init = Inr (0, [], t)"
    "length (logstr t) = GREASE_C_MACRO_MAX_MESSAGE + 1"
    using fresh_setup [OF assms(2-4)] .
  then show thesis
    using that [of "client_init\<lparr>found_module := 0, grease_log := Some LogToSink\<rparr>" t] no_module [OF assms(1)]
    by (simp add: grease_fastInitLogger_def use_sink_def client_init_def)
qed

lemma call_log_keeps_fd:
  "call_log send loc fn m b len c t w = Inr (r, m', c', t', w') \<Longrightarrow> sink_fd t' = sink_fd t"
  by (cases fn) (auto simp: call_log_def grease_logToSink_def bindR_eq_Inr Let_def split: if_splits)

lemma printf_keeps_fd:
  assumes "grease_printf send loc m out c t w = Inr (r, e, m', c', t', w')"
  shows "sink_fd t' = sink_fd t"
proof (cases "grease_log c")
  case (Some fn)
  then show ?thesis using assms
    by (auto simp: grease_printf_def bindR_eq_Inr Let_def split: if_splits dest!: call_log_keeps_fd)
qed (use assms in \<open>auto simp: grease_printf_def bindR_eq_Inr Let_def\<close>)

lemma echo_level_ok:
  assumes "echo_level opt = Some m"
  shows "wf_meta m" "\<not> META_HAS_IGNORES m" "opt \<noteq> ascii ''help''" "opt \<noteq> ascii ''check''" "tag m = GREASE_TAG_NATIVE"
  using assms
  by (auto simp: echo_level_def meta_info_def meta_error_def meta_warn_def meta_success_def meta_debug_def meta_debug2_def
      meta_debug3_def meta_user1_def meta_user2_def META_HAS_IGNORES_def default_meta_def wf_meta_def ascii_def split: if_splits)

lemma plain_format: "plain_text s \<Longrightarrow> format_plain s = Inr s"
  by (induction s) (auto simp: plain_text_def)

text \<open>C23 A message given on the command line with one of the levels, while the sink listens and no logger is in the process, lies
  in a master buffer of the logger and behind its queue when the program has ended with exit code 0 and closed its socket.
  It has the level asked for; but its tag is that of native code and its origin 0, not the program's own tag.\<close>

theorem echo_message_is_queued:
  assumes env: "\<forall>obj \<in> set (ie_objs e). \<not> strstr (fst obj) GREASE_LOG_SO_NAME" "0 \<le> ie_fd e" "100 \<le> ie_sbs e" "ie_tid e \<noteq> 0"
    and arg: "echo_level opt = Some m" "plain_text s" "s \<noteq> []" "length s < GREASE_C_MACRO_MAX_MESSAGE"
    and bufs: "400 \<le> rbs" "length hdr = GREASE_CLIENT_HEADER_SIZE" "length tmp = GREASE_MAX_MESSAGE_SIZE" "700 \<le> fuel"
    and st: "sift st (m\<lparr>origin := 0\<rparr>) = (True, m')" "masters_ok st" "250 \<le> bufferSize st"
    and room: "items (masterBufferAvail st) = a # as"
      "length (items (internalCmdQueue st)) < capacity (internalCmdQueue st)"
  shows "\<exists>st' l. echo_main (sink_takes fuel rbs hdr tmp n) loc e [prog, [45, 45] @ opt, s] client_init tls_init st =
      Inr (0, [], [Close (ie_fd e)], st') \<and>
    logs st' a = Some l \<and> heapBuf_text (buf l) = s \<and> level (emeta (smeta l)) = level m \<and>
    tag (emeta (smeta l)) = GREASE_TAG_NATIVE \<and> origin (emeta (smeta l)) = 0 \<and>
    items (internalCmdQueue st') = items (internalCmdQueue st) @ [(internalCmdReq_new NEW_LOG 0)\<lparr>icmd_aux := Some a\<rparr>]"
proof -
  note m = echo_level_ok [OF arg(1)]
  obtain c t where init: "grease_fastInitLogger e client_init tls_init = Inr (GREASE_OK, [], c, t)"
    "grease_log c = Some LogToSink" "default_origin c = 0" "length (logstr t) = GREASE_C_MACRO_MAX_MESSAGE + 1"
    "setup_sink_dgram_socket (ie_tid e) (ie_fd e) (ie_sbs e) (ie_ping e) None SINK_NO_PING tls_init = Inr (0, [], t)"
    using fresh_fastInit [OF env] .
  have fresh: "my_tid tls_init \<noteq> ie_tid e" "length (hdr_buf tls_init) = GREASE_CLIENT_HEADER_SIZE"
    using env(4) by (simp_all add: tls_init_def)
  obtain t' st' l where P: "grease_printf (sink_takes fuel rbs hdr tmp n) loc m (Some s) c t st =
      Inr (GREASE_OK, None, m\<lparr>origin := 0\<rparr>, c, t', st')" "logs st' a = Some l" "heapBuf_text (buf l) = s" "emeta (smeta l) = m'"
    "tag m' = tag m" "level m' = level m" "origin m' = 0"
    "items (internalCmdQueue st') = items (internalCmdQueue st) @ [(internalCmdReq_new NEW_LOG 0)\<lparr>icmd_aux := Some a\<rparr>]"
    using printed_text [OF init(5) fresh init(2,4) m(1,2) arg(3,4) bufs _ st(2,3) room, of m' n loc] st(1) init(3) by auto
  have "sink_fd t' = ie_fd e" using printf_keeps_fd [OF P(1)] setup_ready [OF init(5) fresh] by simp
  then have "echo_main (sink_takes fuel rbs hdr tmp n) loc e [prog, [45, 45] @ opt, s] client_init tls_init st =
      Inr (0, [], [Close (ie_fd e)], st')"
    using init P(1) m arg by (simp add: echo_main.simps echo_glog_def plain_format bye_def not_running_def grease_shutdown_def)
  then show ?thesis using P m(5) by auto
qed

section \<open>At a concrete input\<close>

definition demo_echo_env :: init_env where
  "demo_echo_env = demo_env\<lparr>ie_objs := [(ascii ''/lib/libc.so.6'', None)]\<rparr>"

lemma demo_echo_alone: "\<forall>obj \<in> set (ie_objs demo_echo_env). \<not> strstr (fst obj) GREASE_LOG_SO_NAME"
  by code_simp

lemma echo_message_is_queued_witness:
  "\<exists>st' l. echo_main (sink_takes 700 400 (replicate 8 0) (replicate 65535 0) 8) grease_logLocal demo_echo_env
      [ascii ''grease_echo'', [45, 45] @ ascii ''warn'', [72, 105]] client_init tls_init demo_masters = Inr (0, [], [Close 4], st') \<and>
    logs st' 7 = Some l \<and> heapBuf_text (buf l) = [72, 105] \<and> tag (emeta (smeta l)) = GREASE_TAG_NATIVE"
proof -
  define m' where "m' = snd (sift demo_masters (meta_warn\<lparr>origin := 0\<rparr>))"
  have "fst (sift demo_masters (meta_warn\<lparr>origin := 0\<rparr>)) = True"
    by (simp add: sift_fresh demo_masters_def demo_ow_def owner_init_def filters.defs no_filters_def Let_def
        meta_warn_def default_meta_def META_HAS_CACHE_def level_defs split: option.split)
  then have m': "sift demo_masters (meta_warn\<lparr>origin := 0\<rparr>) = (True, m')" by (simp add: m'_def prod_eq_iff)
  have "echo_level (ascii ''warn'') = Some meta_warn" "plain_text [72, 105]" "0 \<le> ie_fd demo_echo_env" "100 \<le> ie_sbs demo_echo_env"
    "ie_tid demo_echo_env \<noteq> 0" "ie_fd demo_echo_env = 4"
    by (simp_all add: echo_level_def ascii_def plain_text_def demo_echo_env_def demo_env_def)
  with echo_message_is_queued [OF demo_echo_alone, of "ascii ''warn''" meta_warn "[72, 105]" 400 "replicate 8 0" "replicate 65535 0" 700
      demo_masters m' 7 "[8]" 8 grease_logLocal "ascii ''grease_echo''"]
  show ?thesis using m' demo_masters_ok demo_masters_room
    by (fastforce simp: size_consts GREASE_C_MACRO_MAX_MESSAGE_def simp del: length_items)
qed

text \<open>A per cent sign in the text is taken for a directive.\<close>

lemma echo_formats_its_argument:
  "echo_main send loc demo_echo_env [prog, [53, 48, 37]] client_init tls_init w = Inl BadFormat"
proof -
  have "0 \<le> ie_fd demo_echo_env" "100 \<le> ie_sbs demo_echo_env" "ie_tid demo_echo_env \<noteq> 0"
    by (simp_all add: demo_echo_env_def demo_env_def)
  then obtain c t where "grease_fastInitLogger demo_echo_env client_init tls_init = Inr (GREASE_OK, [], c, t)"
    using fresh_fastInit [OF demo_echo_alone] by metis
  then show ?thesis by (simp add: echo_main.simps echo_glog_def)
qed

end
