(* ===== verification/Spec2Isabelle.thy ===== *)
theory Spec2Isabelle
  imports Prelude Circular Meta Buffers Filters FilterApi FileRotation Format Owner Target Banks
    Completion Logger Routing Dispatch Examples ErrCommon Wire Listener Sink SinkExamples PipeSink Client EndToEnd JsLog ClientBinding JsExamples
    QueueSpec CommandLoop Targets TargetExamples HashTableOrder Lifecycle CircularThreads Echo
begin

text \<open>
  Verification library of greaseLog, a logger for node.js whose core is a C++ class with its
  own thread.

  \<^bold>\<open>The program.\<close> A calling thread (V8's, or a C client through a Unix datagram socket or a
  pipe) hands a message with its 80-byte meta to \<open>GreaseLogger\<close> (logger.h, logger.cc).
  \<open>log\<close> sifts it: the level masks and the filter lists of its tag and origin decide, and the
  lists found are cached in the meta. \<open>_log\<close> copies it into one of a hundred master buffers
  and puts a NEW_LOG command into a ring buffer of 200 places. The logger thread takes the
  commands out (\<open>handleInternalCmd\<close>), and writes each entry to the targets of its filters: into
  one of four banks of the target, behind a header and before a footer and a delimiter made
  from formats. A full bank is queued for write-out and a rotation command follows; a flush
  hands the banks to the terminal, the file or the JavaScript callback; the completion callback
  gives each bank back. A message too long for a bank takes a way of its own, as a chain of
  buffers counted by references. A file target rotates its file by size.

  \<^bold>\<open>The theories\<close>, from the ground up, with the code each models.

  \<^item> Prelude: words of 8 to 64 bits, memory as byte lists, \<open>fault\<close> (undefined behaviour, a failed
    assert, blocking, a deadlock) and the result type \<open>'a res\<close>; every function that can go wrong
    answers \<open>Inl\<close> a fault there.
  \<^item> Circular, QueueSpec, CircularWait, CircularThreads: TWlib's ring buffer and its semaphore (tw_circular.h, tw_sema2.h). \<open>items\<close> is
    its abstraction to a list; QueueSpec runs any sequence of operations against the list. CircularWait has the forms that
    wait, the deadlines, the access by position and the iterator; CircularThreads lets adders and removers interleave.
  \<^item> KHash, KHashProbe, KHashOps, KHashResize, HashTable, HashTableSpec, HashTableOrder: TWlib's hash table
    (khash.h, tw_khash.h), its probing, its rehashing in place, its iterator; refinement to a
    map for any hash function, and the order in which the logger's own tables are iterated, which is
    what lets Logger and Targets hold them as association lists.
  \<^item> Meta, Buffers, Format: grease_client.h's meta and constants; heapBuf, logLabel, singleLog, logBuf, overflowWriteOut
    (logger.h); \<open>snprintf\<close> on the formats of a target.
  \<^item> Filters, FilterApi: Filter, FilterList, sift and the filter tables; setGlobalOpts, addFilter, removeFilter,
    modifyFilter (logger.cc) as functions of the JavaScript argument.
  \<^item> FileRotation: fileTarget's rotate_files and check_files over a file system that is a map
    from paths to contents.
  \<^item> Owner, Target, Banks, Completion: the state \<open>owner\<close> that targets share (queues, keep-alive counters, heap of logs),
    logTarget with its three kinds, the life of a bank.
  \<^item> Logger, Routing, Dispatch, CommandLoop: the record \<open>logger\<close>, the entry points, both command loops, the flushes and
    the V8 callbacks; \<open>route\<close>, the specification of where an entry goes.
  \<^item> Calm, SetUp, Machine: the whole logger as a step relation \<open>logger_step\<close> over the record \<open>tlogger\<close>, whose steps are its entry points,
    commands, completions, timers and set-up methods, from the constructor \<open>tlogger_new\<close> on; \<open>set_up\<close> is an inductive
    relation that says what a set-up method may do, \<open>step_kinds\<close> sorts the steps into eight kinds.
  \<^item> Spread, Links: where each of the four banks of a target is, and what the pointers of the logger lead to, in every
    reachable state.
  \<^item> Targets: AddTarget, ModifyDefaultTarget, AddSink, Start, the constructors of targets, and the callbacks that report.
  \<^item> Wire, Listener, Sink, PipeSink: the bytes between client and sink, UnixDgramSink's loop over a datagram and its thread,
    PipeSink.
  \<^item> Client, EndToEnd, Echo: grease_client.c; client, sink and logger put together; the command line client grease_echo.c on top.
  \<^item> Lifecycle: the singleton, the start of the logger thread, the destructors, createPTS.
  \<^item> JsLog, ClientBinding, ErrCommon: log and friends of logger.cc, client_logger.cc, error-common.cc.
  \<^item> Examples, SinkExamples, JsExamples, TargetExamples: concrete states and the witnesses.

  \<^bold>\<open>How state corresponds.\<close> Objects reached by pointers from several places live in heaps: \<open>logs\<close>
  (singleLog), \<open>tgts\<close> (logTarget), \<open>flists\<close> (FilterList), \<open>infos\<close> (target_start_info); a pointer is a natural number, a freed object
  is not in its map, and reading it is a fault. A bank is a number below four. Records are
  extended the way the classes use each other: \<open>filters\<close>, \<open>owner\<close>, \<open>logger\<close>, \<open>tlogger\<close>. Operations take and return
  the state.

  \<^bold>\<open>What the groups of lemmas show.\<close>
  Circular: the representation invariant and that each operation acts on \<open>items\<close> as on a bounded list (locale
  \<open>bounded_fifo\<close>, interpreted for copies, moves and for queues that are also waited on). CircularThreads: first in, first out and no
  lost wake-up under every interleaving, by rule induction. KHash*: \<open>table_inv\<close> is kept, a probe meets every bucket once, the kick-out loop of a
  rehash ends. Banks and Completion: \<open>tgt_inv\<close>, every bank is in exactly one place, and \<open>tstream\<close>, the bytes a
  target will have put out, grows by whole lines. Owner: the reference counter as a locale. Dispatch: NEW_LOG and the overflow
  command implement \<open>route\<close>; \<open>masters_ok\<close>, every master buffer is in at most one place. CommandLoop: the loop ends; its
  locale \<open>effect\<close> carries a relation from single operations to whole handlers.
  Calm and SetUp: which addresses and queues each operation leaves alone; Machine: the invariant of the master buffers in every
  reachable state, by rule induction, and that logging never faults there. Spread and Links: each bank of each target is in
  exactly one place, and ids, the default target and the queued callbacks lead to live targets, in every reachable state;
  the locale \<open>flush_effect\<close> carries a relation from a single target's operations to the flushes and command handlers.
  Listener: the loop over a datagram refines the
  reading of a datagram as a list of frames. EndToEnd and Echo: what a client prints, or the command line program is given, lies
  behind the logger's queue. Lifecycle: the destructor frees everything it owns once, in every reachable state.

  \<^bold>\<open>Bounds and fuel.\<close> Loops that may run for ever take fuel or are \<open>partial_function\<close>s, and that they end is
  proved: the datagram loop with two turns a byte and two more (each turn consumes a byte or changes
  state once), the command loop with \<open>(c + 1)\<^sup>2\<close> rounds for a queue of \<open>c\<close> places (NEW_LOG queues at most
  \<open>c\<close> commands, none of them NEW_LOG), probing and rehashing within the number of buckets. Tables are
  shown right for fewer than \<open>2\<^sup>2\<^sup>9\<close> operations, where \<open>size << 1\<close> does not wrap; the load factor 0.77 is
  computed as \<open>(77 n + 50) div 100\<close>, which is what the code's double arithmetic gives for the powers of
  two it is used on. That a pipe client's loop does not end is proved for every amount of fuel.

  \<^bold>\<open>Arguments of the model.\<close> Answers of the operating system and of libuv are arguments: the clock, what
  \<open>writev\<close>, \<open>sendmsg\<close>, \<open>select\<close>, \<open>bind\<close> and \<open>open\<close> return, what fresh memory holds (\<open>junk\<close>), the texts of \<open>strerror\<close>. A write submitted to
  libuv is completed by a separate operation, in any order. JavaScript values are a datatype with
  the conversions the bindings use.

  \<^bold>\<open>Not modelled\<close>, and why. The threads' interleaving inside an operation: each queue operation and each
  handler is one step, as the mutexes in the code make the queues atomic (CircularThreads has the interleaving of waits on one queue).
  Out of memory, and the registration of the classes with V8 (Init, New), which has no logic of its own. The JavaScript layer (index.js) and the vendored libraries but
  the ring buffer and the hash table: the logger does not use them, or they are replaceable (tcmalloc).
\<close>

end
